(* ===== verification/Dyna_Prelude.thy ===== *)
theory Dyna_Prelude
  imports
    Complex_Main
    "HOL-Library.Word"
    "HOL-Library.Multiset"
    "HOL-Library.Char_ord"
    "HOL-Library.List_Lexorder"
    "HOL-Library.Monad_Syntax"
begin

text \<open>
  Shared vocabulary of the development: the JavaScript values that cross the native
  boundary, the errors a native function throws, C unsigned integers with their wrap-around
  written out, ASCII digits, and the list lemmas the components share.

  A C string \<open>(const char *s, size_t n)\<close> is a \<^typ>\<open>string\<close> whose length is \<open>n\<close>; a pointer
  that advances with its length is the list that remains. A \<open>uint8_t\<close> buffer is a list of
  8-bit words.
\<close>

section \<open>Automation collections\<close>

named_theorems wrap_simps \<open>C unsigned arithmetic that does not wrap\<close>
named_theorems js_simps \<open>unfolding of the JavaScript boundary\<close>

section \<open>JavaScript values and errors\<close>

text \<open>
  Numbers are the doubles the modules can observe: the two infinities, NaN and a finite
  rational. A JavaScript string is the byte string that \<open>JS_ToCStringLen\<close> yields for it.
  \<open>JOther\<close> is a value no modelled operation looks into (a function, a symbol, \<dots>).
\<close>

datatype jsnum = JsNaN | JsPInf | JsNInf | JsFin rat

datatype jsval =
    JUndef
  | JNull
  | JBool bool
  | JNum jsnum
  | JBigInt int
  | JStr string
  | JArr "jsval list"
  | JObj "(string \<times> jsval) list"
  | JBytes "8 word list"
  | JOther nat

datatype jserr =
    TypeError string
  | RangeError string
  | SyntaxError string
  | InternalError string
  | OutOfMemory
  | UserThrow

type_synonym 'a res = "jserr + 'a"

abbreviation js_int :: "int \<Rightarrow> jsval" where
  "js_int i \<equiv> JNum (JsFin (of_int i))"

abbreviation js_nat :: "nat \<Rightarrow> jsval" where
  "js_nat n \<equiv> js_int (int n)"

fun is_jstr :: "jsval \<Rightarrow> bool" where
  "is_jstr (JStr s) = True"
| "is_jstr _ = False"

lemma is_jstr_iff: "is_jstr v \<longleftrightarrow> (\<exists>s. v = JStr s)"
  by (cases v) auto

section \<open>C unsigned integers\<close>

definition u32 :: "nat \<Rightarrow> nat" where
  "u32 n = n mod 2 ^ 32"

definition u64 :: "nat \<Rightarrow> nat" where
  "u64 n = n mod 2 ^ 64"

lemma u32_id [wrap_simps]: "n < 2 ^ 32 \<Longrightarrow> u32 n = n"
  by (simp add: u32_def)

lemma u64_id [wrap_simps]: "n < 2 ^ 64 \<Longrightarrow> u64 n = n"
  by (simp add: u64_def)

lemma u32_less [simp]: "u32 n < 2 ^ 32"
  by (simp add: u32_def)

lemma u64_less [simp]: "u64 n < 2 ^ 64"
  by (simp add: u64_def)

section \<open>ASCII digits and decimal numbers\<close>

text \<open>The value \<open>c - '0'\<close> of a digit, and the number a digit string denotes.\<close>

abbreviation chr_between :: "char \<Rightarrow> char \<Rightarrow> char \<Rightarrow> bool" where
  "chr_between lo hi c \<equiv> lo \<le> c \<and> c \<le> hi"

definition is_dig :: "char \<Rightarrow> bool" where
  "is_dig c \<longleftrightarrow> CHR ''0'' \<le> c \<and> c \<le> CHR ''9''"

definition dig_val :: "char \<Rightarrow> nat" where
  "dig_val c = of_char c - 48"

definition dig_chr :: "nat \<Rightarrow> char" where
  "dig_chr d = char_of (48 + d)"

definition dec_val :: "string \<Rightarrow> nat" where
  "dec_val s = foldl (\<lambda>v c. v * 10 + dig_val c) 0 s"

fun dec_str :: "nat \<Rightarrow> string" where
  "dec_str n = (if n < 10 then [dig_chr n] else dec_str (n div 10) @ [dig_chr (n mod 10)])"

declare dec_str.simps [simp del]

lemma is_dig_iff: "is_dig c \<longleftrightarrow> 48 \<le> (of_char c :: nat) \<and> (of_char c :: nat) \<le> 57"
  by (simp add: is_dig_def less_eq_char_def)

lemma is_dig_chr [simp]: "d < 10 \<Longrightarrow> is_dig (dig_chr d)"
  by (simp add: is_dig_iff dig_chr_def)

lemma dig_val_chr [simp]: "d < 10 \<Longrightarrow> dig_val (dig_chr d) = d"
  by (simp add: dig_val_def dig_chr_def)

lemma dig_val_less: "is_dig c \<Longrightarrow> dig_val c < 10"
  by (auto simp: is_dig_iff dig_val_def)

lemma dig_chr_val: "is_dig c \<Longrightarrow> dig_chr (dig_val c) = c"
  by (auto simp: is_dig_iff dig_val_def dig_chr_def)

lemma dig_chr_0 [simp]: "dig_chr 0 = CHR ''0''"
  by (simp add: dig_chr_def char_of_eq_iff)

lemma dig_chr_inj: "d < 10 \<Longrightarrow> e < 10 \<Longrightarrow> dig_chr d = dig_chr e \<longleftrightarrow> d = e"
  by (metis dig_val_chr)

lemma dig_chr_eq_0 [simp]: "d < 10 \<Longrightarrow> dig_chr d = CHR ''0'' \<longleftrightarrow> d = 0"
  using dig_chr_inj [of d 0] by simp

lemma dec_val_Nil [simp]: "dec_val [] = 0"
  by (simp add: dec_val_def)

lemma dec_val_snoc [simp]: "dec_val (s @ [c]) = dec_val s * 10 + dig_val c"
  by (simp add: dec_val_def)

lemma dec_val_append: "dec_val (s @ t) = dec_val s * 10 ^ length t + dec_val t"
  by (induction t rule: rev_induct) (simp_all add: algebra_simps flip: append_assoc)

lemma dec_val_Cons: "dec_val (c # s) = dig_val c * 10 ^ length s + dec_val s"
  using dec_val_append [of "[c]" s] by (simp add: dec_val_def)

lemma dec_val_bound: "list_all is_dig s \<Longrightarrow> dec_val s < 10 ^ length s"
proof (induction s rule: rev_induct)
  case (snoc c s)
  then have "dec_val s < 10 ^ length s" and "dig_val c < 10"
    by (auto dest: dig_val_less)
  then show ?case by simp
qed simp

lemma dec_str_nonempty [simp]: "dec_str n \<noteq> []"
  by (subst dec_str.simps) simp

lemma dec_str_digits: "list_all is_dig (dec_str n)"
proof (induction n rule: dec_str.induct)
  case (1 n)
  then show ?case by (cases "n < 10") (simp_all add: dec_str.simps [of n])
qed

lemma dec_val_str [simp]: "dec_val (dec_str n) = n"
proof (induction n rule: dec_str.induct)
  case (1 n)
  then show ?case
    by (cases "n < 10") (simp_all add: dec_str.simps [of n] dec_val_def)
qed

text \<open>No superfluous leading zero: the strict numeral syntax several parsers demand.\<close>

definition strict_num :: "string \<Rightarrow> bool" where
  "strict_num s \<longleftrightarrow> s \<noteq> [] \<and> list_all is_dig s \<and> (length s > 1 \<longrightarrow> hd s \<noteq> CHR ''0'')"

lemma hd_dec_str: "0 < n \<Longrightarrow> hd (dec_str n) \<noteq> CHR ''0''"
proof (induction n rule: dec_str.induct)
  case (1 n)
  then show ?case
    by (cases "n < 10") (simp_all add: dec_str.simps [of n])
qed

lemma strict_num_dec_str: "strict_num (dec_str n)"
proof (cases "n < 10")
  case True
  then show ?thesis by (simp add: strict_num_def dec_str.simps [of n])
next
  case False
  then show ?thesis by (simp add: strict_num_def dec_str_digits hd_dec_str)
qed

lemma dec_str_val: "strict_num s \<Longrightarrow> dec_str (dec_val s) = s"
proof (induction s rule: rev_induct)
  case (snoc c s)
  then have c: "is_dig c" by (simp add: strict_num_def)
  show ?case
  proof (cases "s = []")
    case True
    with c show ?thesis
      by (simp add: dec_str.simps dec_val_def dig_val_less dig_chr_val)
  next
    case False
    with snoc.prems have s: "strict_num s" and hd: "hd s \<noteq> CHR ''0''"
      by (auto simp: strict_num_def)
    from s False hd have "0 < dec_val s"
      by (cases s)
        (auto simp: strict_num_def dec_val_Cons dest: dig_chr_val intro!: Nat.gr0I)
    with c snoc.IH [OF s] show ?thesis
      by (subst dec_str.simps) (simp add: dig_val_less dig_chr_val)
  qed
qed (simp add: strict_num_def)

section \<open>Prefix scanning\<close>

text \<open>
  \<open>while (i < n && P(s[i])) i++;\<close> splits the remaining input into \<^term>\<open>takeWhile P s\<close> and
  \<^term>\<open>dropWhile P s\<close>.
\<close>

lemma takeWhile_append_stop:
  "list_all P s \<Longrightarrow> t = [] \<or> \<not> P (hd t) \<Longrightarrow> takeWhile P (s @ t) = s"
  by (induction s) (cases t; auto)+

lemma dropWhile_append_stop:
  "list_all P s \<Longrightarrow> t = [] \<or> \<not> P (hd t) \<Longrightarrow> dropWhile P (s @ t) = t"
  by (induction s) (cases t; auto)+

lemma list_all_takeWhile [simp]: "list_all P (takeWhile P s)"
  by (auto simp: list_all_iff dest: set_takeWhileD)

section \<open>Three-way comparison\<close>

text \<open>
  The result convention of the C comparison functions: -1, 0 or 1. A function that is the sign
  comparison of keys in a linear order is a total preorder.
\<close>

definition ord_sign :: "'a :: linorder \<Rightarrow> 'a \<Rightarrow> int" where
  "ord_sign a b = (if a < b then -1 else if b < a then 1 else 0)"

lemma ord_sign_simps [simp]:
  "ord_sign a b < 0 \<longleftrightarrow> a < b" "ord_sign a b \<le> 0 \<longleftrightarrow> a \<le> b" "ord_sign a b = 0 \<longleftrightarrow> a = b"
  "ord_sign a b > 0 \<longleftrightarrow> b < a" "ord_sign a b \<ge> 0 \<longleftrightarrow> b \<le> a" "ord_sign a a = 0"
  by (auto simp: ord_sign_def)

lemma ord_sign_swap: "ord_sign a b = - ord_sign b a"
  by (auto simp: ord_sign_def)

text \<open>The contract of a comparison function on the values satisfying \<open>ok\<close>, and what sorting and searching use of it.\<close>

locale comparison =
  fixes cmp :: "'a \<Rightarrow> 'a \<Rightarrow> int" and ok :: "'a \<Rightarrow> bool" and key :: "'a \<Rightarrow> 'k :: linorder"
  assumes cmp_key: "ok a \<Longrightarrow> ok b \<Longrightarrow> cmp a b = ord_sign (key a) (key b)"
begin

lemma cmp_range: "ok a \<Longrightarrow> ok b \<Longrightarrow> cmp a b \<in> {-1, 0, 1}"
  by (simp add: cmp_key ord_sign_def)

lemma cmp_antisym: "ok a \<Longrightarrow> ok b \<Longrightarrow> cmp a b = - cmp b a"
  using cmp_key ord_sign_swap by metis

lemma cmp_trans: "ok a \<Longrightarrow> ok b \<Longrightarrow> ok c \<Longrightarrow> cmp a b \<le> 0 \<Longrightarrow> cmp b c \<le> 0 \<Longrightarrow> cmp a c \<le> 0"
  using order_trans by (simp add: cmp_key)

lemma cmp_less_trans: "ok a \<Longrightarrow> ok b \<Longrightarrow> ok c \<Longrightarrow> cmp a b < 0 \<Longrightarrow> cmp b c \<le> 0 \<Longrightarrow> cmp a c < 0"
  using less_le_trans by (simp add: cmp_key)

lemma cmp_total: "ok a \<Longrightarrow> ok b \<Longrightarrow> cmp a b \<le> 0 \<or> cmp b a \<le> 0"
  by (simp add: cmp_key linear)

end

end
