(* ===== verification/Dyna_Simulation.thy ===== *)
theory Dyna_Simulation
  imports Dyna_Prelude
begin

text \<open>
  The refinement interface the stateful components share. An implementation takes one
  operation at a time and may go wrong (\<^term>\<open>None\<close>: undefined behaviour in C); a specification is a
  total step on an abstract state. When every step simulates the specification, every
  sequence of operations does: it never goes wrong and shows exactly the specified outputs.
\<close>

fun impl_run :: "('op \<Rightarrow> 'c \<Rightarrow> ('out \<times> 'c) option) \<Rightarrow> 'op list \<Rightarrow> 'c \<Rightarrow> ('out list \<times> 'c) option" where
  "impl_run step [] c = Some ([], c)"
| "impl_run step (x # xs) c = do {
     (out, c') \<leftarrow> step x c;
     (outs, c'') \<leftarrow> impl_run step xs c';
     Some (out # outs, c'') }"

fun spec_run :: "('op \<Rightarrow> 'a \<Rightarrow> 'out \<times> 'a) \<Rightarrow> 'op list \<Rightarrow> 'a \<Rightarrow> 'out list \<times> 'a" where
  "spec_run spec [] a = ([], a)"
| "spec_run spec (x # xs) a =
     (let (out, a') = spec x a; (outs, a'') = spec_run spec xs a' in (out # outs, a''))"

lemma impl_run_invariant:
  assumes "\<And>x c out c'. x \<in> set xs \<Longrightarrow> P c \<Longrightarrow> step x c = Some (out, c') \<Longrightarrow> P c'"
  shows "P c \<Longrightarrow> impl_run step xs c = Some (outs, c') \<Longrightarrow> P c'"
  using assms
proof (induction xs arbitrary: c outs)
  case (Cons x xs)
  then obtain out c1 outs' where "step x c = Some (out, c1)" "impl_run step xs c1 = Some (outs', c')"
    by (auto simp: bind_eq_Some_conv)
  with Cons.IH [of c1 outs'] Cons.prems show ?case by (metis list.set_intros(1,2))
qed simp

locale simulation =
  fixes step :: "'op \<Rightarrow> 'c \<Rightarrow> ('out \<times> 'c) option"
    and spec :: "'op \<Rightarrow> 'a \<Rightarrow> 'out \<times> 'a"
    and rep :: "'c \<Rightarrow> 'a \<Rightarrow> bool"
  assumes sim: "rep c a \<Longrightarrow> \<exists>c'. step x c = Some (fst (spec x a), c') \<and> rep c' (snd (spec x a))"
begin

lemma run_sim:
  "rep c a \<Longrightarrow> \<exists>c'. impl_run step xs c = Some (fst (spec_run spec xs a), c') \<and>
     rep c' (snd (spec_run spec xs a))"
proof (induction xs arbitrary: c a)
  case (Cons x xs)
  obtain c' where c': "step x c = Some (fst (spec x a), c')" "rep c' (snd (spec x a))"
    using sim [OF Cons.prems] by blast
  from Cons.IH [OF c'(2)] c'(1) show ?case by (auto simp: split_def Let_def)
qed simp

lemma run_never_wrong: "rep c a \<Longrightarrow> impl_run step xs c \<noteq> None"
  using run_sim by fastforce

end

end
