(* ===== verification/Dyna_Bytes.thy ===== *)
theory Dyna_Bytes
  imports Dyna_Prelude
begin

unbundle bit_operations_syntax

text \<open>
  Byte strings as big-endian numbers, numbers as digits of a radix, and shifts and bitwise or of
  disjoint fields as arithmetic: what the address and the codec modules share.
\<close>

section \<open>Big-endian values\<close>

definition be_val :: "8 word list \<Rightarrow> nat" where
  "be_val bs = foldl (\<lambda>v b. v * 256 + unat b) 0 bs"

lemma be_val_Nil [simp]: "be_val [] = 0"
  by (simp add: be_val_def)

lemma be_val_snoc [simp]: "be_val (xs @ [b]) = be_val xs * 256 + unat b"
  by (simp add: be_val_def)

lemma unat8_less [simp]: "unat (b :: 8 word) < 256"
  using unsigned_less [of b, where ?'a = nat] by simp

lemma be_val_append: "be_val (xs @ ys) = be_val xs * 256 ^ length ys + be_val ys"
proof (induction ys rule: rev_induct)
  case (snoc y ys)
  have "be_val (xs @ ys @ [y]) = be_val (xs @ ys) * 256 + unat y" using be_val_snoc [of "xs @ ys" y] by simp
  then show ?case using snoc by (simp add: algebra_simps)
qed simp

lemma be_val_less: "be_val xs < 256 ^ length xs"
proof (induction xs rule: rev_induct)
  case (snoc x xs)
  have "n < k \<Longrightarrow> m < 256 \<Longrightarrow> n * 256 + m < 256 * k" for n m k :: nat by linarith
  from this [OF snoc.IH unat8_less [of x]] show ?case by simp
qed simp

lemma base_256_inj:
  assumes "m < 256" "k < 256"
  shows "(n :: nat) * 256 + m = l * 256 + k \<longleftrightarrow> n = l \<and> m = k"
proof
  assume e: "n * 256 + m = l * 256 + k"
  have "n = l" using arg_cong [OF e, of "\<lambda>x. x div 256"] assms by simp
  then show "n = l \<and> m = k" using e by simp
qed simp

lemma be_val_inj: "length xs = length ys \<Longrightarrow> be_val xs = be_val ys \<longleftrightarrow> xs = ys"
proof (induction xs arbitrary: ys rule: rev_induct)
  case (snoc x xs)
  then obtain y ys' where ys: "ys = ys' @ [y]" "length ys' = length xs" by (cases ys rule: rev_cases) auto
  have "be_val xs * 256 + unat x = be_val ys' * 256 + unat y \<longleftrightarrow> be_val xs = be_val ys' \<and> unat x = unat y"
    by (rule base_256_inj) simp_all
  then show ?case using snoc.IH [of ys'] ys by (simp add: word_unat_eq_iff)
qed simp

lemma be_val_split: "k \<le> length xs \<Longrightarrow> be_val xs div 256 ^ (length xs - k) = be_val (take k xs)"
proof -
  assume k: "k \<le> length xs"
  have "be_val xs = be_val (take k xs) * 256 ^ (length xs - k) + be_val (drop k xs)"
    using be_val_append [of "take k xs" "drop k xs"] by simp
  then show ?thesis using be_val_less [of "drop k xs"] by simp
qed

lemma pow_256: "(256 :: nat) ^ k = 2 ^ (8 * k)"
  by (simp add: power_mult)

lemma be_val_zeros [simp]: "be_val (replicate k 0) = 0"
proof (induction k)
  case (Suc k)
  have "be_val [0] = 0" by (simp add: be_val_def)
  then show ?case using Suc be_val_append [of "[0]" "replicate k 0"] by simp
qed simp

lemma be_val_Cons: "be_val (x # xs) = unat x * 256 ^ length xs + be_val xs"
  using be_val_append [of "[x]" xs] by (simp add: be_val_def)

lemma be_val_dvd: "256 ^ k dvd be_val (xs @ replicate k 0)"
  by (simp add: be_val_append)

section \<open>Shifts\<close>

lemma or_shift: "b < 2 ^ k \<Longrightarrow> push_bit k a OR b = a * 2 ^ k + (b :: nat)"
proof -
  assume b: "b < 2 ^ k"
  have "push_bit k a AND b = 0"
  proof (rule bit_eqI)
    fix n
    have "\<not> bit b n" if "k \<le> n"
      using b that by (metis bit_take_bit_iff not_le take_bit_nat_eq_self_iff)
    then show "bit (push_bit k a AND b) n \<longleftrightarrow> bit (0 :: nat) n" by (auto simp: bit_simps)
  qed
  then have "push_bit k a OR b = push_bit k a + b" by (simp add: disjunctive_add_eq_or)
  then show ?thesis by (simp add: push_bit_eq_mult)
qed

section \<open>Digits of a radix\<close>

fun radix_digits :: "nat \<Rightarrow> nat \<Rightarrow> nat \<Rightarrow> nat list" where
  "radix_digits b 0 v = []"
| "radix_digits b (Suc n) v = radix_digits b n (v div b) @ [v mod b]"

definition radix_val :: "nat \<Rightarrow> nat list \<Rightarrow> nat" where
  "radix_val b ds = foldl (\<lambda>v d. v * b + d) 0 ds"

lemma length_radix_digits [simp]: "length (radix_digits b n v) = n"
  by (induction n arbitrary: v) simp_all

lemma radix_digits_less: "0 < b \<Longrightarrow> d \<in> set (radix_digits b n v) \<Longrightarrow> d < b"
  by (induction n arbitrary: v) auto

lemma radix_val_snoc [simp]: "radix_val b (ds @ [d]) = radix_val b ds * b + d"
  by (simp add: radix_val_def)

lemma radix_val_append: "radix_val b (ds @ es) = radix_val b ds * b ^ length es + radix_val b es"
proof (induction es rule: rev_induct)
  case (snoc e es)
  have "radix_val b (ds @ es @ [e]) = radix_val b (ds @ es) * b + e" using radix_val_snoc [of b "ds @ es" e] by simp
  then show ?case using snoc by (simp add: algebra_simps)
qed (simp add: radix_val_def)

lemma radix_val_digits: "v < b ^ n \<Longrightarrow> radix_val b (radix_digits b n v) = v"
proof (induction n arbitrary: v)
  case (Suc n)
  then have "v div b < b ^ n" by (simp add: less_mult_imp_div_less mult.commute)
  then show ?case using Suc.IH by simp
qed (simp add: radix_val_def)

lemma take_radix_digits: "m \<le> n \<Longrightarrow> take m (radix_digits b n v) = radix_digits b m (v div b ^ (n - m))"
proof (induction n arbitrary: v)
  case (Suc n)
  show ?case
  proof (cases "m = Suc n")
    case False
    then have "m \<le> n" using Suc.prems by simp
    then show ?thesis using Suc.IH [of "v div b"] by (simp add: Suc_diff_le div_mult2_eq)
  qed simp
qed simp

section \<open>Induction over groups\<close>

lemma chunk_induct:
  assumes "0 < n" "P []" "\<And>xs. xs \<noteq> [] \<Longrightarrow> P (drop n xs) \<Longrightarrow> P xs"
  shows "P xs"
proof (induction xs rule: length_induct)
  case (1 xs)
  then show ?case using assms by (cases "xs = []") (auto intro: assms(3))
qed

lemma chunk4_induct [case_names Nil Chunk]:
  "P [] \<Longrightarrow> (\<And>xs. xs \<noteq> [] \<Longrightarrow> P (drop 4 xs) \<Longrightarrow> P xs) \<Longrightarrow> P xs"
  by (rule chunk_induct [of 4]) auto

lemma chunk5_induct [case_names Nil Chunk]:
  "P [] \<Longrightarrow> (\<And>xs. xs \<noteq> [] \<Longrightarrow> P (drop 5 xs) \<Longrightarrow> P xs) \<Longrightarrow> P xs"
  by (rule chunk_induct [of 5]) auto

end
