(* ===== verification/Dyna_Split.thy ===== *)
theory Dyna_Split
  imports Dyna_Prelude
begin

text \<open>
  Splitting a list at a separator and joining pieces with it: the reference notions behind the
  path and table formats.
\<close>

fun split_on :: "'a \<Rightarrow> 'a list \<Rightarrow> 'a list list" where
  "split_on c [] = [[]]"
| "split_on c (x # xs) =
     (if x = c then [] # split_on c xs
      else (case split_on c xs of [] \<Rightarrow> [[x]] | y # ys \<Rightarrow> (x # y) # ys))"

fun join_on :: "'a \<Rightarrow> 'a list list \<Rightarrow> 'a list" where
  "join_on c [] = []"
| "join_on c [x] = x"
| "join_on c (x # y # ys) = x @ c # join_on c (y # ys)"

lemma split_on_ne [simp]: "split_on c xs \<noteq> []"
  by (cases xs) (auto split: list.split)

lemma split_on_single [simp]: "c \<notin> set xs \<Longrightarrow> split_on c xs = [xs]"
  by (induction xs) auto

lemma split_on_append [simp]: "split_on c (xs @ c # ys) = split_on c xs @ split_on c ys"
  by (induction xs) (auto simp: neq_Nil_conv split: list.split)

lemma split_on_mem: "s \<in> set (split_on c xs) \<Longrightarrow> c \<notin> set s"
  by (induction xs arbitrary: s) (auto split: list.splits if_splits)

lemma join_on_Cons: "ys \<noteq> [] \<Longrightarrow> join_on c (x # ys) = x @ c # join_on c ys"
  by (cases ys) auto

lemma join_on_append: "xs \<noteq> [] \<Longrightarrow> ys \<noteq> [] \<Longrightarrow> join_on c (xs @ ys) = join_on c xs @ c # join_on c ys"
  by (induction xs rule: induct_list012) (auto simp: join_on_Cons)

lemma join_on_snoc: "join_on c (xs @ [x]) = (if xs = [] then x else join_on c xs @ c # x)"
  by (simp add: join_on_append)

lemma join_split [simp]: "join_on c (split_on c xs) = xs"
proof (induction xs)
  case (Cons x xs)
  then show ?case by (cases "split_on c xs" rule: remdups_adj.cases) (auto simp: join_on_Cons)
qed simp

lemma split_join: "xss \<noteq> [] \<Longrightarrow> \<forall>x\<in>set xss. c \<notin> set x \<Longrightarrow> split_on c (join_on c xss) = xss"
  by (induction xss rule: induct_list012) auto

lemma length_join_on: "xss \<noteq> [] \<Longrightarrow> length (join_on c xss) + 1 = (\<Sum>x\<leftarrow>xss. length x + 1)"
  by (induction xss rule: induct_list012) auto

lemma join_on_eq_Nil: "list_all (\<lambda>x. x \<noteq> []) xss \<Longrightarrow> join_on c xss = [] \<longleftrightarrow> xss = []"
  by (cases xss rule: remdups_adj.cases) auto

lemma hd_join_on: "xss \<noteq> [] \<Longrightarrow> hd xss \<noteq> [] \<Longrightarrow> hd (join_on c xss) = hd (hd xss)"
  by (cases xss rule: remdups_adj.cases) auto

lemma last_join_on: "xss \<noteq> [] \<Longrightarrow> last xss \<noteq> [] \<Longrightarrow> last (join_on c xss) = last (last xss)"
  by (induction xss rule: induct_list012) (auto simp: join_on_Cons)

end
