(* ===== verification/Dyna_Resource.thy ===== *)
theory Dyna_Resource
  imports Dyna_Prelude
begin

text \<open>
  The native-resource framework of \<^verbatim>\<open>src/src/dyna-nat.c\<close> and \<^verbatim>\<open>dyna-nat.h\<close>: a JavaScript wrapper
  object owns one native pointer and a dispose callback; \<open>close()\<close> and the class finalizer
  release it. The store maps object references to objects; the log \<open>w_disposed\<close> records the
  calls of dispose callbacks, in order. An allocation that may fail is a Boolean argument.

  Reading a foreign opaque pointer as a \<open>DynResource\<close> is undefined behaviour in C: the model
  returns \<^term>\<open>None\<close> there, and the theory shows that it is never reached.
\<close>

section \<open>Data\<close>

record 'n dyn_resource =
  res_native :: "'n option"
  res_dispose :: bool
  res_closed :: bool

datatype 'n opaque = OpaqueNull | OpaqueRes "'n dyn_resource" | OpaqueForeign nat

record 'n js_obj =
  obj_class :: nat
  obj_opaque :: "'n opaque"

record 'n world =
  w_objs :: "nat \<rightharpoonup> 'n js_obj"
  w_classes :: "nat list"
  w_disposed :: "'n list"

definition DYN_MAX_CLASSES :: nat where
  "DYN_MAX_CLASSES = 256"

section \<open>Operations\<close>

text \<open>\<open>this_val\<close> is \<^term>\<open>None\<close> when it is not an object.\<close>

definition JS_GetAnyOpaque :: "'n world \<Rightarrow> nat option \<Rightarrow> 'n opaque \<times> nat" where
  "JS_GetAnyOpaque w this_val =
     (case Option.bind this_val (w_objs w) of
        None \<Rightarrow> (OpaqueNull, 0)
      | Some p \<Rightarrow> (obj_opaque p, obj_class p))"

definition JS_GetOpaque :: "'n world \<Rightarrow> nat option \<Rightarrow> nat \<Rightarrow> 'n opaque" where
  "JS_GetOpaque w this_val class_id =
     (case Option.bind this_val (w_objs w) of
        None \<Rightarrow> OpaqueNull
      | Some p \<Rightarrow> if obj_class p \<noteq> class_id then OpaqueNull else obj_opaque p)"

definition JS_GetOpaque2 :: "'n world \<Rightarrow> nat option \<Rightarrow> nat \<Rightarrow> 'n opaque res" where
  "JS_GetOpaque2 w this_val class_id =
     (let p = JS_GetOpaque w this_val class_id
      in if p = OpaqueNull then Inl (TypeError ''invalid class'') else Inr p)"

definition dyn_is_our_class :: "'n world \<Rightarrow> nat \<Rightarrow> bool" where
  "dyn_is_our_class w cid \<longleftrightarrow> cid \<in> set (w_classes w)"

text \<open>The released resource and the natives its dispose callback was run on.\<close>

definition dyn_res_release :: "'n dyn_resource \<Rightarrow> 'n dyn_resource \<times> 'n list" where
  "dyn_res_release r =
     (if res_closed r then (r, [])
      else (r\<lparr>res_closed := True, res_native := None\<rparr>,
            case res_native r of
              Some n \<Rightarrow> if res_dispose r then [n] else []
            | None \<Rightarrow> []))"

text \<open>Only reached for objects of the framework's classes, hence partial on the others.\<close>

definition dyn_res_finalizer :: "'n world \<Rightarrow> nat \<Rightarrow> 'n world option" where
  "dyn_res_finalizer w val =
     (case JS_GetAnyOpaque w (Some val) of
        (OpaqueNull, _) \<Rightarrow> Some (w\<lparr>w_objs := (w_objs w)(val := None)\<rparr>)
      | (OpaqueRes r, _) \<Rightarrow>
          Some (w\<lparr>w_objs := (w_objs w)(val := None),
                  w_disposed := w_disposed w @ snd (dyn_res_release r)\<rparr>)
      | (OpaqueForeign _, _) \<Rightarrow> None)"

text \<open>
  \<open>obj_ok\<close> and \<open>res_ok\<close>: whether the two allocations succeed; \<open>obj\<close> is the reference of the
  new object. On failure the native is disposed of at once.
\<close>

definition dyn_res_wrap ::
    "'n world \<Rightarrow> nat \<Rightarrow> 'n \<Rightarrow> bool \<Rightarrow> nat \<Rightarrow> bool \<Rightarrow> bool \<Rightarrow> nat res \<times> 'n world" where
  "dyn_res_wrap w class_id native dispose obj obj_ok res_ok =
     (if obj_ok \<and> res_ok
      then (Inr obj,
            w\<lparr>w_objs := (w_objs w)(obj \<mapsto>
                \<lparr>obj_class = class_id,
                 obj_opaque = OpaqueRes
                   \<lparr>res_native = Some native, res_dispose = dispose, res_closed = False\<rparr>\<rparr>)\<rparr>)
      else (Inl OutOfMemory,
            w\<lparr>w_disposed := w_disposed w @ (if dispose then [native] else [])\<rparr>))"

text \<open>Resolving a resource: the step every method of a native class starts with.\<close>

definition res_live :: "'n dyn_resource \<Rightarrow> 'n dyn_resource res" where
  "res_live r =
     (if res_closed r then Inl (TypeError ''use of a closed native resource'') else Inr r)"

text \<open>The outer \<^typ>\<open>'n dyn_resource res option\<close>: \<^term>\<open>None\<close> is undefined behaviour.\<close>

definition dyn_res_get :: "'n world \<Rightarrow> nat option \<Rightarrow> nat \<Rightarrow> 'n dyn_resource res option" where
  "dyn_res_get w this_val class_id =
     (case JS_GetOpaque2 w this_val class_id of
        Inl e \<Rightarrow> Some (Inl e)
      | Inr (OpaqueRes r) \<Rightarrow> Some (res_live r)
      | Inr _ \<Rightarrow> None)"

definition dyn_res_native :: "'n dyn_resource \<Rightarrow> 'n option res" where
  "dyn_res_native r = (case res_live r of Inl e \<Rightarrow> Inl e | Inr r' \<Rightarrow> Inr (res_native r'))"

definition dyn_method_close :: "'n world \<Rightarrow> nat option \<Rightarrow> (jsval \<times> 'n world) option" where
  "dyn_method_close w this_val =
     (case JS_GetAnyOpaque w this_val of (p, cid) \<Rightarrow>
        if p \<noteq> OpaqueNull \<and> dyn_is_our_class w cid then
          (case (p, this_val) of
             (OpaqueRes r, Some o') \<Rightarrow>
               (let (r', ds) = dyn_res_release r
                in Some (JUndef,
                     w\<lparr>w_objs := (w_objs w)(o' \<mapsto> \<lparr>obj_class = cid, obj_opaque = OpaqueRes r'\<rparr>),
                       w_disposed := w_disposed w @ ds\<rparr>))
           | _ \<Rightarrow> None)
        else Some (JUndef, w))"

definition dyn_getter_closed :: "'n world \<Rightarrow> nat option \<Rightarrow> jsval res option" where
  "dyn_getter_closed w this_val =
     (case JS_GetAnyOpaque w this_val of (p, cid) \<Rightarrow>
        if p \<noteq> OpaqueNull \<and> dyn_is_our_class w cid then
          (case p of OpaqueRes r \<Rightarrow> Some (Inr (JBool (res_closed r))) | _ \<Rightarrow> None)
        else Some (Inl (TypeError ''not a native resource'')))"

definition dyn_res_class_common :: "'n world \<Rightarrow> nat \<Rightarrow> 'n world" where
  "dyn_res_class_common w class_id =
     (if length (w_classes w) < DYN_MAX_CLASSES
      then w\<lparr>w_classes := w_classes w @ [class_id]\<rparr> else w)"

text \<open>
  A method of a native class resolves its receiver, fails with the pending exception when it
  is closed, and otherwise works on the native value. The module's native value is kept in
  the resource itself.
\<close>

definition with_native ::
    "'h dyn_resource \<Rightarrow> ('h \<Rightarrow> 'a res \<times> 'h) \<Rightarrow> 'a res \<times> 'h dyn_resource" where
  "with_native r f =
     (case dyn_res_native r of
        Inl e \<Rightarrow> (Inl e, r)
      | Inr None \<Rightarrow> (Inl (TypeError ''null native''), r)
      | Inr (Some h) \<Rightarrow> (let (out, h') = f h in (out, r\<lparr>res_native := Some h'\<rparr>)))"

abbreviation open_res :: "'h \<Rightarrow> 'h dyn_resource" where
  "open_res h \<equiv> \<lparr>res_native = Some h, res_dispose = True, res_closed = False\<rparr>"

section \<open>Runs of the framework\<close>

text \<open>
  A run interleaves class registration, wrapping of fresh natives, objects of other classes
  appearing, \<open>close()\<close> on any value, and finalization. The history lists the natives handed
  to \<open>dyn_res_wrap\<close> with whether they came with a dispose callback. Class identifiers come
  fresh from the engine (\<open>JS_NewClassID\<close>), natives fresh from the allocator.
\<close>

definition world_init :: "'n world" where
  "world_init = \<lparr>w_objs = Map.empty, w_classes = [], w_disposed = []\<rparr>"

inductive nat_run :: "('n \<times> bool) list \<Rightarrow> 'n world \<Rightarrow> bool" where
  start: "nat_run [] world_init"
| register: "nat_run hist w \<Longrightarrow> \<forall>p \<in> ran (w_objs w). obj_class p \<noteq> c \<Longrightarrow>
     nat_run hist (dyn_res_class_common w c)"
| foreign: "nat_run hist w \<Longrightarrow> w_objs w x = None \<Longrightarrow> c \<notin> set (w_classes w) \<Longrightarrow>
     nat_run hist (w\<lparr>w_objs := (w_objs w)(x \<mapsto> \<lparr>obj_class = c, obj_opaque = OpaqueForeign k\<rparr>)\<rparr>)"
| wrap: "nat_run hist w \<Longrightarrow> w_objs w x = None \<Longrightarrow> n \<notin> fst ` set hist \<Longrightarrow>
     nat_run ((n, d) # hist) (snd (dyn_res_wrap w c n d x ok1 ok2))"
| close: "nat_run hist w \<Longrightarrow> dyn_method_close w this = Some (v, w') \<Longrightarrow> nat_run hist w'"
| finalize: "nat_run hist w \<Longrightarrow> dyn_res_finalizer w x = Some w' \<Longrightarrow> nat_run hist w'"

section \<open>Abstract ownership\<close>

text \<open>
  What a resource store means: which object owns which native (with whether it has a dispose
  callback). Closing and finalizing are the same abstract step, dropping the ownership.
\<close>

definition res_owned :: "'n dyn_resource \<Rightarrow> ('n \<times> bool) option" where
  "res_owned r = (if res_closed r then None else map_option (\<lambda>n. (n, res_dispose r)) (res_native r))"

fun opaque_owned :: "'n opaque \<Rightarrow> ('n \<times> bool) option" where
  "opaque_owned (OpaqueRes r) = res_owned r"
| "opaque_owned _ = None"

definition owned :: "'n world \<Rightarrow> nat \<rightharpoonup> 'n \<times> bool" where
  "owned w x = Option.bind (w_objs w x) (\<lambda>p. opaque_owned (obj_opaque p))"

definition pending :: "('n \<times> bool) option \<Rightarrow> 'n list" where
  "pending h = (case h of Some (n, True) \<Rightarrow> [n] | _ \<Rightarrow> [])"

definition own_inv :: "('n \<times> bool) list \<Rightarrow> (nat \<rightharpoonup> 'n \<times> bool) \<Rightarrow> 'n list \<Rightarrow> bool" where
  "own_inv hist H D \<longleftrightarrow>
     distinct (map fst hist) \<and> ran H \<subseteq> set hist \<and>
     inj_on H (dom H) \<and>
     distinct D \<and> (\<forall>n \<in> set D. (n, True) \<in> set hist \<and> (n, True) \<notin> ran H) \<and>
     (\<forall>n. (n, True) \<in> set hist \<longrightarrow> n \<in> set D \<or> (n, True) \<in> ran H)"

definition world_safe :: "'n world \<Rightarrow> bool" where
  "world_safe w \<longleftrightarrow>
     (\<forall>p \<in> ran (w_objs w). obj_class p \<in> set (w_classes w) \<longrightarrow> (\<forall>k. obj_opaque p \<noteq> OpaqueForeign k))"

section \<open>Local lemmas\<close>

lemma release_closed [simp]: "res_closed (fst (dyn_res_release r))"
  by (simp add: dyn_res_release_def)

lemma release_idem: "dyn_res_release (fst (dyn_res_release r)) = (fst (dyn_res_release r), [])"
  by (simp add: dyn_res_release_def)

lemma with_native_open [simp]:
  "with_native (open_res h) f = (fst (f h), open_res (snd (f h)))"
  by (simp add: with_native_def dyn_res_native_def res_live_def split: prod.split)

lemma with_native_closed [simp]:
  "res_closed r \<Longrightarrow>
     with_native r f = (Inl (TypeError ''use of a closed native resource''), r)"
  by (simp add: with_native_def dyn_res_native_def res_live_def)


lemma release_owned [simp]:
  "res_owned (fst (dyn_res_release r)) = None"
  "snd (dyn_res_release r) = pending (res_owned r)"
  by (auto simp: dyn_res_release_def res_owned_def pending_def split: option.splits bool.splits)

lemma own_inv_init: "own_inv [] Map.empty []"
  by (simp add: own_inv_def)

lemma own_invD:
  assumes "own_inv hist H D"
  shows "distinct (map fst hist)" "ran H \<subseteq> set hist" "inj_on H (dom H)" "distinct D"
    "\<forall>n \<in> set D. (n, True) \<in> set hist" "\<forall>n \<in> set D. (n, True) \<notin> ran H"
    "\<forall>n. (n, True) \<in> set hist \<longrightarrow> n \<in> set D \<or> (n, True) \<in> ran H"
  using assms by (auto simp: own_inv_def)

lemma ran_drop_inj:
  assumes "inj_on H (dom H)" and "H x = Some h"
  shows "ran (H(x := None)) = ran H - {h}"
proof -
  have "H y \<noteq> Some h" if "y \<noteq> x" for y
    using inj_onD [OF assms(1), of y x] assms(2) that by (auto simp: dom_def)
  then show ?thesis
    using assms(2) unfolding ran_def by (auto split: if_splits) (metis option.inject)
qed

lemma own_inv_drop:
  assumes inv: "own_inv hist H D"
  shows "own_inv hist (H(x := None)) (D @ pending (H x))"
proof (cases "H x")
  case None
  with inv show ?thesis by (simp add: pending_def fun_upd_idem)
next
  case (Some h)
  note inv' = own_invD [OF inv]
  note ran = ran_drop_inj [OF inv'(3) Some]
  have hin: "h \<in> ran H" using Some by (auto simp: ran_def)
  have pend: "set (pending (H x)) = {m. h = (m, True)}" "distinct (pending (H x))"
    using Some by (auto simp: pending_def split: prod.splits bool.splits)
  have "set D \<inter> set (pending (H x)) = {}"
    using inv'(6) hin by (auto simp: pend)
  moreover have "inj_on (H(x := None)) (dom (H(x := None)))"
    using inv'(3) by (auto simp: inj_on_def)
  ultimately show ?thesis
    using inv' hin pend unfolding own_inv_def ran by auto
qed

lemma own_inv_acquire:
  assumes inv: "own_inv hist H D" and free: "H x = None" and new: "n \<notin> fst ` set hist"
  shows "own_inv ((n, d) # hist) (H(x \<mapsto> (n, d))) D"
proof -
  note inv' = own_invD [OF inv]
  have ran: "ran (H(x \<mapsto> (n, d))) = insert (n, d) (ran H)"
    using free by simp
  have fresh: "(n, e) \<notin> ran H" "n \<notin> set D" for e
    using inv'(2,5) new by force+
  then have "H y \<noteq> Some (n, d)" for y by (auto simp: ran_def)
  then have "inj_on (H(x \<mapsto> (n, d))) (dom (H(x \<mapsto> (n, d))))"
    using inv'(3) free by (auto simp: inj_on_def)
  then show ?thesis
    using inv' fresh new unfolding own_inv_def ran by auto
qed

lemma own_inv_fail:
  assumes inv: "own_inv hist H D" and new: "n \<notin> fst ` set hist"
  shows "own_inv ((n, d) # hist) H (D @ (if d then [n] else []))"
proof -
  note inv' = own_invD [OF inv]
  have "(n, e) \<notin> ran H" "n \<notin> set D" for e
    using inv'(2,5) new by force+
  then show ?thesis
    using inv' new unfolding own_inv_def by (cases d) auto
qed

text \<open>Each operation refines an abstract ownership step.\<close>

lemma finalizer_refines:
  assumes "dyn_res_finalizer w x = Some w'"
  shows "owned w' = (owned w)(x := None)" "w_disposed w' = w_disposed w @ pending (owned w x)"
    "w_classes w' = w_classes w" "ran (w_objs w') \<subseteq> ran (w_objs w)"
  using assms
  by (auto simp: dyn_res_finalizer_def JS_GetAnyOpaque_def owned_def pending_def ran_def fun_eq_iff
      split: option.splits opaque.splits if_splits)

lemma close_cases:
  assumes "dyn_method_close w this = Some (v, w')"
  obtains (same) "w' = w" "v = JUndef"
  | (released) x p r where "this = Some x" "w_objs w x = Some p" "obj_opaque p = OpaqueRes r"
      "w' = w\<lparr>w_objs := (w_objs w)(x \<mapsto>
                \<lparr>obj_class = obj_class p, obj_opaque = OpaqueRes (fst (dyn_res_release r))\<rparr>),
              w_disposed := w_disposed w @ snd (dyn_res_release r)\<rparr>" "v = JUndef"
proof (cases "Option.bind this (w_objs w)")
  case None
  with assms have "w' = w" "v = JUndef"
    by (simp_all add: dyn_method_close_def JS_GetAnyOpaque_def)
  then show thesis by (rule same)
next
  case (Some p)
  then obtain x where x: "this = Some x" "w_objs w x = Some p" by (cases this) simp_all
  show thesis
  proof (cases "obj_opaque p \<noteq> OpaqueNull \<and> dyn_is_our_class w (obj_class p)")
    case False
    with assms x have "w' = w" "v = JUndef"
      by (auto simp: dyn_method_close_def JS_GetAnyOpaque_def)
    then show thesis by (rule same)
  next
    case True
    with assms x obtain r where r: "obj_opaque p = OpaqueRes r"
      by (cases "obj_opaque p") (simp_all add: dyn_method_close_def JS_GetAnyOpaque_def)
    with assms x True have "w' = w\<lparr>w_objs := (w_objs w)(x \<mapsto>
                \<lparr>obj_class = obj_class p, obj_opaque = OpaqueRes (fst (dyn_res_release r))\<rparr>),
              w_disposed := w_disposed w @ snd (dyn_res_release r)\<rparr>" and "v = JUndef"
      by (simp_all add: dyn_method_close_def JS_GetAnyOpaque_def split_def Let_def)
    with x r show thesis by (rule released)
  qed
qed

lemma close_refines:
  assumes "dyn_method_close w this = Some (v, w')"
  shows "w' = w \<or> (\<exists>x. this = Some x \<and> owned w' = (owned w)(x := None) \<and>
       w_disposed w' = w_disposed w @ pending (owned w x))"
  using assms by (cases rule: close_cases) (auto simp: owned_def fun_eq_iff)

lemma close_safe:
  assumes "world_safe w" and "dyn_method_close w this = Some (v, w')"
  shows "world_safe w'"
  using assms(2,1)
  by (cases rule: close_cases) (auto simp: world_safe_def ran_def split: if_splits)

lemma wrap_refines:
  "owned (snd (dyn_res_wrap w c n d x ok1 ok2)) =
     (if ok1 \<and> ok2 then (owned w)(x \<mapsto> (n, d)) else owned w)"
  "w_disposed (snd (dyn_res_wrap w c n d x ok1 ok2)) =
     w_disposed w @ (if \<not> (ok1 \<and> ok2) \<and> d then [n] else [])"
  by (auto simp: dyn_res_wrap_def owned_def res_owned_def fun_eq_iff)

lemma nat_run_inv: "nat_run hist w \<Longrightarrow> own_inv hist (owned w) (w_disposed w) \<and> world_safe w"
proof (induction rule: nat_run.induct)
  case start
  have "owned (world_init :: 'a world) = Map.empty"
    by (auto simp: owned_def world_init_def)
  then show ?case by (simp add: own_inv_init world_safe_def world_init_def)
next
  case (register hist w c)
  moreover have "owned (dyn_res_class_common w c) = owned w"
    by (auto simp: owned_def dyn_res_class_common_def)
  ultimately show ?case by (auto simp: dyn_res_class_common_def world_safe_def)
next
  case (foreign hist w x c k)
  moreover have "owned (w\<lparr>w_objs := (w_objs w)(x \<mapsto> \<lparr>obj_class = c, obj_opaque = OpaqueForeign k\<rparr>)\<rparr>)
      = owned w"
    using foreign.hyps by (auto simp: owned_def fun_eq_iff)
  ultimately show ?case by (auto simp: world_safe_def)
next
  case (wrap hist w x n d c ok1 ok2)
  then have own: "own_inv hist (owned w) (w_disposed w)" by simp
  from wrap.hyps(2) have free: "owned w x = None" by (simp add: owned_def)
  have "world_safe (snd (dyn_res_wrap w c n d x ok1 ok2))"
    using wrap by (auto simp: world_safe_def dyn_res_wrap_def)
  moreover have "own_inv ((n, d) # hist) (owned (snd (dyn_res_wrap w c n d x ok1 ok2)))
      (w_disposed (snd (dyn_res_wrap w c n d x ok1 ok2)))"
    using own_inv_acquire [OF own free wrap.hyps(3), of d] own_inv_fail [OF own wrap.hyps(3), of d]
    by (auto simp: wrap_refines)
  ultimately show ?case by blast
next
  case (close hist w this v w')
  then have own: "own_inv hist (owned w) (w_disposed w)" and safe: "world_safe w" by simp_all
  from close_refines [OF close.hyps(2)] have "own_inv hist (owned w') (w_disposed w')"
    using own own_inv_drop [OF own] by auto
  with close_safe [OF safe close.hyps(2)] show ?case by blast
next
  case (finalize hist w x w')
  then have own: "own_inv hist (owned w) (w_disposed w)" and safe: "world_safe w" by simp_all
  note refines = finalizer_refines [OF finalize.hyps(2)]
  from own_inv_drop [OF own] have "own_inv hist (owned w') (w_disposed w')"
    by (simp add: refines)
  moreover from safe refines(3,4) have "world_safe w'" by (auto simp: world_safe_def)
  ultimately show ?case by blast
qed

section \<open>Properties\<close>

text \<open>
  C1. Exactly-once disposal: in every run, the dispose callback of a native handed to
  \<open>dyn_res_wrap\<close> has not run while an object still owns it open, and has run exactly once as
  soon as none does, whatever closes, repeated closes and finalizations happened.
\<close>

theorem dispose_exactly_once:
  assumes "nat_run hist w" and "(n, True) \<in> set hist"
  shows "count_list (w_disposed w) n = (if \<exists>x. owned w x = Some (n, True) then 0 else 1)"
proof -
  from nat_run_inv [OF assms(1)] have inv: "own_inv hist (owned w) (w_disposed w)" by simp
  show ?thesis
  proof (cases "\<exists>x. owned w x = Some (n, True)")
    case True
    then have "(n, True) \<in> ran (owned w)" by (auto simp: ran_def)
    with inv True show ?thesis by (auto simp: own_inv_def count_list_0_iff)
  next
    case False
    then have "(n, True) \<notin> ran (owned w)" by (auto simp: ran_def)
    with inv assms(2) have "n \<in> set (w_disposed w)" "distinct (w_disposed w)"
      by (auto simp: own_inv_def)
    with False show ?thesis
      by (simp add: distinct_count_atmost_1 flip: count_mset)
  qed
qed

theorem dispose_exactly_once_witness:
  "nat_run [(42::nat, True)]
     \<lparr>w_objs = [0 \<mapsto> \<lparr>obj_class = 7, obj_opaque = OpaqueRes
         \<lparr>res_native = None, res_dispose = True, res_closed = True\<rparr>\<rparr>],
      w_classes = [7], w_disposed = [42]\<rparr> \<and>
   count_list (w_disposed \<lparr>w_objs = [0 \<mapsto> \<lparr>obj_class = 7, obj_opaque = OpaqueRes
         \<lparr>res_native = None, res_dispose = True, res_closed = True\<rparr>\<rparr>],
      w_classes = [7], w_disposed = [42::nat]\<rparr>) 42 = 1"
proof -
  let ?w1 = "dyn_res_class_common (world_init :: nat world) 7"
  let ?w2 = "snd (dyn_res_wrap ?w1 7 42 True 0 True True)"
  let ?w3 = "\<lparr>w_objs = [0 \<mapsto> \<lparr>obj_class = 7, obj_opaque = OpaqueRes
         \<lparr>res_native = None, res_dispose = True, res_closed = True\<rparr>\<rparr>],
      w_classes = [7], w_disposed = [42::nat]\<rparr>"
  have "nat_run [] ?w1" by (rule nat_run.register [OF nat_run.start]) (simp add: world_init_def)
  then have "nat_run [(42, True)] ?w2"
    by (rule nat_run.wrap) (simp_all add: dyn_res_class_common_def world_init_def)
  moreover have "dyn_method_close ?w2 (Some 0) = Some (JUndef, ?w3)"
    by (simp add: dyn_method_close_def JS_GetAnyOpaque_def dyn_is_our_class_def dyn_res_wrap_def
        dyn_res_class_common_def world_init_def dyn_res_release_def DYN_MAX_CLASSES_def)
  ultimately have run: "nat_run [(42, True)] ?w3" by (rule nat_run.close)
  have free: "\<not> (\<exists>x. owned ?w3 x = Some (42, True))"
    by (auto simp: owned_def res_owned_def split: if_splits)
  from dispose_exactly_once [OF run, of 42] free have "count_list (w_disposed ?w3) 42 = 1"
    by (simp only: if_False list.set_intros simp_thms)
  with run show ?thesis by blast
qed

text \<open>
  Closing a framework object succeeds without ever reading a foreign opaque pointer, is
  idempotent, and every later method call on it is rejected with the closed-resource error.
\<close>

theorem close_rejects_later_use:
  assumes "nat_run hist w" and "w_objs w x = Some p" and "obj_class p \<in> set (w_classes w)"
    and "obj_opaque p \<noteq> OpaqueNull"
  shows "\<exists>w'. dyn_method_close w (Some x) = Some (JUndef, w') \<and>
      dyn_res_get w' (Some x) (obj_class p) =
        Some (Inl (TypeError ''use of a closed native resource'')) \<and>
      dyn_getter_closed w' (Some x) = Some (Inr (JBool True)) \<and>
      dyn_method_close w' (Some x) = Some (JUndef, w')"
proof -
  from nat_run_inv [OF assms(1)] assms(2,3) have "\<forall>k. obj_opaque p \<noteq> OpaqueForeign k"
    by (auto simp: world_safe_def ran_def)
  with assms(4) obtain r where r: "obj_opaque p = OpaqueRes r"
    by (cases "obj_opaque p") auto
  let ?p' = "\<lparr>obj_class = obj_class p, obj_opaque = OpaqueRes (fst (dyn_res_release r))\<rparr>"
  let ?w' = "w\<lparr>w_objs := (w_objs w)(x \<mapsto> ?p'),
              w_disposed := w_disposed w @ snd (dyn_res_release r)\<rparr>"
  have "dyn_method_close w (Some x) = Some (JUndef, ?w')"
    using assms(2,3) r
    by (simp add: dyn_method_close_def JS_GetAnyOpaque_def dyn_is_our_class_def split_def Let_def)
  moreover have "dyn_res_get ?w' (Some x) (obj_class p) =
      Some (Inl (TypeError ''use of a closed native resource''))"
    by (simp add: dyn_res_get_def JS_GetOpaque2_def JS_GetOpaque_def res_live_def Let_def)
  moreover have "dyn_getter_closed ?w' (Some x) = Some (Inr (JBool True))"
    using assms(3) by (simp add: dyn_getter_closed_def JS_GetAnyOpaque_def dyn_is_our_class_def)
  moreover have "dyn_method_close ?w' (Some x) = Some (JUndef, ?w')"
    using assms(3)
    by (simp add: dyn_method_close_def JS_GetAnyOpaque_def dyn_is_our_class_def release_idem
        del: release_owned)
  ultimately show ?thesis by blast
qed

theorem close_rejects_later_use_witness:
  "\<exists>w'. dyn_method_close (snd (dyn_res_wrap (dyn_res_class_common world_init 7) 7 (42::nat)
        True 0 True True)) (Some 0) = Some (JUndef, w') \<and>
      dyn_res_get w' (Some 0) 7 = Some (Inl (TypeError ''use of a closed native resource'')) \<and>
      dyn_getter_closed w' (Some 0) = Some (Inr (JBool True)) \<and>
      dyn_method_close w' (Some 0) = Some (JUndef, w')"
proof -
  let ?w1 = "dyn_res_class_common (world_init :: nat world) 7"
  let ?w2 = "snd (dyn_res_wrap ?w1 7 (42::nat) True 0 True True)"
  let ?p = "\<lparr>obj_class = 7, obj_opaque = OpaqueRes
      \<lparr>res_native = Some (42::nat), res_dispose = True, res_closed = False\<rparr>\<rparr>"
  have "nat_run [] ?w1" by (rule nat_run.register [OF nat_run.start]) (simp add: world_init_def)
  then have run: "nat_run [(42, True)] ?w2"
    by (rule nat_run.wrap) (simp_all add: dyn_res_class_common_def world_init_def)
  have p: "w_objs ?w2 0 = Some ?p"
    and c: "obj_class ?p \<in> set (w_classes ?w2)" and nn: "obj_opaque ?p \<noteq> OpaqueNull"
    by (simp_all add: dyn_res_wrap_def dyn_res_class_common_def world_init_def DYN_MAX_CLASSES_def)
  from close_rejects_later_use [OF run p c nn] show ?thesis by simp
qed

end
