(* ===== verification/Dyna_Typing.thy ===== *)
theory Dyna_Typing
  imports Dyna_Resource
begin

text \<open>
  Type safety of native resources. Every method of a native class casts the pointer of its receiver
  to the C type of its class. In runs where each constructor wraps natives of its own type under its
  own class, the cast is always right: a receiver is either rejected or holds a live native of the
  class asked for.
\<close>

section \<open>Typed runs\<close>

text \<open>\<open>class_of n\<close> is the class whose C type the native \<open>n\<close> has.\<close>

inductive typed_run :: "('n \<Rightarrow> nat) \<Rightarrow> ('n \<times> bool) list \<Rightarrow> 'n world \<Rightarrow> bool" for class_of where
  start: "typed_run class_of [] world_init"
| register: "typed_run class_of hist w \<Longrightarrow> \<forall>p \<in> ran (w_objs w). obj_class p \<noteq> c \<Longrightarrow>
     typed_run class_of hist (dyn_res_class_common w c)"
| foreign: "typed_run class_of hist w \<Longrightarrow> w_objs w x = None \<Longrightarrow> c \<notin> set (w_classes w) \<Longrightarrow>
     typed_run class_of hist (w\<lparr>w_objs := (w_objs w)(x \<mapsto> \<lparr>obj_class = c, obj_opaque = OpaqueForeign k\<rparr>)\<rparr>)"
| wrap: "typed_run class_of hist w \<Longrightarrow> w_objs w x = None \<Longrightarrow> n \<notin> fst ` set hist \<Longrightarrow>
     typed_run class_of ((n, d) # hist) (snd (dyn_res_wrap w (class_of n) n d x ok1 ok2))"
| close: "typed_run class_of hist w \<Longrightarrow> dyn_method_close w this = Some (v, w') \<Longrightarrow> typed_run class_of hist w'"
| finalize: "typed_run class_of hist w \<Longrightarrow> dyn_res_finalizer w x = Some w' \<Longrightarrow> typed_run class_of hist w'"

definition world_typed :: "('n \<Rightarrow> nat) \<Rightarrow> 'n world \<Rightarrow> bool" where
  "world_typed class_of w \<longleftrightarrow>
     (\<forall>p \<in> ran (w_objs w). \<forall>r. obj_opaque p = OpaqueRes r \<longrightarrow> \<not> res_closed r \<longrightarrow>
        (\<exists>n. res_native r = Some n \<and> class_of n = obj_class p))"

section \<open>The typing invariant\<close>

lemma typed_run_nat_run: "typed_run class_of hist w \<Longrightarrow> nat_run hist w"
  by (induction rule: typed_run.induct) (auto intro: nat_run.intros)

lemma world_typed_wrap:
  "world_typed class_of w \<Longrightarrow> world_typed class_of (snd (dyn_res_wrap w (class_of n) n d x ok1 ok2))"
  by (auto simp: world_typed_def dyn_res_wrap_def ran_def)

lemma world_typed_close:
  assumes "dyn_method_close w this = Some (v, w')" and "world_typed class_of w"
  shows "world_typed class_of w'"
  using assms by (cases rule: close_cases) (auto simp: world_typed_def ran_def split: if_splits)

lemma world_typed_finalizer:
  "dyn_res_finalizer w x = Some w' \<Longrightarrow> world_typed class_of w \<Longrightarrow> world_typed class_of w'"
  using finalizer_refines(4) [of w x w'] by (auto simp: world_typed_def)

lemma typed_run_typed: "typed_run class_of hist w \<Longrightarrow> world_typed class_of w"
proof (induction rule: typed_run.induct)
  case (register hist w c)
  then show ?case by (simp add: dyn_res_class_common_def world_typed_def)
next
  case (foreign hist w x c k)
  then show ?case by (auto simp: world_typed_def ran_def)
qed (auto simp: world_typed_wrap world_typed_close world_typed_finalizer, simp add: world_typed_def world_init_def)

lemma owned_live:
  assumes "own_inv hist (owned w) (w_disposed w)" and "w_objs w x = Some p" and "obj_opaque p = OpaqueRes r"
    and "\<not> res_closed r" and "res_native r = Some n"
  shows "(n, res_dispose r) \<in> set hist \<and> n \<notin> set (w_disposed w)"
proof -
  have "owned w x = Some (n, res_dispose r)" using assms by (simp add: owned_def res_owned_def)
  then have "(n, res_dispose r) \<in> ran (owned w)" by (auto simp: ran_def)
  with own_invD [OF assms(1)] show ?thesis
    by (metis (full_types) eq_key_imp_eq_value in_mono)
qed

section \<open>Property\<close>



end
