(* ===== verification/Dyna_Ring.thy ===== *)
theory Dyna_Ring
  imports Dyna_Resource
begin

text \<open>
  The \<open>Ring\<close> class of \<^verbatim>\<open>src/src/dyna-container.c\<close>: a circular buffer of fixed capacity over an
  array of JavaScript values. Indices are C \<open>uint32_t\<close> values with their wrap-around written
  out (\<^const>\<open>u32\<close>). The field \<open>rg_freed\<close> logs the values released with \<open>JS_FreeValueRT\<close>.

  An argument coercion such as \<open>JS_ToInt64\<close> may run user code that closes or changes the
  receiver: it is a function of the receiver that yields a result and the receiver afterwards.
\<close>

section \<open>Data and operations\<close>

record dyn_ring =
  rg_items :: "jsval list"
  rg_cap :: nat
  rg_start :: nat
  rg_count :: nat
  rg_freed :: "jsval list"

definition sizeof_JSValue :: nat where
  "sizeof_JSValue = 16"

definition UINT32_MAX :: nat where
  "UINT32_MAX = 2 ^ 32 - 1"

type_synonym 'h coercion = "'h dyn_resource \<Rightarrow> int res \<times> 'h dyn_resource"

text \<open>
  The constructor: \<open>arg\<close> is the outcome of \<open>JS_ToInt64\<close> on the first argument (\<^term>\<open>None\<close>
  when it is missing or the coercion throws), \<open>ok\<close> whether the allocations succeed.
\<close>

definition dyn_ring_ctor :: "int option \<Rightarrow> bool \<Rightarrow> dyn_ring dyn_resource res" where
  "dyn_ring_ctor arg ok =
     (case arg of
        None \<Rightarrow> Inl (TypeError ''Ring(capacity) requires an integer capacity'')
      | Some n \<Rightarrow>
          if n \<le> 0 \<or> nat n > UINT32_MAX div sizeof_JSValue
          then Inl (RangeError ''Ring: capacity out of range'')
          else if \<not> ok then Inl OutOfMemory
          else Inr (open_res \<lparr>rg_items = replicate (nat n) JUndef, rg_cap = nat n,
                      rg_start = 0, rg_count = 0, rg_freed = []\<rparr>))"

definition ring_push :: "jsval \<Rightarrow> dyn_ring \<Rightarrow> jsval res \<times> dyn_ring" where
  "ring_push v g =
     (if rg_count g < rg_cap g then
        (let phys = u32 (rg_start g + rg_count g) mod rg_cap g;
             g' = g\<lparr>rg_items := (rg_items g)[phys := v], rg_count := u32 (rg_count g + 1)\<rparr>
         in (Inr (js_nat (rg_count g')), g'))
      else
        (let phys = rg_start g;
             g' = g\<lparr>rg_freed := rg_freed g @ [rg_items g ! phys],
                    rg_items := (rg_items g)[phys := v],
                    rg_start := u32 (rg_start g + 1) mod rg_cap g\<rparr>
         in (Inr (js_nat (rg_count g')), g')))"

definition dyn_ring_push :: "dyn_ring dyn_resource \<Rightarrow> jsval \<Rightarrow> jsval res \<times> dyn_ring dyn_resource" where
  "dyn_ring_push r v = with_native r (ring_push v)"

definition dyn_ring_get ::
    "dyn_ring dyn_resource \<Rightarrow> dyn_ring coercion \<Rightarrow> jsval res \<times> dyn_ring dyn_resource" where
  "dyn_ring_get r toint =
     (case toint r of
        (Inl e, r') \<Rightarrow> (Inl e, r')
      | (Inr i, r') \<Rightarrow> with_native r' (\<lambda>g.
          (if i < 0 \<or> nat i \<ge> rg_count g then Inr JUndef
           else Inr (rg_items g ! (u32 (rg_start g + nat i) mod rg_cap g)), g)))"

definition dyn_ring_length :: "dyn_ring dyn_resource \<Rightarrow> jsval res \<times> dyn_ring dyn_resource" where
  "dyn_ring_length r = with_native r (\<lambda>g. (Inr (js_nat (rg_count g)), g))"

definition dyn_ring_capacity :: "dyn_ring dyn_resource \<Rightarrow> jsval res \<times> dyn_ring dyn_resource" where
  "dyn_ring_capacity r = with_native r (\<lambda>g. (Inr (js_nat (rg_cap g)), g))"

definition ring_to_list :: "dyn_ring \<Rightarrow> jsval list" where
  "ring_to_list g =
     map (\<lambda>i. rg_items g ! (u32 (rg_start g + i) mod rg_cap g)) [0..<rg_count g]"

definition dyn_ring_to_array :: "dyn_ring dyn_resource \<Rightarrow> jsval res \<times> dyn_ring dyn_resource" where
  "dyn_ring_to_array r = with_native r (\<lambda>g. (Inr (JArr (ring_to_list g)), g))"

text \<open>Disposal releases every slot: the values it frees.\<close>

definition dyn_ring_free :: "dyn_ring \<Rightarrow> jsval list" where
  "dyn_ring_free g = map (\<lambda>i. rg_items g ! i) [0..<rg_cap g]"

section \<open>Specification: a bounded first-in first-out buffer\<close>

locale bounded_fifo =
  fixes push :: "'v \<Rightarrow> 'q \<Rightarrow> 'q"
    and contents :: "'q \<Rightarrow> 'v list"
    and bound :: "'q \<Rightarrow> nat"
    and inv :: "'q \<Rightarrow> bool"
  assumes contents_push: "inv q \<Longrightarrow> contents (push v q) =
      (if length (contents q) < bound q then contents q @ [v] else tl (contents q) @ [v])"
    and bound_push: "inv q \<Longrightarrow> bound (push v q) = bound q"
    and inv_push: "inv q \<Longrightarrow> inv (push v q)"
    and within_bound: "inv q \<Longrightarrow> length (contents q) \<le> bound q"
    and bound_pos: "inv q \<Longrightarrow> 0 < bound q"
begin

lemma inv_fold: "inv q \<Longrightarrow> inv (fold push vs q)"
  by (induction vs arbitrary: q) (simp_all add: inv_push)

lemma bound_fold: "inv q \<Longrightarrow> bound (fold push vs q) = bound q"
  by (induction vs arbitrary: q) (simp_all add: inv_push bound_push)

lemma contents_push_drop:
  "inv q \<Longrightarrow> contents (push v q) =
     drop (length (contents q) + 1 - bound q) (contents q @ [v])"
  using within_bound [of q] bound_pos [of q]
  by (cases "length (contents q) < bound q") (auto simp: contents_push drop_Suc)

lemma contents_fold:
  "inv q \<Longrightarrow> contents (fold push vs q) =
     drop (length (contents q) + length vs - bound q) (contents q @ vs)"
proof (induction vs arbitrary: q)
  case Nil
  with within_bound [of q] show ?case by simp
next
  case (Cons v vs)
  let ?c = "contents q" and ?b = "bound q"
  let ?k = "length ?c + 1 - ?b"
  have "contents (fold push (v # vs) q) =
      drop (length (contents (push v q)) + length vs - ?b) (contents (push v q) @ vs)"
    using Cons by (simp add: inv_push bound_push)
  also have "contents (push v q) @ vs = drop ?k (?c @ v # vs)"
    using Cons.prems bound_pos [OF Cons.prems] by (simp add: contents_push_drop)
  also have "drop (length (contents (push v q)) + length vs - ?b) (drop ?k (?c @ v # vs)) =
      drop (length ?c + length (v # vs) - ?b) (?c @ v # vs)"
    using within_bound [OF Cons.prems] bound_pos [OF Cons.prems]
    by (auto simp: contents_push_drop [OF Cons.prems] intro!: arg_cong [where f = "\<lambda>n. drop n _"])
  finally show ?case .
qed

end

section \<open>Invariant and refinement\<close>

definition ring_inv :: "dyn_ring \<Rightarrow> bool" where
  "ring_inv g \<longleftrightarrow> 0 < rg_cap g \<and> rg_cap g \<le> UINT32_MAX div sizeof_JSValue \<and>
     length (rg_items g) = rg_cap g \<and> rg_start g < rg_cap g \<and> rg_count g \<le> rg_cap g"

lemma ring_cap_bound: "ring_inv g \<Longrightarrow> 2 * rg_cap g + 1 < 2 ^ 32"
  by (simp add: ring_inv_def UINT32_MAX_def sizeof_JSValue_def)

lemma ring_index_no_wrap:
  "ring_inv g \<Longrightarrow> i \<le> rg_cap g \<Longrightarrow> u32 (rg_start g + i) = rg_start g + i"
  using ring_cap_bound [of g] by (intro u32_id) (simp add: ring_inv_def)

lemma ring_to_list_eq:
  "ring_inv g \<Longrightarrow> ring_to_list g =
     map (\<lambda>i. rg_items g ! ((rg_start g + i) mod rg_cap g)) [0..<rg_count g]"
  by (auto simp: ring_to_list_def ring_index_no_wrap) (simp add: ring_index_no_wrap ring_inv_def)

lemma length_ring_to_list [simp]: "length (ring_to_list g) = rg_count g"
  by (simp add: ring_to_list_def)


lemma ring_push_inv:
  assumes "ring_inv g"
  shows "ring_inv (snd (ring_push v g))"
  using assms ring_cap_bound [OF assms]
  by (auto simp: ring_inv_def ring_push_def Let_def u32_id)

lemma ring_push_cap [simp]: "rg_cap (snd (ring_push v g)) = rg_cap g"
  by (simp add: ring_push_def Let_def)

lemma mod_shift_neq:
  fixes c s i j :: nat
  assumes "i < c" "j < c" "i \<noteq> j"
  shows "(s + i) mod c \<noteq> (s + j) mod c"
  using assms
proof (induction i j rule: linorder_wlog)
  case (le i j)
  then have "\<not> c dvd (s + j) - (s + i)" by (auto dest: dvd_imp_le)
  with le show ?case by (metis mod_eq_dvd_iff_nat add_le_cancel_left)
qed metis

lemma ring_push_contents:
  assumes inv: "ring_inv g"
  shows "ring_to_list (snd (ring_push v g)) =
     (if rg_count g < rg_cap g then ring_to_list g @ [v] else tl (ring_to_list g) @ [v])"
proof (cases "rg_count g < rg_cap g")
  case True
  have neq: "(rg_start g + i) mod rg_cap g \<noteq> (rg_start g + rg_count g) mod rg_cap g"
    if "i < rg_count g" for i
    using that True by (intro mod_shift_neq) auto
  show ?thesis
    using True inv ring_push_inv [OF inv, of v] ring_index_no_wrap [OF inv] ring_cap_bound [OF inv]
    by (simp add: ring_to_list_eq)
      (auto simp: ring_push_def Let_def u32_id ring_inv_def neq [symmetric])
next
  case False
  let ?c = "rg_cap g" and ?s = "rg_start g"
  from False inv have full: "rg_count g = ?c" and c: "0 < ?c" "?s < ?c" "length (rg_items g) = ?c"
    by (simp_all add: ring_inv_def)
  have idx: "(Suc ?s mod ?c + i) mod ?c = Suc (?s + i) mod ?c" for i
    using mod_add_left_eq [of "Suc ?s" ?c i] by simp
  have eq: "ring_to_list (snd (ring_push v g)) =
      map (\<lambda>i. (rg_items g)[?s := v] ! ((?s + Suc i) mod ?c)) [0..<?c]"
    using ring_to_list_eq [OF ring_push_inv [OF inv, of v]] False full ring_cap_bound [OF inv]
      ring_index_no_wrap [OF inv, of 1] c
    by (simp add: ring_push_def Let_def idx)
  have keep: "(?s + Suc i) mod ?c \<noteq> ?s" if "i < ?c - 1" for i
    using mod_shift_neq [of "Suc i" ?c 0 ?s] that c by simp
  show ?thesis
  proof (rule nth_equalityI)
    show "length (ring_to_list (snd (ring_push v g))) =
      length (if rg_count g < ?c then ring_to_list g @ [v] else tl (ring_to_list g) @ [v])"
      using False full c by (simp add: eq)
  next
    fix i
    assume "i < length (ring_to_list (snd (ring_push v g)))"
    then have i: "i < ?c" by (simp add: eq)
    show "ring_to_list (snd (ring_push v g)) ! i =
      (if rg_count g < ?c then ring_to_list g @ [v] else tl (ring_to_list g) @ [v]) ! i"
    proof (cases "i < ?c - 1")
      case True
      with False i keep [OF True] full show ?thesis
        by (simp add: eq nth_append nth_tl ring_to_list_eq [OF inv])
    next
      case last: False
      with i have "Suc (?s + i) = ?s + ?c" by simp
      then have "Suc (?s + i) mod ?c = (?s + ?c) mod ?c" by (rule arg_cong)
      then have "Suc (?s + i) mod ?c = ?s" using c by simp
      with False full c last i show ?thesis by (simp add: eq nth_append)
    qed
  qed
qed

interpretation ring: bounded_fifo "\<lambda>v g. snd (ring_push v g)" ring_to_list rg_cap ring_inv
  by unfold_locales (auto simp: ring_push_contents ring_push_inv, auto simp: ring_inv_def)

text \<open>
  Ownership of values: a push stores its value and releases the value it overwrites. A slot
  that is overwritten while the ring is not full holds the initial \<open>undefined\<close>.
\<close>

lemma mset_ring_items:
  "ring_inv g \<Longrightarrow> mset (rg_items (snd (ring_push v g))) + mset (rg_freed (snd (ring_push v g))) +
      (if rg_count g < rg_cap g then {#rg_items g ! ((rg_start g + rg_count g) mod rg_cap g)#} else {#})
    = add_mset v (mset (rg_items g) + mset (rg_freed g))"
  by (auto simp: ring_push_def Let_def ring_index_no_wrap mset_update ring_inv_def)

section \<open>Properties\<close>



text \<open>
  Coerce-then-resolve: when the coercion of the index of \<open>get\<close> runs user code that closes
  the ring, the call fails with the closed-resource error and changes nothing more; when it
  leaves an open ring behind, an index in range yields the \<open>i\<close>-th oldest value and any other
  index \<open>undefined\<close>.
\<close>

theorem ring_get_after_coercion:
  assumes "toint r = (Inr i, r')"
  shows "(res_closed r' \<longrightarrow>
       dyn_ring_get r toint = (Inl (TypeError ''use of a closed native resource''), r')) \<and>
     (\<forall>g. r' = open_res g \<and> ring_inv g \<longrightarrow>
       dyn_ring_get r toint =
         (Inr (if 0 \<le> i \<and> nat i < length (ring_to_list g) then ring_to_list g ! nat i else JUndef), r'))"
  using assms
  by (auto simp: dyn_ring_get_def ring_to_list_def)

theorem ring_get_after_coercion_witness:
  "dyn_ring_get (open_res \<lparr>rg_items = [JNull], rg_cap = 1, rg_start = 0, rg_count = 1, rg_freed = []\<rparr>)
     (\<lambda>r. (Inr 0, fst (dyn_res_release r))) =
   (Inl (TypeError ''use of a closed native resource''),
    \<lparr>res_native = None, res_dispose = True, res_closed = True\<rparr>)"
proof -
  let ?r = "open_res \<lparr>rg_items = [JNull], rg_cap = 1, rg_start = 0, rg_count = 1, rg_freed = []\<rparr>"
  have "(\<lambda>r. (Inr 0, fst (dyn_res_release r))) ?r =
      (Inr 0, \<lparr>res_native = None, res_dispose = True, res_closed = True\<rparr>)"
    by (simp add: dyn_res_release_def)
  from ring_get_after_coercion [where toint = "\<lambda>r. (Inr 0, fst (dyn_res_release r))", OF this]
  show ?thesis by simp
qed

end
