(* ===== verification/Dyna_List.thy ===== *)
theory Dyna_List
  imports Dyna_Resource Dyna_Simulation
begin

text \<open>
  The \<open>List\<close> class of \<^verbatim>\<open>src/src/dyna-container.c\<close>: a doubly-linked list of heap nodes. The
  nodes live in an explicit store from addresses to nodes; \<open>malloc\<close> returns a fresh address or
  fails; reading or writing through an address that is not in the store is undefined behaviour
  and makes the whole operation \<^term>\<open>None\<close>. Freeing a node removes it from the store, so that a
  use after free or a double free is such an access.
\<close>

section \<open>Data\<close>

record list_node =
  nd_prev :: "nat option"
  nd_next :: "nat option"
  nd_value :: jsval

type_synonym node_store = "nat \<rightharpoonup> list_node"

record dyn_list =
  ls_nodes :: node_store
  ls_head :: "nat option"
  ls_tail :: "nat option"
  ls_length :: nat

section \<open>Operations\<close>

text \<open>Memory accesses through a pointer.\<close>

definition set_prev :: "nat \<Rightarrow> nat option \<Rightarrow> node_store \<Rightarrow> node_store option" where
  "set_prev a p m = map_option (\<lambda>n. m(a \<mapsto> n\<lparr>nd_prev := p\<rparr>)) (m a)"

definition set_next :: "nat \<Rightarrow> nat option \<Rightarrow> node_store \<Rightarrow> node_store option" where
  "set_next a p m = map_option (\<lambda>n. m(a \<mapsto> n\<lparr>nd_next := p\<rparr>)) (m a)"

definition dyn_list_empty :: dyn_list where
  "dyn_list_empty = \<lparr>ls_nodes = Map.empty, ls_head = None, ls_tail = None, ls_length = 0\<rparr>"

definition dyn_list_ctor :: "bool \<Rightarrow> dyn_list dyn_resource res" where
  "dyn_list_ctor ok = (if ok then Inr (open_res dyn_list_empty) else Inl OutOfMemory)"

definition list_push_front :: "jsval \<Rightarrow> nat \<Rightarrow> dyn_list \<Rightarrow> dyn_list option" where
  "list_push_front v a l = do {
     let m = (ls_nodes l)(a \<mapsto> \<lparr>nd_prev = None, nd_next = ls_head l, nd_value = v\<rparr>);
     l' \<leftarrow> (case ls_head l of
        Some h \<Rightarrow> map_option (\<lambda>m'. l\<lparr>ls_nodes := m'\<rparr>) (set_prev h (Some a) m)
      | None \<Rightarrow> Some (l\<lparr>ls_nodes := m, ls_tail := Some a\<rparr>));
     Some (l'\<lparr>ls_head := Some a, ls_length := u32 (ls_length l + 1)\<rparr>) }"

definition list_push_back :: "jsval \<Rightarrow> nat \<Rightarrow> dyn_list \<Rightarrow> dyn_list option" where
  "list_push_back v a l = do {
     let m = (ls_nodes l)(a \<mapsto> \<lparr>nd_prev = ls_tail l, nd_next = None, nd_value = v\<rparr>);
     l' \<leftarrow> (case ls_tail l of
        Some t \<Rightarrow> map_option (\<lambda>m'. l\<lparr>ls_nodes := m'\<rparr>) (set_next t (Some a) m)
      | None \<Rightarrow> Some (l\<lparr>ls_nodes := m, ls_head := Some a\<rparr>));
     Some (l'\<lparr>ls_tail := Some a, ls_length := u32 (ls_length l + 1)\<rparr>) }"

text \<open>\<open>l->length--\<close> on a \<open>uint32_t\<close>.\<close>

definition u32_dec :: "nat \<Rightarrow> nat" where
  "u32_dec n = u32 (n + (2 ^ 32 - 1))"

definition list_pop_front :: "dyn_list \<Rightarrow> (jsval \<times> dyn_list) option" where
  "list_pop_front l =
     (case ls_head l of
        None \<Rightarrow> Some (JUndef, l)
      | Some a \<Rightarrow> do {
          n \<leftarrow> ls_nodes l a;
          l' \<leftarrow> (case nd_next n of
             Some h \<Rightarrow> map_option (\<lambda>m. l\<lparr>ls_nodes := m\<rparr>) (set_prev h None (ls_nodes l))
           | None \<Rightarrow> Some (l\<lparr>ls_tail := None\<rparr>));
          Some (nd_value n,
            l'\<lparr>ls_head := nd_next n, ls_length := u32_dec (ls_length l),
               ls_nodes := (ls_nodes l')(a := None)\<rparr>) })"

definition list_pop_back :: "dyn_list \<Rightarrow> (jsval \<times> dyn_list) option" where
  "list_pop_back l =
     (case ls_tail l of
        None \<Rightarrow> Some (JUndef, l)
      | Some a \<Rightarrow> do {
          n \<leftarrow> ls_nodes l a;
          l' \<leftarrow> (case nd_prev n of
             Some t \<Rightarrow> map_option (\<lambda>m. l\<lparr>ls_nodes := m\<rparr>) (set_next t None (ls_nodes l))
           | None \<Rightarrow> Some (l\<lparr>ls_head := None\<rparr>));
          Some (nd_value n,
            l'\<lparr>ls_tail := nd_prev n, ls_length := u32_dec (ls_length l),
               ls_nodes := (ls_nodes l')(a := None)\<rparr>) })"

definition list_peek :: "nat option \<Rightarrow> dyn_list \<Rightarrow> jsval option" where
  "list_peek p l =
     (case p of None \<Rightarrow> Some JUndef | Some a \<Rightarrow> map_option nd_value (ls_nodes l a))"

text \<open>The loops that walk the list; \<^term>\<open>None\<close> also stands for a walk that never ends.\<close>

partial_function (option) list_walk :: "node_store \<Rightarrow> nat option \<Rightarrow> jsval list option" where
  "list_walk m p =
     (case p of
        None \<Rightarrow> Some []
      | Some a \<Rightarrow> Option.bind (m a) (\<lambda>n.
          Option.bind (list_walk m (nd_next n)) (\<lambda>vs. Some (nd_value n # vs))))"

text \<open>Disposal: the values released and the nodes that remain allocated.\<close>

partial_function (option) list_free_walk ::
    "node_store \<Rightarrow> nat option \<Rightarrow> (jsval list \<times> node_store) option" where
  "list_free_walk m p =
     (case p of
        None \<Rightarrow> Some ([], m)
      | Some a \<Rightarrow> Option.bind (m a) (\<lambda>n.
          Option.bind (list_free_walk (m(a := None)) (nd_next n)) (\<lambda>(vs, m').
            Some (nd_value n # vs, m'))))"

definition dyn_list_free :: "dyn_list \<Rightarrow> (jsval list \<times> node_store) option" where
  "dyn_list_free l = list_free_walk (ls_nodes l) (ls_head l)"

text \<open>
  The methods: resolve the receiver, then work on the node store. \<open>malloc\<close> is the address the
  allocator returns, \<^term>\<open>None\<close> when it fails.
\<close>

definition with_native_mem ::
    "'h dyn_resource \<Rightarrow> ('h \<Rightarrow> ('a res \<times> 'h) option) \<Rightarrow> ('a res \<times> 'h dyn_resource) option" where
  "with_native_mem r f =
     (case dyn_res_native r of
        Inl e \<Rightarrow> Some (Inl e, r)
      | Inr None \<Rightarrow> Some (Inl (TypeError ''null native''), r)
      | Inr (Some h) \<Rightarrow> map_option (\<lambda>(out, h'). (out, r\<lparr>res_native := Some h'\<rparr>)) (f h))"

definition list_push ::
    "(nat \<Rightarrow> dyn_list \<Rightarrow> dyn_list option) \<Rightarrow> nat option \<Rightarrow> dyn_list \<Rightarrow> (jsval res \<times> dyn_list) option" where
  "list_push op malloc l =
     (case malloc of
        None \<Rightarrow> Some (Inl OutOfMemory, l)
      | Some a \<Rightarrow> map_option (\<lambda>l'. (Inr (js_nat (ls_length l')), l')) (op a l))"

definition dyn_list_push_front ::
    "dyn_list dyn_resource \<Rightarrow> jsval \<Rightarrow> nat option \<Rightarrow> (jsval res \<times> dyn_list dyn_resource) option" where
  "dyn_list_push_front r v malloc = with_native_mem r (list_push (list_push_front v) malloc)"

definition dyn_list_push_back ::
    "dyn_list dyn_resource \<Rightarrow> jsval \<Rightarrow> nat option \<Rightarrow> (jsval res \<times> dyn_list dyn_resource) option" where
  "dyn_list_push_back r v malloc = with_native_mem r (list_push (list_push_back v) malloc)"

definition dyn_list_pop_front ::
    "dyn_list dyn_resource \<Rightarrow> (jsval res \<times> dyn_list dyn_resource) option" where
  "dyn_list_pop_front r =
     with_native_mem r (\<lambda>l. map_option (\<lambda>(v, l'). (Inr v, l')) (list_pop_front l))"

definition dyn_list_pop_back ::
    "dyn_list dyn_resource \<Rightarrow> (jsval res \<times> dyn_list dyn_resource) option" where
  "dyn_list_pop_back r =
     with_native_mem r (\<lambda>l. map_option (\<lambda>(v, l'). (Inr v, l')) (list_pop_back l))"

definition dyn_list_front ::
    "dyn_list dyn_resource \<Rightarrow> (jsval res \<times> dyn_list dyn_resource) option" where
  "dyn_list_front r = with_native_mem r (\<lambda>l. map_option (\<lambda>v. (Inr v, l)) (list_peek (ls_head l) l))"

definition dyn_list_back ::
    "dyn_list dyn_resource \<Rightarrow> (jsval res \<times> dyn_list dyn_resource) option" where
  "dyn_list_back r = with_native_mem r (\<lambda>l. map_option (\<lambda>v. (Inr v, l)) (list_peek (ls_tail l) l))"

definition dyn_list_length ::
    "dyn_list dyn_resource \<Rightarrow> (jsval res \<times> dyn_list dyn_resource) option" where
  "dyn_list_length r = with_native_mem r (\<lambda>l. Some (Inr (js_nat (ls_length l)), l))"

definition dyn_list_to_array ::
    "dyn_list dyn_resource \<Rightarrow> (jsval res \<times> dyn_list dyn_resource) option" where
  "dyn_list_to_array r =
     with_native_mem r (\<lambda>l. map_option (\<lambda>vs. (Inr (JArr vs), l)) (list_walk (ls_nodes l) (ls_head l)))"

section \<open>Representation\<close>

text \<open>A segment of linked nodes: \<open>pv\<close> is the node before it, \<open>nx\<close> the node after it.\<close>

definition first_ptr :: "nat list \<Rightarrow> nat option \<Rightarrow> nat option" where
  "first_ptr ps nx = (case ps of [] \<Rightarrow> nx | p # _ \<Rightarrow> Some p)"

definition last_ptr :: "nat option \<Rightarrow> nat list \<Rightarrow> nat option" where
  "last_ptr pv ps = (if ps = [] then pv else Some (last ps))"

fun chain :: "node_store \<Rightarrow> nat option \<Rightarrow> nat list \<Rightarrow> nat option \<Rightarrow> bool" where
  "chain m pv [] nx = True"
| "chain m pv (p # ps) nx =
     ((\<exists>v. m p = Some \<lparr>nd_prev = pv, nd_next = first_ptr ps nx, nd_value = v\<rparr>) \<and>
      chain m (Some p) ps nx)"

definition node_vals :: "node_store \<Rightarrow> nat list \<Rightarrow> jsval list" where
  "node_vals m ps = map (\<lambda>p. nd_value (the (m p))) ps"

definition list_rep :: "dyn_list \<Rightarrow> nat list \<Rightarrow> bool" where
  "list_rep l ps \<longleftrightarrow> distinct ps \<and> dom (ls_nodes l) = set ps \<and> chain (ls_nodes l) None ps None \<and>
     ls_head l = first_ptr ps None \<and> ls_tail l = last_ptr None ps \<and>
     ls_length l = u32 (length ps)"

lemma ptr_simps [simp]:
  "first_ptr [] nx = nx" "first_ptr (p # ps) nx = Some p"
  "last_ptr pv [] = pv"
  by (simp_all add: first_ptr_def last_ptr_def)

lemma last_ptr_Cons [simp]: "last_ptr pv (p # ps) = last_ptr (Some p) ps"
  by (simp add: last_ptr_def)

lemma ptr_append [simp]:
  "first_ptr (ps @ qs) nx = first_ptr ps (first_ptr qs nx)"
  "last_ptr pv (ps @ qs) = last_ptr (last_ptr pv ps) qs"
  by (cases ps; simp add: last_ptr_def)+

lemma dom_single_del: "dom m = {p} \<Longrightarrow> m(p := None) = Map.empty"
  by (auto simp: dom_def fun_eq_iff)

lemma chain_append [simp]:
  "chain m pv (ps @ qs) nx \<longleftrightarrow> chain m pv ps (first_ptr qs nx) \<and> chain m (last_ptr pv ps) qs nx"
  by (induction ps arbitrary: pv) auto

lemma chain_upd [simp]: "a \<notin> set ps \<Longrightarrow> chain (m(a := x)) pv ps nx = chain m pv ps nx"
  by (induction ps arbitrary: pv) auto

lemma node_vals_simps [simp]:
  "node_vals m [] = []" "node_vals m (p # ps) = nd_value (the (m p)) # node_vals m ps"
  "node_vals m (ps @ qs) = node_vals m ps @ node_vals m qs"
  by (simp_all add: node_vals_def)

lemma node_vals_upd [simp]: "a \<notin> set ps \<Longrightarrow> node_vals (m(a := x)) ps = node_vals m ps"
  by (auto simp: node_vals_def)

lemma u32_dec_Suc: "u32_dec (u32 (Suc n)) = u32 n"
proof -
  have "(Suc n mod 2 ^ 32 + (2 ^ 32 - 1)) mod 2 ^ 32 = (n + 2 ^ 32) mod 2 ^ 32"
    by (simp add: mod_simps)
  then show ?thesis by (simp add: u32_dec_def u32_def)
qed

lemma u32_inc: "u32 (Suc (u32 n)) = u32 (Suc n)"
  by (simp add: u32_def mod_simps)

lemma list_rep_empty: "list_rep dyn_list_empty []"
  by (simp add: list_rep_def dyn_list_empty_def u32_def)

lemma push_front_rep:
  assumes rep: "list_rep l ps" and a: "a \<notin> set ps"
  shows "\<exists>l'. list_push_front v a l = Some l' \<and> list_rep l' (a # ps) \<and>
     node_vals (ls_nodes l') (a # ps) = v # node_vals (ls_nodes l) ps"
proof (cases ps)
  case Nil
  with rep show ?thesis
    by (auto simp: list_rep_def list_push_front_def u32_def)
next
  case (Cons h qs)
  with rep obtain w where
    h: "ls_nodes l h = Some \<lparr>nd_prev = None, nd_next = first_ptr qs None, nd_value = w\<rparr>"
    by (auto simp: list_rep_def)
  from rep a Cons h show ?thesis
    by (auto simp: list_rep_def list_push_front_def set_prev_def u32_inc)
qed

lemma push_back_rep:
  assumes rep: "list_rep l ps" and a: "a \<notin> set ps"
  shows "\<exists>l'. list_push_back v a l = Some l' \<and> list_rep l' (ps @ [a]) \<and>
     node_vals (ls_nodes l') (ps @ [a]) = node_vals (ls_nodes l) ps @ [v]"
proof (cases ps rule: rev_cases)
  case Nil
  with rep show ?thesis
    by (auto simp: list_rep_def list_push_back_def u32_def)
next
  case (snoc qs h)
  with rep obtain w where
    h: "ls_nodes l h = Some \<lparr>nd_prev = last_ptr None qs, nd_next = None, nd_value = w\<rparr>"
    by (auto simp: list_rep_def)
  from rep a snoc h show ?thesis
    by (auto simp: list_rep_def list_push_back_def set_next_def u32_inc)
qed

lemma pop_front_rep:
  assumes rep: "list_rep l (p # ps)"
  shows "\<exists>l'. list_pop_front l = Some (nd_value (the (ls_nodes l p)), l') \<and> list_rep l' ps \<and>
     node_vals (ls_nodes l') ps = node_vals (ls_nodes l) ps"
proof (cases ps)
  case Nil
  with rep show ?thesis
    by (auto simp: list_rep_def list_pop_front_def dom_single_del u32_dec_Suc)
next
  case (Cons h qs)
  with rep obtain w where
    h: "ls_nodes l h = Some \<lparr>nd_prev = Some p, nd_next = first_ptr qs None, nd_value = w\<rparr>"
    by (auto simp: list_rep_def)
  from rep Cons h show ?thesis
    by (auto simp: list_rep_def list_pop_front_def set_prev_def u32_dec_Suc)
qed

lemma pop_back_rep:
  assumes rep: "list_rep l (ps @ [p])"
  shows "\<exists>l'. list_pop_back l = Some (nd_value (the (ls_nodes l p)), l') \<and> list_rep l' ps \<and>
     node_vals (ls_nodes l') ps = node_vals (ls_nodes l) ps"
proof (cases ps rule: rev_cases)
  case Nil
  with rep show ?thesis
    by (auto simp: list_rep_def list_pop_back_def dom_single_del u32_dec_Suc)
next
  case (snoc qs h)
  with rep obtain w where
    h: "ls_nodes l h = Some \<lparr>nd_prev = last_ptr None qs, nd_next = Some p, nd_value = w\<rparr>"
    by (auto simp: list_rep_def)
  from rep snoc h show ?thesis
    by (auto simp: list_rep_def list_pop_back_def set_next_def u32_dec_Suc)
qed

lemma walk_rep: "chain m pv ps None \<Longrightarrow> list_walk m (first_ptr ps None) = Some (node_vals m ps)"
  by (induction ps arbitrary: pv) (auto simp: list_walk.simps)

lemma free_walk_rep:
  "chain m pv ps None \<Longrightarrow> distinct ps \<Longrightarrow>
     list_free_walk m (first_ptr ps None) = Some (node_vals m ps, m |` (- set ps))"
proof (induction ps arbitrary: pv m)
  case Nil
  then show ?case by (simp add: list_free_walk.simps)
next
  case (Cons p ps)
  then have "chain (m(p := None)) (Some p) ps None" and "distinct ps" by simp_all
  then have "list_free_walk (m(p := None)) (first_ptr ps None) =
      Some (node_vals (m(p := None)) ps, (m(p := None)) |` (- set ps))"
    by (rule Cons.IH)
  moreover have "(m(p := None)) |` (- set ps) = m |` (- set (p # ps))"
    by (auto simp: restrict_map_def fun_eq_iff)
  ultimately show ?case using Cons.prems by (auto simp: list_free_walk.simps [of m])
qed

section \<open>Refinement to a double-ended queue\<close>

datatype list_op =
    PushFront jsval | PushBack jsval | PopFront | PopBack | PeekFront | PeekBack | GetLength | ToArray

text \<open>One method call on an open list; \<open>malloc\<close> picks an address for the given store.\<close>

fun list_step :: "(node_store \<Rightarrow> nat option) \<Rightarrow> list_op \<Rightarrow> dyn_list dyn_resource \<Rightarrow>
    (jsval res \<times> dyn_list dyn_resource) option" where
  "list_step malloc (PushFront v) r =
     dyn_list_push_front r v (Option.bind (res_native r) (\<lambda>l. malloc (ls_nodes l)))"
| "list_step malloc (PushBack v) r =
     dyn_list_push_back r v (Option.bind (res_native r) (\<lambda>l. malloc (ls_nodes l)))"
| "list_step malloc PopFront r = dyn_list_pop_front r"
| "list_step malloc PopBack r = dyn_list_pop_back r"
| "list_step malloc PeekFront r = dyn_list_front r"
| "list_step malloc PeekBack r = dyn_list_back r"
| "list_step malloc GetLength r = dyn_list_length r"
| "list_step malloc ToArray r = dyn_list_to_array r"

fun deque_spec :: "list_op \<Rightarrow> jsval list \<Rightarrow> jsval res \<times> jsval list" where
  "deque_spec (PushFront v) vs = (Inr (js_nat (u32 (length vs + 1))), v # vs)"
| "deque_spec (PushBack v) vs = (Inr (js_nat (u32 (length vs + 1))), vs @ [v])"
| "deque_spec PopFront vs = (case vs of [] \<Rightarrow> (Inr JUndef, []) | v # vs' \<Rightarrow> (Inr v, vs'))"
| "deque_spec PopBack vs = (if vs = [] then (Inr JUndef, []) else (Inr (last vs), butlast vs))"
| "deque_spec PeekFront vs = (Inr (case vs of [] \<Rightarrow> JUndef | v # _ \<Rightarrow> v), vs)"
| "deque_spec PeekBack vs = (Inr (if vs = [] then JUndef else last vs), vs)"
| "deque_spec GetLength vs = (Inr (js_nat (u32 (length vs))), vs)"
| "deque_spec ToArray vs = (Inr (JArr vs), vs)"

definition list_holds :: "dyn_list dyn_resource \<Rightarrow> jsval list \<Rightarrow> bool" where
  "list_holds r vs \<longleftrightarrow>
     (\<exists>l ps. r = open_res l \<and> list_rep l ps \<and> node_vals (ls_nodes l) ps = vs)"

text \<open>What \<open>malloc\<close> promises: an address that is not allocated.\<close>

definition malloc_ok :: "(node_store \<Rightarrow> nat option) \<Rightarrow> bool" where
  "malloc_ok malloc \<longleftrightarrow> (\<forall>m. finite (dom m) \<longrightarrow> (\<exists>a. malloc m = Some a \<and> a \<notin> dom m))"

lemma with_native_mem_open [simp]:
  "with_native_mem (open_res h) f = map_option (\<lambda>(out, h'). (out, open_res h')) (f h)"
  by (auto simp: with_native_mem_def dyn_res_native_def res_live_def intro!: map_option_cong)

lemma list_rep_lengths:
  assumes "list_rep l ps"
  shows "ls_length l = u32 (length (node_vals (ls_nodes l) ps))"
  using assms by (simp add: list_rep_def node_vals_def)

lemma malloc_okE:
  assumes "malloc_ok malloc" and "list_rep l ps"
  obtains a where "malloc (ls_nodes l) = Some a" "a \<notin> set ps"
  using assms unfolding malloc_ok_def list_rep_def by (metis List.finite_set)

lemma list_step_push:
  assumes "malloc_ok malloc" and rep: "list_rep l ps" and vals: "node_vals (ls_nodes l) ps = vs"
  shows "\<exists>r'. list_step malloc (PushFront v) (open_res l) = Some (Inr (js_nat (u32 (length vs + 1))), r') \<and>
      list_holds r' (v # vs)"
    and "\<exists>r'. list_step malloc (PushBack v) (open_res l) = Some (Inr (js_nat (u32 (length vs + 1))), r') \<and>
      list_holds r' (vs @ [v])"
proof -
  obtain a where a: "malloc (ls_nodes l) = Some a" "a \<notin> set ps"
    using malloc_okE [OF assms(1,2)] .
  obtain l' where "list_push_front v a l = Some l'" and "list_rep l' (a # ps)"
    and "node_vals (ls_nodes l') (a # ps) = v # vs"
    using push_front_rep [OF rep a(2), of v] vals by auto
  then show "\<exists>r'. list_step malloc (PushFront v) (open_res l) =
      Some (Inr (js_nat (u32 (length vs + 1))), r') \<and> list_holds r' (v # vs)"
    using a list_rep_lengths [of l' "a # ps"]
    by (auto simp: dyn_list_push_front_def list_push_def list_holds_def simp del: node_vals_simps)
  obtain l'' where "list_push_back v a l = Some l''" and "list_rep l'' (ps @ [a])"
    and "node_vals (ls_nodes l'') (ps @ [a]) = vs @ [v]"
    using push_back_rep [OF rep a(2), of v] vals by auto
  then show "\<exists>r'. list_step malloc (PushBack v) (open_res l) =
      Some (Inr (js_nat (u32 (length vs + 1))), r') \<and> list_holds r' (vs @ [v])"
    using a list_rep_lengths [of l'' "ps @ [a]"]
    by (auto simp: dyn_list_push_back_def list_push_def list_holds_def simp del: node_vals_simps)
qed

lemma list_step_pop:
  assumes rep: "list_rep l ps" and vals: "node_vals (ls_nodes l) ps = vs"
  shows "\<exists>r'. list_step malloc PopFront (open_res l) = Some (fst (deque_spec PopFront vs), r') \<and>
      list_holds r' (snd (deque_spec PopFront vs))"
    and "\<exists>r'. list_step malloc PopBack (open_res l) = Some (fst (deque_spec PopBack vs), r') \<and>
      list_holds r' (snd (deque_spec PopBack vs))"
proof -
  show "\<exists>r'. list_step malloc PopFront (open_res l) = Some (fst (deque_spec PopFront vs), r') \<and>
      list_holds r' (snd (deque_spec PopFront vs))"
  proof (cases ps)
    case Nil
    with rep vals show ?thesis
      by (auto simp: dyn_list_pop_front_def list_pop_front_def list_rep_def list_holds_def)
  next
    case (Cons p qs)
    with pop_front_rep [of l p qs] rep vals show ?thesis
      by (auto simp: dyn_list_pop_front_def list_holds_def)
  qed
  show "\<exists>r'. list_step malloc PopBack (open_res l) = Some (fst (deque_spec PopBack vs), r') \<and>
      list_holds r' (snd (deque_spec PopBack vs))"
  proof (cases ps rule: rev_cases)
    case Nil
    with rep vals show ?thesis
      by (auto simp: dyn_list_pop_back_def list_pop_back_def list_rep_def list_holds_def)
  next
    case (snoc qs p)
    with pop_back_rep [of l qs p] rep vals show ?thesis
      by (auto simp: dyn_list_pop_back_def list_holds_def butlast_append)
  qed
qed

lemma list_step_read:
  assumes rep: "list_rep l ps" and vals: "node_vals (ls_nodes l) ps = vs"
    and op: "op \<in> {PeekFront, PeekBack, GetLength, ToArray}"
  shows "list_step malloc op (open_res l) = Some (fst (deque_spec op vs), open_res l) \<and>
     snd (deque_spec op vs) = vs"
proof -
  have "list_peek (ls_head l) l = Some (case vs of [] \<Rightarrow> JUndef | v # _ \<Rightarrow> v)"
    using rep vals by (cases ps) (auto simp: list_peek_def list_rep_def)
  moreover have "list_peek (ls_tail l) l = Some (if vs = [] then JUndef else last vs)"
    using rep vals by (cases ps rule: rev_cases) (auto simp: list_peek_def list_rep_def)
  moreover have "list_walk (ls_nodes l) (ls_head l) = Some vs"
    using walk_rep [of "ls_nodes l" None ps] rep vals by (simp add: list_rep_def)
  moreover have "ls_length l = u32 (length vs)"
    using list_rep_lengths [OF rep] vals by simp
  ultimately show ?thesis
    using op
    by (auto simp: dyn_list_front_def dyn_list_back_def dyn_list_length_def dyn_list_to_array_def)
qed

lemma list_sim:
  assumes "malloc_ok malloc" and "list_holds r vs"
  shows "\<exists>r'. list_step malloc op r = Some (fst (deque_spec op vs), r') \<and>
     list_holds r' (snd (deque_spec op vs))"
proof -
  from assms(2) obtain l ps where r: "r = open_res l" and rep: "list_rep l ps"
    and vals: "node_vals (ls_nodes l) ps = vs"
    by (auto simp: list_holds_def)
  note read = list_step_read [OF rep vals, of op malloc]
  show ?thesis
  proof (cases op)
    case (PushFront v)
    with list_step_push(1) [OF assms(1) rep vals, of v] show ?thesis unfolding r by simp
  next
    case (PushBack v)
    with list_step_push(2) [OF assms(1) rep vals, of v] show ?thesis unfolding r by simp
  next
    case PopFront
    with list_step_pop(1) [OF rep vals, of malloc] show ?thesis unfolding r by simp
  next
    case PopBack
    with list_step_pop(2) [OF rep vals, of malloc] show ?thesis unfolding r by simp
  qed (use read assms(2) in \<open>auto simp: r\<close>)
qed

text \<open>A concrete allocator: the least address that is not allocated.\<close>

definition malloc_least :: "node_store \<Rightarrow> nat option" where
  "malloc_least m = Some (LEAST a. a \<notin> dom m)"

lemma malloc_least_ok: "malloc_ok malloc_least"
proof -
  have "(LEAST a. a \<notin> dom m) \<notin> dom m" if "finite (dom m)" for m :: node_store
    using ex_new_if_finite [OF infinite_UNIV_nat that] by (rule LeastI_ex)
  then show ?thesis by (simp add: malloc_ok_def malloc_least_def)
qed

interpretation dlist: simulation "list_step malloc_least" deque_spec list_holds
  by unfold_locales (rule list_sim [OF malloc_least_ok])

lemma list_simulation: "malloc_ok malloc \<Longrightarrow> simulation (list_step malloc) deque_spec list_holds"
  by unfold_locales (rule list_sim)

section \<open>Properties\<close>



text \<open>
  Disposal of a list walks it to the end, never touches a freed node, releases every
  stored value exactly once and leaves no node allocated.
\<close>

theorem list_free_releases_all:
  assumes "list_holds (open_res l) vs"
  shows "dyn_list_free l = Some (vs, Map.empty)"
proof -
  from assms obtain ps where rep: "list_rep l ps" and vals: "node_vals (ls_nodes l) ps = vs"
    by (auto simp: list_holds_def)
  then have "ls_nodes l |` (- set ps) = Map.empty"
    by (auto simp: list_rep_def restrict_map_def fun_eq_iff)
  with rep vals free_walk_rep [of "ls_nodes l" None ps] show ?thesis
    by (simp add: dyn_list_free_def list_rep_def)
qed

theorem list_free_releases_all_witness:
  "dyn_list_free \<lparr>ls_nodes = [3 \<mapsto> \<lparr>nd_prev = None, nd_next = Some 8, nd_value = JNull\<rparr>,
       8 \<mapsto> \<lparr>nd_prev = Some 3, nd_next = None, nd_value = JBool True\<rparr>],
     ls_head = Some 3, ls_tail = Some 8, ls_length = 2\<rparr> = Some ([JNull, JBool True], Map.empty)"
proof -
  let ?l = "\<lparr>ls_nodes = [3 \<mapsto> \<lparr>nd_prev = None, nd_next = Some 8, nd_value = JNull\<rparr>,
       8 \<mapsto> \<lparr>nd_prev = Some 3, nd_next = None, nd_value = JBool True\<rparr>],
     ls_head = Some 3, ls_tail = Some 8, ls_length = 2\<rparr>"
  have "list_rep ?l [3, 8]" by (auto simp: list_rep_def u32_def)
  moreover have "node_vals (ls_nodes ?l) [3, 8] = [JNull, JBool True]" by simp
  ultimately have "list_holds (open_res ?l) [JNull, JBool True]"
    unfolding list_holds_def by blast
  then show ?thesis by (rule list_free_releases_all)
qed

end
