(* ===== verification/Dyna_Heap.thy ===== *)
theory Dyna_Heap
  imports Dyna_Resource Dyna_Ring
begin

text \<open>
  The \<open>Heap\<close> class of \<^verbatim>\<open>src/src/dyna-container.c\<close>: a binary heap ordered by a JavaScript
  comparator that is stored in the heap and called back from \<open>push\<close> and \<open>pop\<close>.

  \<open>hp_items\<close> is the live prefix of the C array \<open>items\<close> (its length is the field \<open>count\<close>),
  \<open>hp_cap\<close> the allocated capacity. The comparator is a function of the JavaScript world and of
  the heap (which it may inspect with \<open>peek\<close> and \<open>size\<close>): it yields the next world, whether it
  closed the heap, and an exception or the number its result was coerced to. The heap can
  change under a comparator in no other way, since \<open>push\<close> and \<open>pop\<close> reject a busy heap.
\<close>

section \<open>Data\<close>

record dyn_heap =
  hp_items :: "jsval list"
  hp_cap :: nat
  hp_busy :: bool

type_synonym 'w comparator =
  "'w \<Rightarrow> dyn_heap \<Rightarrow> jsval \<Rightarrow> jsval \<Rightarrow> 'w \<times> bool \<times> jsnum res"

datatype sift_result =
    SiftOk dyn_heap
  | SiftErr jserr dyn_heap
  | SiftClosed dyn_heap \<comment> \<open>the heap at the moment it was closed\<close>

section \<open>Operations\<close>

partial_function (option) heap_grow :: "nat \<Rightarrow> nat \<Rightarrow> nat option" where
  "heap_grow ncap need =
     (if ncap < need then
        (if ncap > UINT32_MAX div 2 \<or> ncap > UINT32_MAX div sizeof_JSValue div 2
         then Some need else heap_grow (u32 (ncap * 2)) need)
      else Some ncap)"

text \<open>\<open>ok\<close>: whether \<open>realloc\<close> succeeds. The result is the return code and the heap.\<close>

definition dyn_heap_reserve :: "dyn_heap \<Rightarrow> nat \<Rightarrow> bool \<Rightarrow> (int \<times> dyn_heap) option" where
  "dyn_heap_reserve h need ok =
     (if need \<le> hp_cap h then Some (0, h)
      else if need > UINT32_MAX div sizeof_JSValue then Some (-1, h)
      else map_option (\<lambda>ncap. if ok then (0, h\<lparr>hp_cap := ncap\<rparr>) else (-1, h))
             (heap_grow (if hp_cap h \<noteq> 0 then hp_cap h else 8) need))"

definition dyn_heap_ctor :: "bool \<Rightarrow> bool \<Rightarrow> dyn_heap dyn_resource res" where
  "dyn_heap_ctor is_function ok =
     (if \<not> is_function then Inl (TypeError ''Heap(comparator) requires a comparator function'')
      else if \<not> ok then Inl OutOfMemory
      else Inr (open_res \<lparr>hp_items = [], hp_cap = 0, hp_busy = False\<rparr>))"

text \<open>The sign of the comparator's number; NaN and zero mean equal.\<close>

fun cmp_sign :: "jsnum \<Rightarrow> int" where
  "cmp_sign JsNaN = 0"
| "cmp_sign JsPInf = 1"
| "cmp_sign JsNInf = -1"
| "cmp_sign (JsFin d) = (if d < 0 then -1 else if d > 0 then 1 else 0)"

text \<open>One comparator call followed by the re-resolution of the heap and the error check.\<close>

definition dyn_heap_cmp_call ::
    "'w comparator \<Rightarrow> 'w \<Rightarrow> dyn_heap \<Rightarrow> nat \<Rightarrow> nat \<Rightarrow> 'w \<times> (sift_result + int)" where
  "dyn_heap_cmp_call cmp w h i j =
     (case cmp w h (hp_items h ! i) (hp_items h ! j) of (w', closes, out) \<Rightarrow>
        (w', if closes then Inl (SiftClosed h)
             else (case out of
                     Inl e \<Rightarrow> Inl (SiftErr e (h\<lparr>hp_busy := False\<rparr>))
                   | Inr d \<Rightarrow> Inr (cmp_sign d))))"

definition heap_swap :: "nat \<Rightarrow> nat \<Rightarrow> dyn_heap \<Rightarrow> dyn_heap" where
  "heap_swap i j h =
     h\<lparr>hp_items := (hp_items h)[i := hp_items h ! j, j := hp_items h ! i]\<rparr>"

fun heap_sift_up_loop :: "'w comparator \<Rightarrow> 'w \<Rightarrow> dyn_heap \<Rightarrow> nat \<Rightarrow> 'w \<times> sift_result" where
  "heap_sift_up_loop cmp w h idx =
     (if idx > 0 then
        (let parent = (idx - 1) div 2
         in case dyn_heap_cmp_call cmp w h idx parent of
              (w', Inl s) \<Rightarrow> (w', s)
            | (w', Inr c) \<Rightarrow>
                if c \<ge> 0 then (w', SiftOk (h\<lparr>hp_busy := False\<rparr>))
                else heap_sift_up_loop cmp w' (heap_swap idx parent h) parent)
      else (w, SiftOk (h\<lparr>hp_busy := False\<rparr>)))"

definition dyn_heap_sift_up :: "'w comparator \<Rightarrow> 'w \<Rightarrow> dyn_heap \<Rightarrow> nat \<Rightarrow> 'w \<times> sift_result" where
  "dyn_heap_sift_up cmp w h idx = heap_sift_up_loop cmp w (h\<lparr>hp_busy := True\<rparr>) idx"

text \<open>The smaller of \<open>items[cand]\<close> and \<open>items[smallest]\<close>, when the candidate child exists.\<close>

definition heap_pick ::
    "'w comparator \<Rightarrow> 'w \<Rightarrow> dyn_heap \<Rightarrow> nat \<Rightarrow> nat \<Rightarrow> 'w \<times> (sift_result + nat)" where
  "heap_pick cmp w h cand smallest =
     (if cand < length (hp_items h) then
        (case dyn_heap_cmp_call cmp w h cand smallest of
           (w', Inl s) \<Rightarrow> (w', Inl s)
         | (w', Inr c) \<Rightarrow> (w', Inr (if c < 0 then cand else smallest)))
      else (w, Inr smallest))"

lemma heap_pick_Inr:
  "heap_pick cmp w h cand smallest = (w', Inr k) \<Longrightarrow>
     k = smallest \<or> k = cand \<and> cand < length (hp_items h)"
  by (auto simp: heap_pick_def split: prod.splits sum.splits if_splits)

function heap_sift_down_loop :: "'w comparator \<Rightarrow> 'w \<Rightarrow> dyn_heap \<Rightarrow> nat \<Rightarrow> 'w \<times> sift_result" where
  "heap_sift_down_loop cmp w h idx =
     (case heap_pick cmp w h (2 * idx + 1) idx of
        (w1, Inl s) \<Rightarrow> (w1, s)
      | (w1, Inr s1) \<Rightarrow>
          (case heap_pick cmp w1 h (2 * idx + 2) s1 of
             (w2, Inl s) \<Rightarrow> (w2, s)
           | (w2, Inr s2) \<Rightarrow>
               if s2 = idx then (w2, SiftOk (h\<lparr>hp_busy := False\<rparr>))
               else heap_sift_down_loop cmp w2 (heap_swap idx s2 h) s2))"
  by pat_completeness auto
termination
  by (relation "measure (\<lambda>(_, _, h, idx). length (hp_items h) - idx)")
    (auto simp: heap_swap_def dest!: heap_pick_Inr sym [of "(_, _)"])

declare heap_sift_up_loop.simps [simp del] heap_sift_down_loop.simps [simp del]

definition dyn_heap_sift_down :: "'w comparator \<Rightarrow> 'w \<Rightarrow> dyn_heap \<Rightarrow> nat \<Rightarrow> 'w \<times> sift_result" where
  "dyn_heap_sift_down cmp w h idx = heap_sift_down_loop cmp w (h\<lparr>hp_busy := True\<rparr>) idx"

text \<open>Disposal: the values it releases (the comparator reference apart).\<close>

definition dyn_heap_free :: "dyn_heap \<Rightarrow> jsval list" where
  "dyn_heap_free h = hp_items h"

text \<open>
  A method's outcome: the world, the result, the receiver and the values released. A closed
  heap has been disposed of, and the re-resolution has thrown the closed-resource error.
\<close>

type_synonym 'w heap_out = "'w \<times> jsval res \<times> dyn_heap dyn_resource \<times> jsval list"

definition heap_finish ::
    "'w \<Rightarrow> (dyn_heap \<Rightarrow> jsval) \<Rightarrow> jsval list \<Rightarrow> dyn_heap dyn_resource \<Rightarrow> sift_result \<Rightarrow> 'w heap_out" where
  "heap_finish w result on_fail r s =
     (case s of
        SiftOk h \<Rightarrow> (w, Inr (result h), r\<lparr>res_native := Some h\<rparr>, [])
      | SiftErr e h \<Rightarrow> (w, Inl e, r\<lparr>res_native := Some h\<rparr>, on_fail)
      | SiftClosed h \<Rightarrow>
          (w, Inl (TypeError ''use of a closed native resource''), fst (dyn_res_release r),
           dyn_heap_free h @ on_fail))"

definition heap_resolve ::
    "(jserr \<Rightarrow> 'a) \<Rightarrow> dyn_heap dyn_resource \<Rightarrow> (dyn_heap \<Rightarrow> 'a) \<Rightarrow> 'a" where
  "heap_resolve on_err r f =
     (case dyn_res_native r of
        Inl e \<Rightarrow> on_err e
      | Inr None \<Rightarrow> on_err (TypeError ''null native'')
      | Inr (Some h) \<Rightarrow> f h)"

abbreviation busy_error :: jserr where
  "busy_error \<equiv> TypeError ''Heap: comparator must not push/pop its own heap''"

text \<open>\<open>None\<close>: the growth loop of \<open>dyn_heap_reserve\<close> does not end (\<open>heap_push_returns\<close> excludes it).\<close>

definition dyn_heap_push ::
    "'w comparator \<Rightarrow> 'w \<Rightarrow> dyn_heap dyn_resource \<Rightarrow> jsval \<Rightarrow> bool \<Rightarrow> 'w heap_out option" where
  "dyn_heap_push cmp w r v ok =
     heap_resolve (\<lambda>e. Some (w, Inl e, r, [])) r (\<lambda>h.
       if hp_busy h then Some (w, Inl busy_error, r, [])
       else (case dyn_heap_reserve h (u32 (length (hp_items h) + 1)) ok of
               None \<Rightarrow> None
             | Some (rc, h') \<Rightarrow>
                 if rc \<noteq> 0 then Some (w, Inl OutOfMemory, r, [])
                 else
                   (let idx = length (hp_items h');
                        (w', s) = dyn_heap_sift_up cmp w (h'\<lparr>hp_items := hp_items h' @ [v]\<rparr>) idx
                    in Some (heap_finish w' (\<lambda>h''. js_nat (length (hp_items h''))) [] r s))))"

definition dyn_heap_pop :: "'w comparator \<Rightarrow> 'w \<Rightarrow> dyn_heap dyn_resource \<Rightarrow> 'w heap_out" where
  "dyn_heap_pop cmp w r =
     heap_resolve (\<lambda>e. (w, Inl e, r, [])) r (\<lambda>h.
       if hp_busy h then (w, Inl busy_error, r, [])
       else if hp_items h = [] then (w, Inr JUndef, r, [])
       else
         (let top = hp_items h ! 0; rest = butlast (hp_items h)
          in if rest = [] then (w, Inr top, r\<lparr>res_native := Some (h\<lparr>hp_items := []\<rparr>)\<rparr>, [])
             else
               (let (w', s) = dyn_heap_sift_down cmp w
                      (h\<lparr>hp_items := rest[0 := last (hp_items h)]\<rparr>) 0
                in heap_finish w' (\<lambda>_. top) [top] r s)))"

definition dyn_heap_peek :: "dyn_heap dyn_resource \<Rightarrow> jsval res \<times> dyn_heap dyn_resource" where
  "dyn_heap_peek r =
     with_native r (\<lambda>h. (Inr (if hp_items h = [] then JUndef else hp_items h ! 0), h))"

definition dyn_heap_size :: "dyn_heap dyn_resource \<Rightarrow> jsval res \<times> dyn_heap dyn_resource" where
  "dyn_heap_size r = with_native r (\<lambda>h. (Inr (js_nat (length (hp_items h))), h))"

section \<open>Capacity\<close>

definition heap_inv :: "dyn_heap \<Rightarrow> bool" where
  "heap_inv h \<longleftrightarrow> length (hp_items h) \<le> hp_cap h \<and> hp_cap h \<le> UINT32_MAX div sizeof_JSValue"

lemma heap_grow_bounds:
  assumes "0 < ncap" "need \<le> UINT32_MAX div sizeof_JSValue" "ncap \<le> UINT32_MAX div sizeof_JSValue"
  shows "\<exists>c. heap_grow ncap need = Some c \<and> need \<le> c \<and> ncap \<le> max c need
              \<and> c \<le> UINT32_MAX div sizeof_JSValue"
  using assms
proof (induction "need - ncap" arbitrary: ncap rule: less_induct)
  case less
  show ?case
  proof (cases "ncap < need \<and> \<not> (ncap > UINT32_MAX div 2 \<or> ncap > UINT32_MAX div sizeof_JSValue div 2)")
    case True
    then have u: "u32 (ncap * 2) = ncap * 2" and b: "ncap * 2 \<le> UINT32_MAX div sizeof_JSValue"
      by (auto simp: UINT32_MAX_def sizeof_JSValue_def u32_def)
    have "need - ncap * 2 < need - ncap" using True less.prems(1) by linarith
    from less.hyps [OF this _ less.prems(2) b] less.prems(1) True u show ?thesis
      by (subst heap_grow.simps) auto
  next
    case False
    then show ?thesis using less.prems by (subst heap_grow.simps) auto
  qed
qed

lemma heap_reserve_cases:
  assumes "heap_inv h"
  obtains c where "dyn_heap_reserve h (u32 (length (hp_items h) + 1)) ok = Some (0, h\<lparr>hp_cap := c\<rparr>)"
      "length (hp_items h) < c" "c \<le> UINT32_MAX div sizeof_JSValue"
  | "dyn_heap_reserve h (u32 (length (hp_items h) + 1)) ok = Some (-1, h)"
      "\<not> ok \<or> length (hp_items h) = UINT32_MAX div sizeof_JSValue"
proof -
  let ?n = "length (hp_items h) + 1"
  have u: "u32 ?n = ?n"
    using assms by (auto simp: heap_inv_def UINT32_MAX_def sizeof_JSValue_def u32_def)
  have inv: "length (hp_items h) \<le> hp_cap h" "hp_cap h \<le> UINT32_MAX div sizeof_JSValue"
    using assms by (auto simp: heap_inv_def)
  show thesis
  proof (cases "?n \<le> hp_cap h")
    case True
    have "h = h\<lparr>hp_cap := hp_cap h\<rparr>" by simp
    then show thesis using that(1) [of "hp_cap h"] True u inv by (simp add: dyn_heap_reserve_def)
  next
    case False
    show thesis
    proof (cases "?n \<le> UINT32_MAX div sizeof_JSValue")
      case True
      let ?c = "if hp_cap h \<noteq> 0 then hp_cap h else 8"
      have "0 < ?c" "?c \<le> UINT32_MAX div sizeof_JSValue"
        using inv by (auto simp: UINT32_MAX_def sizeof_JSValue_def)
      with heap_grow_bounds [of ?c ?n] True obtain c where
        "heap_grow ?c ?n = Some c" "?n \<le> c" "c \<le> UINT32_MAX div sizeof_JSValue" by blast
      then show thesis using that False True u
        by (cases ok) (auto simp: dyn_heap_reserve_def)
    next
      case big: False
      then have "length (hp_items h) = UINT32_MAX div sizeof_JSValue" using inv by linarith
      with big show thesis using that(2) False u by (simp add: dyn_heap_reserve_def)
    qed
  qed
qed

text \<open>Child indices of a heap within its capacity fit 32 bits: the C arithmetic does not wrap.\<close>

lemma heap_child_no_wrap:
  "heap_inv h \<Longrightarrow> idx < length (hp_items h) \<Longrightarrow> u32 (2 * idx + 2) = 2 * idx + 2"
  by (auto simp: heap_inv_def UINT32_MAX_def sizeof_JSValue_def u32_def)

section \<open>Conservation under an arbitrary comparator\<close>

primrec sift_heap :: "sift_result \<Rightarrow> dyn_heap" where
  "sift_heap (SiftOk h) = h"
| "sift_heap (SiftErr e h) = h"
| "sift_heap (SiftClosed h) = h"

text \<open>What a sift may do to a heap: permute its items and clear the busy flag.\<close>

definition sift_ok :: "dyn_heap \<Rightarrow> sift_result \<Rightarrow> bool" where
  "sift_ok h s \<longleftrightarrow>
     mset (hp_items (sift_heap s)) = mset (hp_items h) \<and> hp_cap (sift_heap s) = hp_cap h \<and>
     (s = SiftClosed (sift_heap s) \<or> \<not> hp_busy (sift_heap s))"

lemma sift_ok_refl [simp]:
  "sift_ok h (SiftOk (h\<lparr>hp_busy := False\<rparr>))"
  "sift_ok h (SiftErr e (h\<lparr>hp_busy := False\<rparr>))"
  "sift_ok h (SiftClosed h)"
  by (auto simp: sift_ok_def)

lemma heap_swap_simps [simp]:
  "length (hp_items (heap_swap i j h)) = length (hp_items h)"
  "hp_cap (heap_swap i j h) = hp_cap h"
  by (auto simp: heap_swap_def)

lemma mset_heap_swap:
  "i < length (hp_items h) \<Longrightarrow> j < length (hp_items h) \<Longrightarrow>
     mset (hp_items (heap_swap i j h)) = mset (hp_items h)"
  by (simp add: heap_swap_def mset_swap)

lemma sift_ok_swap:
  "sift_ok (heap_swap i j h) s \<Longrightarrow> i < length (hp_items h) \<Longrightarrow> j < length (hp_items h) \<Longrightarrow>
     sift_ok h s"
  by (auto simp: sift_ok_def mset_heap_swap)

lemma cmp_call_Inl:
  "dyn_heap_cmp_call cmp w h i j = (w', Inl s) \<Longrightarrow> sift_ok h s"
  by (auto simp: dyn_heap_cmp_call_def split: prod.splits if_splits sum.splits)

lemma heap_pick_Inl:
  "heap_pick cmp w h c k = (w', Inl s) \<Longrightarrow> sift_ok h s"
  by (auto simp: heap_pick_def dest: cmp_call_Inl split: prod.splits if_splits sum.splits)

lemma sift_up_ok:
  "idx < length (hp_items h) \<Longrightarrow> heap_sift_up_loop cmp w h idx = (w', s) \<Longrightarrow> sift_ok h s"
proof (induction cmp w h idx rule: heap_sift_up_loop.induct)
  case (1 cmp w h idx)
  show ?case
  proof (cases "idx > 0")
    case True
    let ?p = "(idx - 1) div 2"
    obtain w1 r where c: "dyn_heap_cmp_call cmp w h idx ?p = (w1, r)" by fastforce
    show ?thesis
    proof (cases r)
      case (Inl s')
      then show ?thesis using 1 True c by (auto simp: heap_sift_up_loop.simps Let_def dest: cmp_call_Inl)
    next
      case (Inr k)
      have p: "?p < length (hp_items h)" using 1(2) by linarith
      show ?thesis
      proof (cases "k \<ge> 0")
        case True
        then show ?thesis using 1(3) \<open>idx > 0\<close> c Inr
          by (subst (asm) heap_sift_up_loop.simps) (auto simp: Let_def)
      next
        case False
        have "heap_sift_up_loop cmp w1 (heap_swap idx ?p h) ?p = (w', s)"
          using 1(3) \<open>idx > 0\<close> c Inr False by (subst (asm) heap_sift_up_loop.simps) (auto simp: Let_def)
        with 1(1) [OF True refl c [symmetric] Inr False] p have "sift_ok (heap_swap idx ?p h) s"
          by simp
        then show ?thesis using sift_ok_swap 1(2) p by blast
      qed
    qed
  next
    case False
    then show ?thesis using 1(3) by (subst (asm) heap_sift_up_loop.simps) auto
  qed
qed

lemma sift_down_ok:
  "idx < length (hp_items h) \<Longrightarrow> heap_sift_down_loop cmp w h idx = (w', s) \<Longrightarrow> sift_ok h s"
proof (induction cmp w h idx rule: heap_sift_down_loop.induct)
  case (1 cmp w h idx)
  obtain w1 r1 where c1: "heap_pick cmp w h (2 * idx + 1) idx = (w1, r1)" by fastforce
  show ?case
  proof (cases r1)
    case (Inl s')
    then show ?thesis using 1(3) c1 by (auto simp: heap_sift_down_loop.simps dest: heap_pick_Inl)
  next
    case r1: (Inr s1)
    obtain w2 r2 where c2: "heap_pick cmp w1 h (2 * idx + 2) s1 = (w2, r2)" by fastforce
    show ?thesis
    proof (cases r2)
      case (Inl s')
      then show ?thesis using 1(3) c1 c2 r1 by (auto simp: heap_sift_down_loop.simps dest: heap_pick_Inl)
    next
      case r2: (Inr s2)
      show ?thesis
      proof (cases "s2 = idx")
        case True
        then show ?thesis using 1(3) c1 c2 r1 r2
          by (subst (asm) heap_sift_down_loop.simps) auto
      next
        case False
        have b: "s2 < length (hp_items h)"
          using heap_pick_Inr [OF c1 [unfolded r1]] heap_pick_Inr [OF c2 [unfolded r2]] 1(2) by auto
        have "heap_sift_down_loop cmp w2 (heap_swap idx s2 h) s2 = (w', s)"
          using 1(3) c1 c2 r1 r2 False by (subst (asm) heap_sift_down_loop.simps) auto
        with 1(1) [OF c1 [symmetric] r1 c2 [symmetric] r2 False] b
        have "sift_ok (heap_swap idx s2 h) s" by simp
        then show ?thesis using sift_ok_swap 1(2) b by blast
      qed
    qed
  qed
qed

section \<open>Heap order under a consistent comparator\<close>

definition heap_parent :: "nat \<Rightarrow> nat" where
  "heap_parent j = (j - 1) div 2"

definition heap_ordered :: "(jsval \<Rightarrow> jsval \<Rightarrow> bool) \<Rightarrow> jsval list \<Rightarrow> bool" where
  "heap_ordered le xs \<longleftrightarrow> (\<forall>j. 0 < j \<and> j < length xs \<longrightarrow> le (xs ! heap_parent j) (xs ! j))"

text \<open>
  A comparator consistent with \<open>le\<close> on the values \<open>S\<close>: it returns, leaves the heap open, and
  its sign is negative exactly for strictly smaller first arguments.
\<close>

definition consistent_cmp :: "(jsval \<Rightarrow> jsval \<Rightarrow> bool) \<Rightarrow> jsval set \<Rightarrow> 'w comparator \<Rightarrow> bool" where
  "consistent_cmp le S cmp \<longleftrightarrow>
     (\<forall>w h a b. a \<in> S \<longrightarrow> b \<in> S \<longrightarrow>
        (\<exists>w' d. cmp w h a b = (w', False, Inr d) \<and> (cmp_sign d < 0 \<longleftrightarrow> \<not> le b a)))"

lemma heap_parent_less: "0 < j \<Longrightarrow> heap_parent j < j"
  by (simp add: heap_parent_def)

lemma heap_parent_iff: "0 < j \<Longrightarrow> heap_parent j = i \<longleftrightarrow> j = 2 * i + 1 \<or> j = 2 * i + 2"
  by (auto simp: heap_parent_def)

locale value_order =
  fixes le :: "jsval \<Rightarrow> jsval \<Rightarrow> bool" and S :: "jsval set"
  assumes le_total: "x \<in> S \<Longrightarrow> y \<in> S \<Longrightarrow> le x y \<or> le y x"
    and le_trans: "x \<in> S \<Longrightarrow> y \<in> S \<Longrightarrow> z \<in> S \<Longrightarrow> le x y \<Longrightarrow> le y z \<Longrightarrow> le x z"
begin

lemma le_refl: "x \<in> S \<Longrightarrow> le x x"
  using le_total by blast

lemma ordered_root:
  assumes "heap_ordered le xs" "set xs \<subseteq> S" "j < length xs"
  shows "le (xs ! 0) (xs ! j)"
  using assms(3)
proof (induction j rule: less_induct)
  case (less j)
  have inS: "k < length xs \<Longrightarrow> xs ! k \<in> S" for k using assms(2) nth_mem by blast
  show ?case
  proof (cases "j = 0")
    case True
    then show ?thesis using inS less.prems le_refl by simp
  next
    case False
    then have p: "heap_parent j < j" by (simp add: heap_parent_less)
    have "le (xs ! 0) (xs ! heap_parent j)" using less.IH [OF p] p less.prems by simp
    moreover have "le (xs ! heap_parent j) (xs ! j)"
      using assms(1) False less.prems by (simp add: heap_ordered_def)
    ultimately show ?thesis using le_trans inS p less.prems by (meson less_trans neq0_conv False)
  qed
qed

text \<open>Ordered except between \<open>i\<close> and its parent, or except between \<open>i\<close> and its children.\<close>

definition up_inv :: "jsval list \<Rightarrow> nat \<Rightarrow> bool" where
  "up_inv xs i \<longleftrightarrow>
     (\<forall>j. 0 < j \<and> j < length xs \<and> j \<noteq> i \<longrightarrow> le (xs ! heap_parent j) (xs ! j)) \<and>
     (\<forall>j. 0 < j \<and> j < length xs \<and> heap_parent j = i \<and> 0 < i \<longrightarrow> le (xs ! heap_parent i) (xs ! j))"

definition down_inv :: "jsval list \<Rightarrow> nat \<Rightarrow> bool" where
  "down_inv xs i \<longleftrightarrow>
     (\<forall>j. 0 < j \<and> j < length xs \<and> heap_parent j \<noteq> i \<longrightarrow> le (xs ! heap_parent j) (xs ! j)) \<and>
     (\<forall>j. 0 < j \<and> j < length xs \<and> heap_parent j = i \<and> 0 < i \<longrightarrow> le (xs ! heap_parent i) (xs ! j))"

lemma up_step:
  assumes inv: "up_inv xs i" and S: "set xs \<subseteq> S" and i: "0 < i" "i < length xs"
    and lt: "\<not> le (xs ! heap_parent i) (xs ! i)"
  shows "up_inv (xs[i := xs ! heap_parent i, heap_parent i := xs ! i]) (heap_parent i)"
proof -
  define p where "p = heap_parent i"
  define ys where "ys = xs[i := xs ! p, p := xs ! i]"
  have p: "p < i" "p < length xs" using i heap_parent_less [of i] by (auto simp: p_def)
  have inS: "k < length xs \<Longrightarrow> xs ! k \<in> S" for k using S nth_mem by blast
  have ip: "le (xs ! i) (xs ! p)" using lt le_total inS i p unfolding p_def by blast
  have ys: "k < length xs \<Longrightarrow> ys ! k = (if k = p then xs ! i else if k = i then xs ! p else xs ! k)" for k
    using p i by (auto simp: ys_def nth_list_update)
  have edge: "0 < j \<Longrightarrow> j < length xs \<Longrightarrow> j \<noteq> i \<Longrightarrow> le (xs ! heap_parent j) (xs ! j)" for j
    using inv by (simp add: up_inv_def)
  have gedge: "0 < j \<Longrightarrow> j < length xs \<Longrightarrow> heap_parent j = i \<Longrightarrow> le (xs ! p) (xs ! j)" for j
    using inv i by (simp add: up_inv_def p_def)
  have "le (ys ! heap_parent j) (ys ! j)" if j: "0 < j" "j < length xs" "j \<noteq> p" for j
  proof -
    have pj: "heap_parent j < j" "heap_parent j < length xs" using j heap_parent_less [of j] by auto
    consider "j = i" | "j \<noteq> i" "heap_parent j = i" | "j \<noteq> i" "heap_parent j = p" "p \<noteq> i"
      | "j \<noteq> i" "heap_parent j \<noteq> i" "heap_parent j \<noteq> p" using p by blast
    then show ?thesis
    proof cases
      case 1
      then show ?thesis using ys p i ip by (simp add: p_def [symmetric])
    next
      case 2
      then show ?thesis using ys pj j gedge by auto
    next
      case 3
      then have "le (xs ! p) (xs ! j)" using edge [of j] j by simp
      then show ?thesis using 3 ys pj j ip le_trans inS i p by (metis (no_types))
    next
      case 4
      then show ?thesis using ys pj j edge by auto
    qed
  qed
  moreover have "le (ys ! heap_parent p) (ys ! j)"
    if j: "0 < j" "j < length xs" "heap_parent j = p" "0 < p" for j
  proof -
    have pp: "heap_parent p < p" using j heap_parent_less by blast
    have e: "le (xs ! heap_parent p) (xs ! p)" using edge [of p] p j by simp
    have yp: "ys ! heap_parent p = xs ! heap_parent p" using ys pp p by auto
    have jp: "p < j" using heap_parent_less j by blast
    show ?thesis
    proof (cases "j = i")
      case True
      then show ?thesis using e yp ys j p by auto
    next
      case False
      then have "le (xs ! p) (xs ! j)" using edge [of j] j by simp
      then have "le (xs ! heap_parent p) (xs ! j)" using e le_trans inS pp p j
        by (meson less_trans)
      then show ?thesis using yp ys j False jp by auto
    qed
  qed
  ultimately show ?thesis unfolding up_inv_def p_def [symmetric] ys_def [symmetric]
    by (auto simp: ys_def)
qed

lemma up_done_root: "up_inv xs 0 \<Longrightarrow> heap_ordered le xs"
  by (auto simp: up_inv_def heap_ordered_def)

lemma up_done:
  "up_inv xs i \<Longrightarrow> le (xs ! heap_parent i) (xs ! i) \<Longrightarrow> heap_ordered le xs"
  by (auto simp: up_inv_def heap_ordered_def)

lemma down_done:
  "down_inv xs i \<Longrightarrow> (\<forall>j. 0 < j \<longrightarrow> j < length xs \<longrightarrow> heap_parent j = i \<longrightarrow> le (xs ! i) (xs ! j)) \<Longrightarrow>
     heap_ordered le xs"
  unfolding down_inv_def heap_ordered_def by metis

lemma down_step:
  assumes inv: "down_inv xs i" and S: "set xs \<subseteq> S" and i: "i < length xs"
    and c: "0 < c" "c < length xs" "heap_parent c = i" and lt: "le (xs ! c) (xs ! i)"
    and least: "\<forall>j. 0 < j \<longrightarrow> j < length xs \<longrightarrow> heap_parent j = i \<longrightarrow> le (xs ! c) (xs ! j)"
  shows "down_inv (xs[i := xs ! c, c := xs ! i]) c"
proof -
  define ys where "ys = xs[i := xs ! c, c := xs ! i]"
  have ic: "i < c" using c heap_parent_less by blast
  have ys: "k < length xs \<Longrightarrow> ys ! k = (if k = c then xs ! i else if k = i then xs ! c else xs ! k)" for k
    using ic i c by (auto simp: ys_def nth_list_update)
  have edge: "0 < j \<Longrightarrow> j < length xs \<Longrightarrow> heap_parent j \<noteq> i \<Longrightarrow> le (xs ! heap_parent j) (xs ! j)" for j
    using inv by (simp add: down_inv_def)
  have gedge: "0 < i \<Longrightarrow> 0 < j \<Longrightarrow> j < length xs \<Longrightarrow> heap_parent j = i \<Longrightarrow> le (xs ! heap_parent i) (xs ! j)" for j
    using inv by (simp add: down_inv_def)
  have "le (ys ! heap_parent j) (ys ! j)" if j: "0 < j" "j < length xs" "heap_parent j \<noteq> c" for j
  proof -
    have pj: "heap_parent j < j" "heap_parent j < length xs" using j heap_parent_less [of j] by auto
    consider "j = c" | "j \<noteq> c" "heap_parent j = i" | "j = i" "0 < i"
      | "j \<noteq> c" "j \<noteq> i" "heap_parent j \<noteq> i" using j by blast
    then show ?thesis
    proof cases
      case 1
      then show ?thesis using ys ic i c lt by simp
    next
      case 2
      then have "j \<noteq> i" using pj by auto
      then show ?thesis using 2 ys pj j least ic by auto
    next
      case 3
      then show ?thesis using ys pj j gedge [of c] c ic by auto
    next
      case 4
      then show ?thesis using ys pj j edge by auto
    qed
  qed
  moreover have "le (ys ! heap_parent c) (ys ! j)"
    if j: "0 < j" "j < length xs" "heap_parent j = c" "0 < c" for j
  proof -
    have "c < j" using heap_parent_less j by blast
    moreover have "le (xs ! c) (xs ! j)" using edge [of j] j ic by simp
    ultimately show ?thesis using ys j c i ic by auto
  qed
  ultimately show ?thesis unfolding down_inv_def ys_def [symmetric] by (auto simp: ys_def)
qed

lemma cmp_call_consistent:
  assumes "consistent_cmp le S cmp" "hp_items h ! i \<in> S" "hp_items h ! j \<in> S"
  obtains w' k where "dyn_heap_cmp_call cmp w h i j = (w', Inr k)"
    "k < 0 \<longleftrightarrow> \<not> le (hp_items h ! j) (hp_items h ! i)"
proof -
  from assms obtain w' d where "cmp w h (hp_items h ! i) (hp_items h ! j) = (w', False, Inr d)"
    "cmp_sign d < 0 \<longleftrightarrow> \<not> le (hp_items h ! j) (hp_items h ! i)"
    unfolding consistent_cmp_def by blast
  then show thesis using that by (simp add: dyn_heap_cmp_call_def)
qed

lemma sift_up_ordered:
  assumes "consistent_cmp le S cmp" "up_inv (hp_items h) i" "set (hp_items h) \<subseteq> S"
    "i < length (hp_items h)"
  shows "\<exists>w' h'. heap_sift_up_loop cmp w h i = (w', SiftOk h') \<and> heap_ordered le (hp_items h')"
  using assms(2-)
proof (induction i arbitrary: w h rule: less_induct)
  case (less i)
  show ?case
  proof (cases "i = 0")
    case True
    then show ?thesis using up_done_root less.prems by (subst heap_sift_up_loop.simps) simp
  next
    case False
    let ?p = "(i - 1) div 2"
    have p: "?p = heap_parent i" "heap_parent i < i"
      using False heap_parent_less by (auto simp: heap_parent_def)
    have inS: "hp_items h ! i \<in> S" "hp_items h ! ?p \<in> S"
      using less.prems p by (auto intro!: subsetD [OF less.prems(2)])
    from cmp_call_consistent [OF assms(1) inS] obtain w' k where
      c: "dyn_heap_cmp_call cmp w h i ?p = (w', Inr k)"
        "k < 0 \<longleftrightarrow> \<not> le (hp_items h ! ?p) (hp_items h ! i)" by blast
    show ?thesis
    proof (cases "k < 0")
      case True
      then have "up_inv (hp_items (heap_swap i ?p h)) (heap_parent i)"
        using up_step [OF less.prems(1,2) _ less.prems(3)] False c p by (simp add: heap_swap_def)
      moreover have "set (hp_items (heap_swap i ?p h)) \<subseteq> S"
        using mset_heap_swap [of i h ?p] less.prems p mset_eq_setD by (metis less_trans)
      ultimately have "\<exists>w'' h'. heap_sift_up_loop cmp w' (heap_swap i ?p h) ?p = (w'', SiftOk h')
          \<and> heap_ordered le (hp_items h')"
        using less.IH [OF p(2)] p less.prems by simp
      then show ?thesis using c True False by (subst heap_sift_up_loop.simps) (simp add: Let_def)
    next
      case ge: False
      then show ?thesis using c False up_done [OF less.prems(1)] p
        by (subst heap_sift_up_loop.simps) (simp add: Let_def)
    qed
  qed
qed

lemma heap_pick_consistent:
  assumes "consistent_cmp le S cmp" "set (hp_items h) \<subseteq> S" "m < length (hp_items h)"
  obtains w' k where "heap_pick cmp w h c m = (w', Inr k)" "k = m \<or> k = c \<and> c < length (hp_items h)"
    "le (hp_items h ! k) (hp_items h ! m)"
    "c < length (hp_items h) \<longrightarrow> le (hp_items h ! k) (hp_items h ! c)"
proof (cases "c < length (hp_items h)")
  case True
  have inS: "hp_items h ! c \<in> S" "hp_items h ! m \<in> S" using True assms nth_mem by blast+
  from cmp_call_consistent [OF assms(1) inS] obtain w' k where
    c: "dyn_heap_cmp_call cmp w h c m = (w', Inr k)"
       "k < 0 \<longleftrightarrow> \<not> le (hp_items h ! m) (hp_items h ! c)" by blast
  have "le (hp_items h ! c) (hp_items h ! m) \<or> le (hp_items h ! m) (hp_items h ! c)"
    using le_total inS by blast
  then show thesis using that [of w' "if k < 0 then c else m"] c True inS le_refl
    by (auto simp: heap_pick_def)
next
  case False
  then show thesis using that [of w m] le_refl assms by (auto simp: heap_pick_def subset_eq)
qed

lemma sift_down_ordered:
  assumes "consistent_cmp le S cmp" "down_inv (hp_items h) i" "set (hp_items h) \<subseteq> S"
    "i < length (hp_items h)"
  shows "\<exists>w' h'. heap_sift_down_loop cmp w h i = (w', SiftOk h') \<and> heap_ordered le (hp_items h')"
  using assms(2-)
proof (induction "length (hp_items h) - i" arbitrary: w h i rule: less_induct)
  case less
  let ?x = "\<lambda>k. hp_items h ! k" and ?n = "length (hp_items h)"
  obtain w1 s1 where p1: "heap_pick cmp w h (2 * i + 1) i = (w1, Inr s1)"
      "s1 = i \<or> s1 = 2 * i + 1 \<and> 2 * i + 1 < ?n" "le (?x s1) (?x i)"
      "2 * i + 1 < ?n \<longrightarrow> le (?x s1) (?x (2 * i + 1))"
    using heap_pick_consistent [OF assms(1) less.prems(2,3)] .
  have s1: "s1 < ?n" using p1(2) less.prems(3) by auto
  obtain w2 s2 where p2: "heap_pick cmp w1 h (2 * i + 2) s1 = (w2, Inr s2)"
      "s2 = s1 \<or> s2 = 2 * i + 2 \<and> 2 * i + 2 < ?n" "le (?x s2) (?x s1)"
      "2 * i + 2 < ?n \<longrightarrow> le (?x s2) (?x (2 * i + 2))"
    using heap_pick_consistent [OF assms(1) less.prems(2) s1] .
  have s2: "s2 < ?n" using p2(2) s1 by auto
  have inS: "k < ?n \<Longrightarrow> ?x k \<in> S" for k using less.prems(2) nth_mem by blast
  have tr: "k < ?n \<Longrightarrow> le (?x s1) (?x k) \<Longrightarrow> le (?x s2) (?x k)" for k
    using le_trans [OF inS inS inS p2(3)] s1 s2 by blast
  have least: "\<forall>j. 0 < j \<longrightarrow> j < ?n \<longrightarrow> heap_parent j = i \<longrightarrow> le (?x s2) (?x j)"
    using p1(4) p2(4) tr heap_parent_iff by auto
  show ?case
  proof (cases "s2 = i")
    case True
    then have "heap_ordered le (hp_items h)" using down_done [OF less.prems(1)] least by simp
    then show ?thesis using p1(1) p2(1) True by (subst heap_sift_down_loop.simps) simp
  next
    case False
    have c: "0 < s2" "heap_parent s2 = i" "i < s2"
      using False p1(2) p2(2) by (auto simp: heap_parent_def)
    have "le (?x s2) (?x i)" using tr p1(3) less.prems(3) by blast
    from down_step [OF less.prems(1,2,3) c(1) s2 c(2) this least]
    have "down_inv (hp_items (heap_swap i s2 h)) s2" by (simp add: heap_swap_def)
    moreover have "set (hp_items (heap_swap i s2 h)) \<subseteq> S"
      using mset_heap_swap [of i h s2] less.prems s2 mset_eq_setD by metis
    ultimately have "\<exists>w' h'. heap_sift_down_loop cmp w2 (heap_swap i s2 h) s2 = (w', SiftOk h')
        \<and> heap_ordered le (hp_items h')"
      using less.hyps [of "heap_swap i s2 h" s2] c s2 by simp
    then show ?thesis using p1(1) p2(1) False by (subst heap_sift_down_loop.simps) simp
  qed
qed

end

section \<open>Methods\<close>

lemmas heap_method_defs =
  heap_resolve_def dyn_res_native_def res_live_def heap_finish_def dyn_heap_free_def dyn_res_release_def

lemma sift_heap_finish:
  assumes "sift_ok h s"
  shows "\<exists>out r' freed. heap_finish w f fl (open_res h0) s = (w, out, r', freed) \<and>
    (case res_native r' of
       Some h' \<Rightarrow> \<not> res_closed r' \<and> mset (hp_items h') = mset (hp_items h) \<and> hp_cap h' = hp_cap h \<and>
         \<not> hp_busy h' \<and> (out = Inr (f h') \<and> freed = [] \<or> (\<exists>e. out = Inl e) \<and> freed = fl)
     | None \<Rightarrow> res_closed r' \<and> out = Inl (TypeError ''use of a closed native resource'') \<and>
         mset freed = mset (hp_items h) + mset fl)"
  using assms by (cases s) (auto simp: heap_finish_def sift_ok_def dyn_res_release_def dyn_heap_free_def)

lemma heap_out_ex:
  "x = f (w', out, r', freed) \<Longrightarrow> P w' out r' freed \<Longrightarrow>
     \<exists>w' out r' freed. x = f (w', out, r', freed) \<and> P w' out r' freed"
  by blast

lemma heap_inv_mset:
  "heap_inv h \<Longrightarrow> mset (hp_items h') = mset (hp_items h) \<Longrightarrow> hp_cap h' = hp_cap h \<Longrightarrow> heap_inv h'"
  unfolding heap_inv_def by (metis size_mset)

lemma heap_push_outcome:
  assumes "heap_inv h" "\<not> hp_busy h"
  obtains (grown) w' s c where
      "dyn_heap_push cmp w (open_res h) v ok =
         Some (heap_finish w' (\<lambda>h''. js_nat (length (hp_items h''))) [] (open_res h) s)"
      "dyn_heap_sift_up cmp w (h\<lparr>hp_cap := c, hp_items := hp_items h @ [v]\<rparr>) (length (hp_items h)) = (w', s)"
      "sift_ok (h\<lparr>hp_cap := c, hp_items := hp_items h @ [v]\<rparr>) s"
      "heap_inv (h\<lparr>hp_cap := c, hp_items := hp_items h @ [v]\<rparr>)"
  | (oom) "dyn_heap_push cmp w (open_res h) v ok = Some (w, Inl OutOfMemory, open_res h, [])"
      "\<not> ok \<or> length (hp_items h) = UINT32_MAX div sizeof_JSValue"
  using assms(1)
proof (cases rule: heap_reserve_cases [where ok = ok])
  case (1 c)
  let ?h = "h\<lparr>hp_cap := c, hp_items := hp_items h @ [v]\<rparr>"
  obtain w' s where s: "dyn_heap_sift_up cmp w ?h (length (hp_items h)) = (w', s)" by fastforce
  then have "sift_ok (?h\<lparr>hp_busy := True\<rparr>) s"
    unfolding dyn_heap_sift_up_def by (intro sift_up_ok) auto
  then have "sift_ok ?h s" by (simp add: sift_ok_def)
  moreover have "heap_inv ?h" using 1 by (simp add: heap_inv_def)
  moreover have "dyn_heap_push cmp w (open_res h) v ok =
      Some (heap_finish w' (\<lambda>h''. js_nat (length (hp_items h''))) [] (open_res h) s)"
    using 1(1) assms(2) s by (simp add: dyn_heap_push_def heap_method_defs Let_def)
  ultimately show thesis using grown s by blast
next
  case 2
  then show thesis using oom assms(2) by (simp add: dyn_heap_push_def heap_method_defs)
qed

lemma hd_swap_last_mset:
  assumes "butlast xs \<noteq> []"
  shows "mset xs = add_mset (xs ! 0) (mset ((butlast xs)[0 := last xs]))"
proof -
  obtain y ys where b: "butlast xs = y # ys" using assms by (cases "butlast xs") auto
  moreover from b have "xs = (y # ys) @ [last xs]" using append_butlast_last_id [of xs] by fastforce
  then have "mset xs = add_mset y (add_mset (last xs) (mset ys))" "xs ! 0 = y"
    by (metis add_mset_add_single add_mset_commute mset.simps(2) mset_append mset_single_iff_right union_mset_add_mset_left, metis append_Cons nth_Cons_0)
  ultimately show ?thesis by simp
qed

lemma heap_pop_outcome:
  assumes "heap_inv h" "\<not> hp_busy h" "hp_items h \<noteq> []"
  obtains (single) x where "hp_items h = [x]"
      "dyn_heap_pop cmp w (open_res h) = (w, Inr x, open_res (h\<lparr>hp_items := []\<rparr>), [])"
  | (sift) w' s where "butlast (hp_items h) \<noteq> []"
      "dyn_heap_pop cmp w (open_res h) =
         heap_finish w' (\<lambda>_. hp_items h ! 0) [hp_items h ! 0] (open_res h) s"
      "dyn_heap_sift_down cmp w (h\<lparr>hp_items := (butlast (hp_items h))[0 := last (hp_items h)]\<rparr>) 0 = (w', s)"
      "sift_ok (h\<lparr>hp_items := (butlast (hp_items h))[0 := last (hp_items h)]\<rparr>) s"
proof (cases "butlast (hp_items h) = []")
  case True
  then obtain x where x: "hp_items h = [x]" using assms(3)
    by (metis append_butlast_last_id append_Nil)
  then show thesis using single [OF x] assms(2) by (simp add: dyn_heap_pop_def heap_method_defs)
next
  case False
  let ?h = "h\<lparr>hp_items := (butlast (hp_items h))[0 := last (hp_items h)]\<rparr>"
  obtain w' s where s: "dyn_heap_sift_down cmp w ?h 0 = (w', s)" by fastforce
  then have "sift_ok (?h\<lparr>hp_busy := True\<rparr>) s"
    unfolding dyn_heap_sift_down_def using False
    by (intro sift_down_ok) (simp_all del: length_butlast)
  then have "sift_ok ?h s" by (simp add: sift_ok_def)
  moreover have "dyn_heap_pop cmp w (open_res h) =
      heap_finish w' (\<lambda>_. hp_items h ! 0) [hp_items h ! 0] (open_res h) s"
    using assms(2,3) False s by (simp add: dyn_heap_pop_def heap_method_defs Let_def)
  ultimately show thesis using sift False s by blast
qed

text \<open>
  Whatever the comparator does (throw, return nonsense, close the heap), \<open>push\<close> returns
  and accounts for every element: the heap stays open, within its capacity and holding the old
  elements and the new one exactly once (or nothing changed because memory ran out), or it was
  closed, the call throws the closed-resource error, and exactly those elements were released.
\<close>

theorem heap_push_conserves:
  assumes "heap_inv h" "\<not> hp_busy h"
  shows "\<exists>w' out r' freed. dyn_heap_push cmp w (open_res h) v ok = Some (w', out, r', freed) \<and>
    (case res_native r' of
       Some h' \<Rightarrow> \<not> res_closed r' \<and> heap_inv h' \<and> \<not> hp_busy h' \<and> freed = [] \<and>
         (mset (hp_items h') = add_mset v (mset (hp_items h)) \<or> out = Inl OutOfMemory \<and> h' = h)
     | None \<Rightarrow> res_closed r' \<and> out = Inl (TypeError ''use of a closed native resource'') \<and>
         mset freed = add_mset v (mset (hp_items h)))"
  using assms
proof (cases rule: heap_push_outcome [where cmp = cmp and w = w and v = v and ok = ok])
  case (grown w' s c)
  obtain out r' freed where f: "dyn_heap_push cmp w (open_res h) v ok = Some (w', out, r', freed)" and
    r: "case res_native r' of
       Some h' \<Rightarrow> \<not> res_closed r' \<and> mset (hp_items h') = add_mset v (mset (hp_items h)) \<and> hp_cap h' = c \<and>
         \<not> hp_busy h' \<and> freed = []
     | None \<Rightarrow> res_closed r' \<and> out = Inl (TypeError ''use of a closed native resource'') \<and>
         mset freed = add_mset v (mset (hp_items h))"
    using sift_heap_finish [OF grown(3), of w' "\<lambda>h''. js_nat (length (hp_items h''))" "[]" h] grown(1)
    by (elim exE conjE) (rule that, simp, simp split: option.splits, blast)
  from f show ?thesis by (rule heap_out_ex) (use r heap_inv_mset [OF grown(4)] in \<open>cases "res_native r'", simp_all\<close>)
next
  case oom
  from oom(1) show ?thesis by (rule heap_out_ex) (use assms in simp)
qed

text \<open>A comparator that throws, and one that closes the heap.\<close>

definition throwing_cmp :: "unit comparator" where
  "throwing_cmp w h a b = (w, False, Inl UserThrow)"

definition closing_cmp :: "unit comparator" where
  "closing_cmp w h a b = (w, True, Inr (JsFin 0))"

theorem heap_push_conserves_witness:
  "\<exists>w' out r' freed.
    dyn_heap_push closing_cmp () (open_res \<lparr>hp_items = [JNull], hp_cap = 8, hp_busy = False\<rparr>)
      (JBool True) True = Some (w', out, r', freed) \<and>
    res_native r' = None \<and> mset freed = {#JBool True, JNull#}"
proof -
  let ?h = "\<lparr>hp_items = [JNull], hp_cap = 8, hp_busy = False\<rparr>"
  have inv: "heap_inv ?h" "\<not> hp_busy ?h" by (simp_all add: heap_inv_def UINT32_MAX_def sizeof_JSValue_def)
  have "dyn_heap_push closing_cmp () (open_res ?h) (JBool True) True =
     Some ((), Inl (TypeError ''use of a closed native resource''),
           \<lparr>res_native = None, res_dispose = True, res_closed = True\<rparr>, [JNull, JBool True])"
    by (simp add: dyn_heap_push_def heap_method_defs dyn_heap_reserve_def dyn_heap_sift_up_def
        heap_sift_up_loop.simps dyn_heap_cmp_call_def closing_cmp_def u32_def)
  with heap_push_conserves [OF inv, of closing_cmp "()" "JBool True" True] show ?thesis by auto
qed

text \<open>
  Whatever the comparator does, \<open>pop\<close> on a non-empty heap accounts for every element: the
  elements before are the returned one, those released and those still in the heap. Only the
  popped element can be released without closing the heap (when the comparator throws).
\<close>

theorem heap_pop_conserves:
  assumes "heap_inv h" "\<not> hp_busy h" "hp_items h \<noteq> []"
  shows "\<exists>w' out r' freed. dyn_heap_pop cmp w (open_res h) = (w', out, r', freed) \<and>
    (case res_native r' of
       Some h' \<Rightarrow> \<not> res_closed r' \<and> heap_inv h' \<and> \<not> hp_busy h' \<and>
         mset (hp_items h) = add_mset (hp_items h ! 0) (mset (hp_items h')) \<and>
         (case out of Inr x \<Rightarrow> x = hp_items h ! 0 \<and> freed = [] | Inl e \<Rightarrow> freed = [hp_items h ! 0])
     | None \<Rightarrow> res_closed r' \<and> out = Inl (TypeError ''use of a closed native resource'') \<and>
         mset freed = mset (hp_items h))"
  using assms
proof (cases rule: heap_pop_outcome [where cmp = cmp and w = w])
  case (single x)
  from single(2) show ?thesis by (rule heap_out_ex [where f = "\<lambda>x. x"])
      (use assms single(1) in \<open>simp add: heap_inv_def\<close>)
next
  case (sift w' s)
  let ?h = "h\<lparr>hp_items := (butlast (hp_items h))[0 := last (hp_items h)]\<rparr>"
  have inv: "heap_inv ?h" using assms(1) by (auto simp: heap_inv_def)
  have m: "mset (hp_items h) = add_mset (hp_items h ! 0) (mset (hp_items ?h))"
    using hd_swap_last_mset [OF sift(1)] by simp
  obtain out r' freed where f: "dyn_heap_pop cmp w (open_res h) = (w', out, r', freed)" and
    r: "case res_native r' of
       Some h' \<Rightarrow> \<not> res_closed r' \<and> mset (hp_items h') = mset (hp_items ?h) \<and> hp_cap h' = hp_cap ?h \<and>
         \<not> hp_busy h' \<and>
         (out = Inr (hp_items h ! 0) \<and> freed = [] \<or> (\<exists>e. out = Inl e) \<and> freed = [hp_items h ! 0])
     | None \<Rightarrow> res_closed r' \<and> out = Inl (TypeError ''use of a closed native resource'') \<and>
         mset freed = mset (hp_items h)"
    using sift_heap_finish [OF sift(4), of w' "\<lambda>_. hp_items h ! 0" "[hp_items h ! 0]" h] sift(2) m
    by (elim exE conjE) (rule that, simp, simp split: option.splits)
  show ?thesis
  proof (cases "res_native r'")
    case None
    from f show ?thesis by (rule heap_out_ex [where f = "\<lambda>x. x"]) (use r None in simp)
  next
    case (Some h')
    then have "heap_inv h'" using heap_inv_mset [OF inv] r by simp
    with f show ?thesis by (intro heap_out_ex [where f = "\<lambda>x. x"]) (use r m Some in auto)
  qed
qed

theorem heap_pop_conserves_witness:
  "\<exists>w' out r' freed.
    dyn_heap_pop throwing_cmp () (open_res \<lparr>hp_items = [JNull, JBool True, JBool False], hp_cap = 8, hp_busy = False\<rparr>)
      = (w', out, r', freed) \<and> freed = [JNull] \<and>
      (\<exists>h'. res_native r' = Some h' \<and> mset (hp_items h') = {#JBool True, JBool False#})"
proof -
  let ?h = "\<lparr>hp_items = [JNull, JBool True, JBool False], hp_cap = 8, hp_busy = False\<rparr>"
  have inv: "heap_inv ?h" "\<not> hp_busy ?h" "hp_items ?h \<noteq> []"
    by (simp_all add: heap_inv_def UINT32_MAX_def sizeof_JSValue_def)
  have "dyn_heap_pop throwing_cmp () (open_res ?h) =
     ((), Inl UserThrow, open_res (?h\<lparr>hp_items := [JBool False, JBool True]\<rparr>), [JNull])"
    by (simp add: dyn_heap_pop_def heap_method_defs dyn_heap_sift_down_def
        heap_sift_down_loop.simps heap_pick_def dyn_heap_cmp_call_def throwing_cmp_def)
  with heap_pop_conserves [OF inv, of throwing_cmp "()"] show ?thesis by auto
qed

section \<open>Re-entrancy\<close>

definition agree_on_busy :: "'w comparator \<Rightarrow> 'w comparator \<Rightarrow> bool" where
  "agree_on_busy cmp cmp' \<longleftrightarrow> (\<forall>w h a b. hp_busy h \<longrightarrow> cmp w h a b = cmp' w h a b)"

lemma heap_swap_busy [simp]: "hp_busy (heap_swap i j h) = hp_busy h"
  by (simp add: heap_swap_def)

lemma cmp_call_agree:
  "agree_on_busy cmp cmp' \<Longrightarrow> hp_busy h \<Longrightarrow> dyn_heap_cmp_call cmp w h i j = dyn_heap_cmp_call cmp' w h i j"
  by (simp add: agree_on_busy_def dyn_heap_cmp_call_def)

lemma sift_up_agree:
  "agree_on_busy cmp cmp' \<Longrightarrow> hp_busy h \<Longrightarrow> heap_sift_up_loop cmp w h i = heap_sift_up_loop cmp' w h i"
proof (induction i arbitrary: w h rule: less_induct)
  case (less i)
  have "0 < i \<Longrightarrow> (i - 1) div 2 < i" by linarith
  with less show ?case using cmp_call_agree [OF less.prems]
    by (subst (1 2) heap_sift_up_loop.simps) (auto simp: Let_def split: prod.splits sum.splits)
qed

lemma sift_down_agree:
  "agree_on_busy cmp cmp' \<Longrightarrow> hp_busy h \<Longrightarrow> heap_sift_down_loop cmp w h i = heap_sift_down_loop cmp' w h i"
proof (induction "length (hp_items h) - i" arbitrary: w h i rule: less_induct)
  case less
  have pick: "heap_pick cmp w h c m = heap_pick cmp' w h c m" for w c m
    using cmp_call_agree [OF less.prems] by (simp add: heap_pick_def)
  have IH: "heap_sift_down_loop cmp w2 (heap_swap i s2 h) s2 = heap_sift_down_loop cmp' w2 (heap_swap i s2 h) s2"
    if "heap_pick cmp' w h (2 * i + 1) i = (w1, Inr s1)" "heap_pick cmp' w1 h (2 * i + 2) s1 = (w2, Inr s2)"
      "s2 \<noteq> i" for w1 s1 w2 s2
  proof -
    have "i < s2" "s2 < length (hp_items h)" using heap_pick_Inr [OF that(1)] heap_pick_Inr [OF that(2)] that(3)
      by auto
    then show ?thesis using less.hyps less.prems by simp
  qed
  show ?case
    by (subst (1 2) heap_sift_down_loop.simps) (auto simp: pick IH split: prod.splits sum.splits)
qed

text \<open>
  C29. The comparator only ever runs while the heap is marked busy: what it would do on a heap
  that is not busy cannot influence \<open>push\<close> or \<open>pop\<close>. And on a busy heap both methods throw and
  change nothing, so a comparator cannot re-enter them on its own heap.
\<close>

theorem heap_reentrancy_blocked:
  assumes "agree_on_busy cmp cmp'"
  shows "dyn_heap_push cmp w r v ok = dyn_heap_push cmp' w r v ok \<and>
    dyn_heap_pop cmp w r = dyn_heap_pop cmp' w r \<and>
    (hp_busy h \<longrightarrow>
       dyn_heap_push cmp w (open_res h) v ok = Some (w, Inl busy_error, open_res h, []) \<and>
       dyn_heap_pop cmp w (open_res h) = (w, Inl busy_error, open_res h, []))"
proof -
  have "dyn_heap_sift_up cmp = dyn_heap_sift_up cmp'" "dyn_heap_sift_down cmp = dyn_heap_sift_down cmp'"
    using sift_up_agree [OF assms] sift_down_agree [OF assms]
    by (auto simp: dyn_heap_sift_up_def dyn_heap_sift_down_def fun_eq_iff)
  then have "dyn_heap_push cmp w r v ok = dyn_heap_push cmp' w r v ok"
    "dyn_heap_pop cmp w r = dyn_heap_pop cmp' w r"
    unfolding dyn_heap_push_def dyn_heap_pop_def by (simp_all only:)
  then show ?thesis by (simp add: dyn_heap_push_def dyn_heap_pop_def heap_method_defs)
qed

theorem heap_reentrancy_blocked_witness:
  "dyn_heap_push (\<lambda>w h a b. if hp_busy h then throwing_cmp w h a b else closing_cmp w h a b) ()
       (open_res \<lparr>hp_items = [JNull], hp_cap = 8, hp_busy = False\<rparr>) (JBool True) True
     = dyn_heap_push throwing_cmp ()
       (open_res \<lparr>hp_items = [JNull], hp_cap = 8, hp_busy = False\<rparr>) (JBool True) True"
  using heap_reentrancy_blocked
    [of "\<lambda>w h a b. if hp_busy h then throwing_cmp w h a b else closing_cmp w h a b" throwing_cmp "()"
      "open_res \<lparr>hp_items = [JNull], hp_cap = 8, hp_busy = False\<rparr>" "JBool True" True]
  by (simp add: agree_on_busy_def)

section \<open>A priority queue\<close>

text \<open>
  The contract of a min-priority queue whose insertion may fail, and what a client gets from
  it: draining a queue yields its elements in ascending order.
\<close>

primrec pq_drain :: "('q \<Rightarrow> (jsval \<times> 'q) option) \<Rightarrow> nat \<Rightarrow> 'q \<Rightarrow> jsval list" where
  "pq_drain pop 0 q = []"
| "pq_drain pop (Suc n) q = (case pop q of None \<Rightarrow> [] | Some (x, q') \<Rightarrow> x # pq_drain pop n q')"

fun pq_push_all :: "(jsval \<Rightarrow> 'q \<Rightarrow> 'q option) \<Rightarrow> jsval list \<Rightarrow> 'q \<Rightarrow> 'q option" where
  "pq_push_all push [] q = Some q"
| "pq_push_all push (x # xs) q = (case push x q of None \<Rightarrow> None | Some q' \<Rightarrow> pq_push_all push xs q')"

locale priority_queue =
  fixes le :: "jsval \<Rightarrow> jsval \<Rightarrow> bool" and S :: "jsval set"
    and push :: "jsval \<Rightarrow> 'q \<Rightarrow> 'q option" and pop :: "'q \<Rightarrow> (jsval \<times> 'q) option"
    and elems :: "'q \<Rightarrow> jsval multiset" and inv :: "'q \<Rightarrow> bool" and limit :: nat
  assumes push_ok: "inv q \<Longrightarrow> x \<in> S \<Longrightarrow> size (elems q) < limit \<Longrightarrow>
      \<exists>q'. push x q = Some q' \<and> inv q' \<and> elems q' = add_mset x (elems q)"
    and pop_empty: "inv q \<Longrightarrow> elems q = {#} \<Longrightarrow> pop q = None"
    and pop_min: "inv q \<Longrightarrow> elems q \<noteq> {#} \<Longrightarrow>
      \<exists>x q'. pop q = Some (x, q') \<and> inv q' \<and> elems q = add_mset x (elems q') \<and>
        (\<forall>y \<in># elems q. le x y)"
begin

lemma push_all_ok:
  "inv q \<Longrightarrow> set xs \<subseteq> S \<Longrightarrow> size (elems q) + length xs \<le> limit \<Longrightarrow>
     \<exists>q'. pq_push_all push xs q = Some q' \<and> inv q' \<and> elems q' = elems q + mset xs"
proof (induction xs arbitrary: q)
  case (Cons x xs)
  then obtain q1 where q1: "push x q = Some q1" "inv q1" "elems q1 = add_mset x (elems q)"
    using push_ok [of q x] by auto
  with Cons.IH [of q1] Cons.prems show ?case by auto
qed simp

lemma drain_sorted:
  "inv q \<Longrightarrow> size (elems q) \<le> n \<Longrightarrow>
     sorted_wrt le (pq_drain pop n q) \<and> mset (pq_drain pop n q) = elems q"
proof (induction n arbitrary: q)
  case (Suc n)
  show ?case
  proof (cases "elems q = {#}")
    case True
    then show ?thesis using pop_empty Suc.prems by simp
  next
    case False
    then obtain x q' where p: "pop q = Some (x, q')" "inv q'" "elems q = add_mset x (elems q')"
      "\<forall>y \<in># elems q. le x y" using pop_min Suc.prems by blast
    then have "sorted_wrt le (pq_drain pop n q')" "mset (pq_drain pop n q') = elems q'"
      using Suc.IH [of q'] Suc.prems by auto
    moreover from this(2) have "set (pq_drain pop n q') = set_mset (elems q')"
      by (metis set_mset_mset)
    ultimately show ?thesis using p by simp
  qed
qed simp

lemma push_drain_sorts:
  assumes "inv q" "elems q = {#}" "set xs \<subseteq> S" "length xs \<le> limit" "length xs \<le> n"
  shows "\<exists>q'. pq_push_all push xs q = Some q' \<and> sorted_wrt le (pq_drain pop n q') \<and>
    mset (pq_drain pop n q') = mset xs"
proof -
  obtain q' where q': "pq_push_all push xs q = Some q'" "inv q'" "elems q' = mset xs"
    using push_all_ok [OF assms(1,3)] assms(2,4) by auto
  with drain_sorted [of q' n] assms(5) show ?thesis by auto
qed

end

text \<open>The heap as such a queue: the world and the receiver, with allocation succeeding.\<close>

definition heap_q_push ::
    "'w comparator \<Rightarrow> jsval \<Rightarrow> 'w \<times> dyn_heap dyn_resource \<Rightarrow> ('w \<times> dyn_heap dyn_resource) option" where
  "heap_q_push cmp x q =
     (case dyn_heap_push cmp (fst q) (snd q) x True of
        Some (w', Inr _, r', _) \<Rightarrow> Some (w', r')
      | _ \<Rightarrow> None)"

definition heap_q_pop ::
    "'w comparator \<Rightarrow> 'w \<times> dyn_heap dyn_resource \<Rightarrow> (jsval \<times> 'w \<times> dyn_heap dyn_resource) option" where
  "heap_q_pop cmp q =
     (if dyn_heap_size (snd q) = (Inr (js_nat 0), snd q) then None
      else (case dyn_heap_pop cmp (fst q) (snd q) of
              (w', Inr x, r', _) \<Rightarrow> Some (x, w', r')
            | _ \<Rightarrow> None))"

definition heap_q_elems :: "'w \<times> dyn_heap dyn_resource \<Rightarrow> jsval multiset" where
  "heap_q_elems q = (case res_native (snd q) of None \<Rightarrow> {#} | Some h \<Rightarrow> mset (hp_items h))"

definition heap_q_inv :: "(jsval \<Rightarrow> jsval \<Rightarrow> bool) \<Rightarrow> jsval set \<Rightarrow> 'w \<times> dyn_heap dyn_resource \<Rightarrow> bool" where
  "heap_q_inv le S q =
     (\<exists>h. snd q = open_res h \<and> heap_inv h \<and> \<not> hp_busy h \<and> heap_ordered le (hp_items h) \<and>
          set (hp_items h) \<subseteq> S)"

locale ordered_heap = value_order +
  fixes cmp :: "'w comparator"
  assumes consistent: "consistent_cmp le S cmp"
begin

lemma up_inv_append:
  assumes "heap_ordered le xs"
  shows "up_inv (xs @ [v]) (length xs)"
proof -
  have "heap_parent j < length xs" "xs ! heap_parent j = (xs @ [v]) ! heap_parent j"
    if "0 < j" "j < length xs" for j
    using that heap_parent_less [of j] by (auto simp: nth_append)
  moreover have False if "0 < j" "j < Suc (length xs)" "heap_parent j = length xs" for j
    using that heap_parent_less [of j] by simp
  ultimately show ?thesis using assms by (auto simp: up_inv_def heap_ordered_def nth_append less_Suc_eq)
qed

lemma push_law:
  assumes "heap_q_inv le S q" "x \<in> S" "size (heap_q_elems q) < UINT32_MAX div sizeof_JSValue"
  shows "\<exists>q'. heap_q_push cmp x q = Some q' \<and> heap_q_inv le S q' \<and>
    heap_q_elems q' = add_mset x (heap_q_elems q)"
proof -
  obtain w h where q: "q = (w, open_res h)" "heap_inv h" "\<not> hp_busy h"
    "heap_ordered le (hp_items h)" "set (hp_items h) \<subseteq> S"
    using assms(1) by (cases q) (auto simp: heap_q_inv_def)
  show ?thesis using q(2,3)
  proof (cases rule: heap_push_outcome [where cmp = cmp and w = w and v = x and ok = True])
    case (grown w' s c)
    let ?h = "h\<lparr>hp_cap := c, hp_items := hp_items h @ [x]\<rparr>"
    have "\<exists>w' h'. dyn_heap_sift_up cmp w ?h (length (hp_items h)) = (w', SiftOk h') \<and> heap_ordered le (hp_items h')"
      unfolding dyn_heap_sift_up_def using q assms(2) up_inv_append
      by (intro sift_up_ordered consistent) auto
    then obtain h' where s: "s = SiftOk h'" "heap_ordered le (hp_items h')" using grown(2) by auto
    have m: "mset (hp_items h') = add_mset x (mset (hp_items h))" "heap_inv h'" "\<not> hp_busy h'"
      using grown(3) s heap_inv_mset [OF grown(4)] by (auto simp: sift_ok_def)
    then have "set (hp_items h') \<subseteq> S" using q assms(2) by (metis insert_subset set_mset_add_mset_insert set_mset_mset)
    then show ?thesis using grown(1) s m q
      by (auto simp: heap_q_push_def heap_q_inv_def heap_q_elems_def heap_finish_def)
  next
    case oom
    then show ?thesis using assms(3) q by (simp add: heap_q_elems_def)
  qed
qed

lemma down_inv_pop:
  assumes "heap_ordered le xs"
  shows "down_inv ((butlast xs)[0 := y]) 0"
proof -
  have "le ((butlast xs)[0 := y] ! heap_parent j) ((butlast xs)[0 := y] ! j)"
    if "0 < j" "j < length xs - 1" "heap_parent j \<noteq> 0" for j
  proof -
    have "heap_parent j < length xs - 1" using that heap_parent_less [of j] by simp
    then show ?thesis using that assms by (simp add: heap_ordered_def nth_butlast)
  qed
  then show ?thesis by (auto simp: down_inv_def)
qed

lemma pop_law:
  assumes "heap_q_inv le S q" "heap_q_elems q \<noteq> {#}"
  shows "\<exists>x q'. heap_q_pop cmp q = Some (x, q') \<and> heap_q_inv le S q' \<and>
    heap_q_elems q = add_mset x (heap_q_elems q') \<and> (\<forall>y \<in># heap_q_elems q. le x y)"
proof -
  obtain w h where q: "q = (w, open_res h)" "heap_inv h" "\<not> hp_busy h"
    "heap_ordered le (hp_items h)" "set (hp_items h) \<subseteq> S"
    using assms(1) by (cases q) (auto simp: heap_q_inv_def)
  have ne: "hp_items h \<noteq> []" using assms(2) q by (simp add: heap_q_elems_def)
  have e: "heap_q_elems q = mset (hp_items h)" using q(1) by (simp add: heap_q_elems_def)
  have root: "\<forall>y \<in># mset (hp_items h). le (hp_items h ! 0) y"
    using ordered_root [OF q(4,5)] by (auto simp: in_set_conv_nth)
  have size: "dyn_heap_size (open_res h) \<noteq> (Inr (js_nat 0), open_res h)"
    using ne by (simp add: dyn_heap_size_def with_native_def dyn_res_native_def res_live_def)
  show ?thesis using q(2,3) ne
  proof (cases rule: heap_pop_outcome [where cmp = cmp and w = w])
    case (single x)
    then have "heap_q_pop cmp q = Some (x, w, open_res (h\<lparr>hp_items := []\<rparr>))"
      using q(1) size by (simp add: heap_q_pop_def)
    then show ?thesis using root single e q
      by (auto simp: heap_q_inv_def heap_q_elems_def heap_inv_def heap_ordered_def)
  next
    case (sift w' s)
    let ?h = "h\<lparr>hp_items := (butlast (hp_items h))[0 := last (hp_items h)]\<rparr>"
    have m: "mset (hp_items h) = add_mset (hp_items h ! 0) (mset (hp_items ?h))"
      using hd_swap_last_mset [OF sift(1)] by simp
    then have S: "set (hp_items ?h) \<subseteq> S"
      using q(5) by (metis insert_subset set_mset_add_mset_insert set_mset_mset)
    have inv: "heap_inv ?h" using q(2) by (auto simp: heap_inv_def)
    have "\<exists>w' h'. dyn_heap_sift_down cmp w ?h 0 = (w', SiftOk h') \<and> heap_ordered le (hp_items h')"
      unfolding dyn_heap_sift_down_def using S sift(1) down_inv_pop [OF q(4)]
      by (intro sift_down_ordered consistent) (simp_all del: length_butlast)
    then obtain h' where s: "s = SiftOk h'" "heap_ordered le (hp_items h')" using sift(3) by auto
    have h': "mset (hp_items h') = mset (hp_items ?h)" "heap_inv h'" "\<not> hp_busy h'"
      using sift(4) s heap_inv_mset [OF inv] by (auto simp: sift_ok_def)
    have "set (hp_items h') \<subseteq> S" using S h'(1) by (metis set_mset_mset)
    moreover have "heap_q_pop cmp q = Some (hp_items h ! 0, w', open_res h')"
      using q(1) size sift(2) s by (simp add: heap_q_pop_def heap_finish_def)
    ultimately show ?thesis using e root m h' s
      by (auto simp: heap_q_inv_def heap_q_elems_def)
  qed
qed

end

sublocale ordered_heap \<subseteq> priority_queue le S "heap_q_push cmp" "heap_q_pop cmp" heap_q_elems
    "heap_q_inv le S" "UINT32_MAX div sizeof_JSValue"
proof
  show "heap_q_pop cmp q = None" if "heap_q_inv le S q" "heap_q_elems q = {#}" for q
    using that by (auto simp: heap_q_inv_def heap_q_elems_def heap_q_pop_def dyn_heap_size_def
        with_native_def dyn_res_native_def res_live_def)
qed (use push_law pop_law in auto)

context ordered_heap
begin

lemmas heap_push_drain = push_drain_sorts

end

text \<open>The comparator \<open>(a, b) => a - b\<close> on finite numbers.\<close>

fun num_sub :: "jsval \<Rightarrow> jsval \<Rightarrow> jsnum" where
  "num_sub (JNum (JsFin a)) (JNum (JsFin b)) = JsFin (a - b)"
| "num_sub _ _ = JsNaN"

definition num_cmp :: "unit comparator" where
  "num_cmp w h a b = (w, False, Inr (num_sub a b))"

fun num_le :: "jsval \<Rightarrow> jsval \<Rightarrow> bool" where
  "num_le (JNum (JsFin a)) (JNum (JsFin b)) \<longleftrightarrow> a \<le> b"
| "num_le _ _ \<longleftrightarrow> False"

definition finite_nums :: "jsval set" where
  "finite_nums = range (\<lambda>a. JNum (JsFin a))"

interpretation num: ordered_heap num_le finite_nums num_cmp
  by unfold_locales (auto simp: finite_nums_def consistent_cmp_def num_cmp_def split: if_splits)

text \<open>
  C4. With a comparator consistent with a total preorder on the values pushed, a fresh heap
  accepts up to its maximal capacity (memory permitting), and popping it empty returns exactly
  the pushed values in ascending order.
\<close>

theorem heap_sorts:
  assumes "value_order le S" "consistent_cmp le S cmp"
    and "dyn_heap_ctor True True = Inr r"
    and "set xs \<subseteq> S" "length xs \<le> UINT32_MAX div sizeof_JSValue"
  shows "\<exists>q. pq_push_all (heap_q_push cmp) xs (w, r) = Some q \<and>
    sorted_wrt le (pq_drain (heap_q_pop cmp) (length xs) q) \<and>
    mset (pq_drain (heap_q_pop cmp) (length xs) q) = mset xs"
proof -
  have "ordered_heap le S cmp" using assms(1,2) by (simp add: ordered_heap_def ordered_heap_axioms_def)
  moreover have "heap_q_inv le S (w, r)" "heap_q_elems (w, r) = {#}"
    using assms(3) by (auto simp: dyn_heap_ctor_def heap_q_inv_def heap_q_elems_def heap_inv_def heap_ordered_def)
  ultimately show ?thesis using assms(4,5)
    by (intro ordered_heap.heap_push_drain) auto
qed

theorem heap_sorts_witness:
  "\<exists>q. pq_push_all (heap_q_push num_cmp) (map js_int [3, 1, 2])
      ((), open_res \<lparr>hp_items = [], hp_cap = 0, hp_busy = False\<rparr>) = Some q \<and>
    sorted_wrt num_le (pq_drain (heap_q_pop num_cmp) (length (map js_int [3, 1, 2])) q) \<and>
    mset (pq_drain (heap_q_pop num_cmp) (length (map js_int [3, 1, 2])) q) = mset (map js_int [3, 1, 2])"
  by (rule heap_sorts [OF num.value_order_axioms num.consistent])
    (simp_all add: dyn_heap_ctor_def finite_nums_def UINT32_MAX_def sizeof_JSValue_def)

end
