(* ===== verification/Dyna_Vector.thy ===== *)
theory Dyna_Vector
  imports Dyna_Heap Dyna_List
begin

text \<open>
  The \<open>Vector\<close> class of \<^verbatim>\<open>src/src/dyna-structures.c\<close>. \<open>vc_items\<close> is the live prefix of the
  C array (its length is \<open>count\<close>), \<open>vc_cap\<close> the allocated capacity. Methods that drop a value
  report it: the result is paired with the list of released values.
\<close>

section \<open>Operations\<close>

record dyn_vector =
  vc_items :: "jsval list"
  vc_cap :: nat

text \<open>The growth loop is the one of \<open>dyn_heap_reserve\<close>, token for token: \<^const>\<open>heap_grow\<close>.\<close>

definition dyn_vector_reserve :: "dyn_vector \<Rightarrow> nat \<Rightarrow> bool \<Rightarrow> (int \<times> dyn_vector) option" where
  "dyn_vector_reserve v need ok =
     (if need \<le> vc_cap v then Some (0, v)
      else if need > UINT32_MAX div sizeof_JSValue then Some (-1, v)
      else map_option (\<lambda>ncap. if ok then (0, v\<lparr>vc_cap := ncap\<rparr>) else (-1, v))
             (heap_grow (if vc_cap v \<noteq> 0 then vc_cap v else 8) need))"

definition dyn_vector_free :: "dyn_vector \<Rightarrow> jsval list" where
  "dyn_vector_free v = vc_items v"

definition dyn_vector_ctor :: "bool \<Rightarrow> dyn_vector dyn_resource res" where
  "dyn_vector_ctor ok =
     (if \<not> ok then Inl OutOfMemory else Inr (open_res \<lparr>vc_items = [], vc_cap = 0\<rparr>))"

type_synonym 'h method_out = "(jsval \<times> jsval list) res \<times> 'h dyn_resource"

text \<open>\<open>None\<close>: the growth loop does not end.\<close>

definition dyn_vector_push :: "dyn_vector dyn_resource \<Rightarrow> jsval \<Rightarrow> bool \<Rightarrow> dyn_vector method_out option" where
  "dyn_vector_push r x ok =
     with_native_mem r (\<lambda>v.
       map_option (\<lambda>(rc, v').
           if rc \<noteq> 0 then (Inl OutOfMemory, v')
           else (let v'' = v'\<lparr>vc_items := vc_items v' @ [x]\<rparr>
                 in (Inr (js_nat (length (vc_items v'')), []), v'')))
         (dyn_vector_reserve v (u32 (length (vc_items v) + 1)) ok))"

text \<open>\<open>JS_ToUint32\<close> of the index runs first (and may run user code on the receiver).\<close>

definition to_uint32 :: "int \<Rightarrow> nat" where
  "to_uint32 k = nat (k mod 2 ^ 32)"

definition dyn_vector_get ::
    "dyn_vector coercion \<Rightarrow> dyn_vector dyn_resource \<Rightarrow> dyn_vector method_out" where
  "dyn_vector_get toint r =
     (case toint r of
        (Inl e, r') \<Rightarrow> (Inl e, r')
      | (Inr k, r') \<Rightarrow>
          with_native r' (\<lambda>v. let i = to_uint32 k in
            (Inr (if i \<ge> length (vc_items v) then JUndef else vc_items v ! i, []), v)))"

definition dyn_vector_set ::
    "dyn_vector coercion \<Rightarrow> dyn_vector dyn_resource \<Rightarrow> jsval \<Rightarrow> dyn_vector method_out" where
  "dyn_vector_set toint r x =
     (case toint r of
        (Inl e, r') \<Rightarrow> (Inl e, r')
      | (Inr k, r') \<Rightarrow>
          with_native r' (\<lambda>v. let i = to_uint32 k in
            if i \<ge> length (vc_items v) then (Inl (RangeError ''index out of range''), v)
            else (Inr (JUndef, [vc_items v ! i]), v\<lparr>vc_items := (vc_items v)[i := x]\<rparr>)))"

definition dyn_vector_pop :: "dyn_vector dyn_resource \<Rightarrow> dyn_vector method_out" where
  "dyn_vector_pop r =
     with_native r (\<lambda>v.
       if length (vc_items v) = 0 then (Inr (JUndef, []), v)
       else (Inr (vc_items v ! (length (vc_items v) - 1), []),
             v\<lparr>vc_items := take (length (vc_items v) - 1) (vc_items v)\<rparr>))"

definition dyn_vector_length :: "dyn_vector dyn_resource \<Rightarrow> dyn_vector method_out" where
  "dyn_vector_length r = with_native r (\<lambda>v. (Inr (js_nat (length (vc_items v)), []), v))"

section \<open>Refinement to a list\<close>

datatype vector_op = VPush jsval | VGet int | VSet int jsval | VPop | VLength

text \<open>Calls with allocation succeeding and index arguments that are already integers.\<close>

definition int_arg :: "int \<Rightarrow> 'h coercion" where
  "int_arg k r = (Inr k, r)"

fun vector_step :: "vector_op \<Rightarrow> dyn_vector dyn_resource \<Rightarrow> dyn_vector method_out option" where
  "vector_step (VPush x) r = dyn_vector_push r x True"
| "vector_step (VGet k) r = Some (dyn_vector_get (int_arg k) r)"
| "vector_step (VSet k x) r = Some (dyn_vector_set (int_arg k) r x)"
| "vector_step VPop r = Some (dyn_vector_pop r)"
| "vector_step VLength r = Some (dyn_vector_length r)"

fun vector_spec :: "vector_op \<Rightarrow> jsval list \<Rightarrow> (jsval \<times> jsval list) res \<times> jsval list" where
  "vector_spec (VPush x) xs =
     (if length xs < 268435455 then (Inr (js_nat (length xs + 1), []), xs @ [x])
      else (Inl OutOfMemory, xs))"
| "vector_spec (VGet k) xs =
     (Inr (if to_uint32 k < length xs then xs ! to_uint32 k else JUndef, []), xs)"
| "vector_spec (VSet k x) xs =
     (if to_uint32 k < length xs then (Inr (JUndef, [xs ! to_uint32 k]), xs[to_uint32 k := x])
      else (Inl (RangeError ''index out of range''), xs))"
| "vector_spec VPop xs = (if xs = [] then (Inr (JUndef, []), []) else (Inr (last xs, []), butlast xs))"
| "vector_spec VLength xs = (Inr (js_nat (length xs), []), xs)"

definition vector_inv :: "dyn_vector \<Rightarrow> bool" where
  "vector_inv v \<longleftrightarrow> length (vc_items v) \<le> vc_cap v \<and> vc_cap v \<le> UINT32_MAX div sizeof_JSValue"

definition vector_holds :: "dyn_vector dyn_resource \<Rightarrow> jsval list \<Rightarrow> bool" where
  "vector_holds r xs \<longleftrightarrow> (\<exists>v. r = open_res v \<and> vector_inv v \<and> vc_items v = xs)"

lemma vector_reserve_ok:
  assumes "vector_inv v"
  shows "\<exists>c. dyn_vector_reserve v (u32 (length (vc_items v) + 1)) True =
      Some (if length (vc_items v) < 268435455 then (0, v\<lparr>vc_cap := c\<rparr>) else (-1, v)) \<and>
      (length (vc_items v) < 268435455 \<longrightarrow> length (vc_items v) < c \<and> c \<le> UINT32_MAX div sizeof_JSValue)"
proof -
  let ?n = "length (vc_items v) + 1"
  have m: "UINT32_MAX div sizeof_JSValue = 268435455" by (simp add: UINT32_MAX_def sizeof_JSValue_def)
  have inv: "length (vc_items v) \<le> vc_cap v" "vc_cap v \<le> 268435455"
    using assms m by (auto simp: vector_inv_def)
  then have u: "u32 ?n = ?n" by (auto simp: u32_def)
  show "\<exists>c. dyn_vector_reserve v (u32 ?n) True =
      Some (if length (vc_items v) < 268435455 then (0, v\<lparr>vc_cap := c\<rparr>) else (-1, v)) \<and>
      (length (vc_items v) < 268435455 \<longrightarrow> length (vc_items v) < c \<and> c \<le> UINT32_MAX div sizeof_JSValue)"
  proof (cases "?n \<le> vc_cap v")
    case True
    then have "dyn_vector_reserve v (u32 ?n) True = Some (0, v\<lparr>vc_cap := vc_cap v\<rparr>)"
      using u by (simp add: dyn_vector_reserve_def)
    then show ?thesis using True inv m by (intro exI [of _ "vc_cap v"]) simp
  next
    case False
    let ?c = "if vc_cap v \<noteq> 0 then vc_cap v else 8"
    show ?thesis
    proof (cases "?n \<le> 268435455")
      case True
      have "0 < ?c" "?c \<le> UINT32_MAX div sizeof_JSValue" using inv m by auto
      with heap_grow_bounds [of ?c ?n] True m obtain c where
        "heap_grow ?c ?n = Some c" "?n \<le> c" "c \<le> UINT32_MAX div sizeof_JSValue" by auto
      then show ?thesis using False True u m by (intro exI [of _ c]) (simp add: dyn_vector_reserve_def)
    next
      case big: False
      then show ?thesis using False u m by (simp add: dyn_vector_reserve_def)
    qed
  qed
qed

lemma vector_push_sim:
  assumes "vector_inv v"
  shows "\<exists>r'. vector_step (VPush x) (open_res v) = Some (fst (vector_spec (VPush x) (vc_items v)), r') \<and>
     vector_holds r' (snd (vector_spec (VPush x) (vc_items v)))"
proof -
  obtain c where c: "dyn_vector_reserve v (u32 (length (vc_items v) + 1)) True =
      Some (if length (vc_items v) < 268435455 then (0, v\<lparr>vc_cap := c\<rparr>) else (-1, v))"
    "length (vc_items v) < 268435455 \<longrightarrow> length (vc_items v) < c \<and> c \<le> UINT32_MAX div sizeof_JSValue"
    using vector_reserve_ok [OF assms] by blast
  then show ?thesis using assms
    by (simp add: dyn_vector_push_def Let_def vector_holds_def vector_inv_def Suc_le_eq)
qed

lemma vector_sim:
  assumes "vector_holds r xs"
  shows "\<exists>r'. vector_step op r = Some (fst (vector_spec op xs), r') \<and> vector_holds r' (snd (vector_spec op xs))"
proof -
  obtain v where r: "r = open_res v" and inv: "vector_inv v" and xs: "xs = vc_items v"
    using assms by (auto simp: vector_holds_def)
  note defs = dyn_vector_get_def dyn_vector_set_def dyn_vector_pop_def dyn_vector_length_def int_arg_def
    with_native_def dyn_res_native_def res_live_def Let_def vector_holds_def
  show ?thesis
  proof (cases op)
    case (VPush x)
    with vector_push_sim [OF inv, of x] r xs show ?thesis by simp
  next
    case VPop
    have "xs \<noteq> [] \<Longrightarrow> xs ! (length xs - 1) = last xs" "take (length xs - 1) xs = butlast xs"
      by (simp_all add: last_conv_nth butlast_conv_take)
    then show ?thesis using VPop r xs inv by (auto simp: defs vector_inv_def)
  qed (use r xs inv in \<open>auto simp: defs vector_inv_def\<close>)
qed

interpretation vector: simulation vector_step vector_spec vector_holds
  by unfold_locales (rule vector_sim)



end
