(* ===== verification/Dyna_HashMap.thy ===== *)
theory Dyna_HashMap
  imports Dyna_Vector
begin

unbundle bit_operations_syntax

text \<open>
  The \<open>HashMap\<close> class of \<^verbatim>\<open>src/src/dyna-structures.c\<close>: separate chaining over a power-of-two
  table of buckets, FNV-1a hashing, growth at three quarters load. A bucket is its chain of
  entries in list order; \<open>n_buckets\<close> is the length of the table; keys are the bytes of the
  converted C string, with their length (so keys may contain NUL).
\<close>

section \<open>Data\<close>

record map_entry =
  en_value :: jsval
  en_hash :: "64 word"
  en_key :: "8 word list"

record dyn_hashmap =
  hm_buckets :: "map_entry list list"
  hm_count :: nat

abbreviation hm_n_buckets :: "dyn_hashmap \<Rightarrow> nat" where
  "hm_n_buckets m \<equiv> length (hm_buckets m)"

definition DYN_MAP_INIT_BUCKETS :: nat where
  "DYN_MAP_INIT_BUCKETS = 16"

section \<open>Operations\<close>

definition dyn_map_hash :: "8 word list \<Rightarrow> 64 word" where
  "dyn_map_hash s = fold (\<lambda>c h. (h XOR ucast c) * 1099511628211) s 1469598103934665603"

text \<open>\<open>(uint32_t)(h & (n - 1))\<close>\<close>

definition map_bucket :: "64 word \<Rightarrow> nat \<Rightarrow> nat" where
  "map_bucket h n = u32 (unat (h AND word_of_nat (n - 1)))"

definition entry_match :: "64 word \<Rightarrow> 8 word list \<Rightarrow> map_entry \<Rightarrow> bool" where
  "entry_match h key e \<longleftrightarrow> en_hash e = h \<and> length (en_key e) = length key \<and> en_key e = key"

definition dyn_map_find :: "dyn_hashmap \<Rightarrow> 8 word list \<Rightarrow> 64 word \<Rightarrow> map_entry option \<times> nat" where
  "dyn_map_find m key h =
     (let b = map_bucket h (hm_n_buckets m) in (List.find (entry_match h key) (hm_buckets m ! b), b))"

definition map_relink :: "nat \<Rightarrow> map_entry \<Rightarrow> map_entry list list \<Rightarrow> map_entry list list" where
  "map_relink nnew e nb = (let b = map_bucket (en_hash e) nnew in nb[b := e # nb ! b])"

definition dyn_map_grow :: "dyn_hashmap \<Rightarrow> bool \<Rightarrow> int \<times> dyn_hashmap" where
  "dyn_map_grow m ok =
     (let nnew = u32 (hm_n_buckets m * 2)
      in if nnew < hm_n_buckets m then (-1, m)
         else if \<not> ok then (-1, m)
         else (0, m\<lparr>hm_buckets := fold (fold (map_relink nnew)) (hm_buckets m) (replicate nnew [])\<rparr>))"

definition dyn_hashmap_free :: "dyn_hashmap \<Rightarrow> jsval list" where
  "dyn_hashmap_free m = concat (map (map en_value) (hm_buckets m))"

definition dyn_hashmap_ctor :: "bool \<Rightarrow> bool \<Rightarrow> dyn_hashmap dyn_resource res" where
  "dyn_hashmap_ctor ok1 ok2 =
     (if \<not> ok1 then Inl OutOfMemory
      else if \<not> ok2 then Inl OutOfMemory
      else Inr (open_res \<lparr>hm_buckets = replicate DYN_MAP_INIT_BUCKETS [], hm_count = 0\<rparr>))"

text \<open>Overwriting the value of the first matching entry of a chain, and unlinking that entry.\<close>

fun chain_overwrite :: "64 word \<Rightarrow> 8 word list \<Rightarrow> jsval \<Rightarrow> map_entry list \<Rightarrow> map_entry list" where
  "chain_overwrite h key v [] = []"
| "chain_overwrite h key v (e # es) =
     (if entry_match h key e then e\<lparr>en_value := v\<rparr> # es else e # chain_overwrite h key v es)"

fun chain_unlink :: "64 word \<Rightarrow> 8 word list \<Rightarrow> map_entry list \<Rightarrow> (map_entry \<times> map_entry list) option" where
  "chain_unlink h key [] = None"
| "chain_unlink h key (e # es) =
     (if entry_match h key e then Some (e, es)
      else map_option (\<lambda>(x, es'). (x, e # es')) (chain_unlink h key es))"

text \<open>
  The allocation outcomes of one \<open>set\<close>: \<open>calloc\<close> of the grown table, \<open>malloc\<close> of the entry and
  of its key. The outcome pairs the result with the values released; \<open>this_val\<close> is the map.
\<close>

record set_alloc =
  al_grow :: bool
  al_entry :: bool
  al_key :: bool

definition map_set :: "jsval \<Rightarrow> 8 word list \<Rightarrow> jsval \<Rightarrow> set_alloc \<Rightarrow> dyn_hashmap \<Rightarrow>
    (jsval \<times> jsval list) res \<times> dyn_hashmap" where
  "map_set this_val key v al m =
     (let h = dyn_map_hash key
      in case dyn_map_find m key h of
           (Some e, b) \<Rightarrow>
             (Inr (this_val, [en_value e]),
              m\<lparr>hm_buckets := (hm_buckets m)[b := chain_overwrite h key v (hm_buckets m ! b)]\<rparr>)
         | (None, b) \<Rightarrow>
             (let (m', b') =
                (if u32 (hm_count m + 1) > hm_n_buckets m - hm_n_buckets m div 4 then
                   (case dyn_map_grow m (al_grow al) of (rc, m') \<Rightarrow>
                      (m', if rc = 0 then map_bucket h (hm_n_buckets m') else b))
                 else (m, b))
              in if \<not> al_entry al then (Inl OutOfMemory, m')
                 else if \<not> al_key al then (Inl OutOfMemory, m')
                 else (Inr (this_val, []),
                       m'\<lparr>hm_buckets := (hm_buckets m')[b' :=
                             \<lparr>en_value = v, en_hash = h, en_key = key\<rparr> # hm_buckets m' ! b'],
                          hm_count := u32 (hm_count m' + 1)\<rparr>)))"

text \<open>Key conversion (\<open>JS_ToCStringLen\<close>) may run user code on the receiver, and fail.\<close>

type_synonym 'h key_coercion = "'h dyn_resource \<Rightarrow> 8 word list res \<times> 'h dyn_resource"

definition with_key :: "'h key_coercion \<Rightarrow> 'h dyn_resource \<Rightarrow>
    (8 word list \<Rightarrow> 'h \<Rightarrow> (jsval \<times> jsval list) res \<times> 'h) \<Rightarrow> 'h method_out" where
  "with_key tokey r f =
     (case tokey r of
        (Inl e, r') \<Rightarrow> (Inl e, r')
      | (Inr key, r') \<Rightarrow> with_native r' (f key))"

definition dyn_hashmap_set :: "dyn_hashmap key_coercion \<Rightarrow> jsval \<Rightarrow> set_alloc \<Rightarrow> jsval \<Rightarrow>
    dyn_hashmap dyn_resource \<Rightarrow> dyn_hashmap method_out" where
  "dyn_hashmap_set tokey this_val al v r = with_key tokey r (\<lambda>key. map_set this_val key v al)"

definition dyn_hashmap_get :: "dyn_hashmap key_coercion \<Rightarrow> dyn_hashmap dyn_resource \<Rightarrow>
    dyn_hashmap method_out" where
  "dyn_hashmap_get tokey r =
     with_key tokey r (\<lambda>key m.
       (Inr (case fst (dyn_map_find m key (dyn_map_hash key)) of
               Some e \<Rightarrow> en_value e | None \<Rightarrow> JUndef, []), m))"

definition dyn_hashmap_has :: "dyn_hashmap key_coercion \<Rightarrow> dyn_hashmap dyn_resource \<Rightarrow>
    dyn_hashmap method_out" where
  "dyn_hashmap_has tokey r =
     with_key tokey r (\<lambda>key m.
       (Inr (JBool (fst (dyn_map_find m key (dyn_map_hash key)) \<noteq> None), []), m))"

definition map_delete :: "8 word list \<Rightarrow> dyn_hashmap \<Rightarrow> (jsval \<times> jsval list) res \<times> dyn_hashmap" where
  "map_delete key m =
     (let h = dyn_map_hash key; b = map_bucket h (hm_n_buckets m)
      in case chain_unlink h key (hm_buckets m ! b) of
           Some (e, es) \<Rightarrow>
             (Inr (JBool True, [en_value e]),
              m\<lparr>hm_buckets := (hm_buckets m)[b := es], hm_count := u32_dec (hm_count m)\<rparr>)
         | None \<Rightarrow> (Inr (JBool False, []), m))"

definition dyn_hashmap_delete :: "dyn_hashmap key_coercion \<Rightarrow> dyn_hashmap dyn_resource \<Rightarrow>
    dyn_hashmap method_out" where
  "dyn_hashmap_delete tokey r = with_key tokey r map_delete"

definition dyn_hashmap_size :: "dyn_hashmap dyn_resource \<Rightarrow> dyn_hashmap method_out" where
  "dyn_hashmap_size r = with_native r (\<lambda>m. (Inr (js_nat (hm_count m), []), m))"

section \<open>Buckets\<close>

lemma map_bucket_mod:
  assumes "k \<le> 32"
  shows "map_bucket h (2 ^ k) = unat h mod 2 ^ k"
proof -
  have "(word_of_nat (2 ^ k - 1) :: 64 word) = mask k"
    by (simp add: mask_eq_exp_minus_1 of_nat_diff)
  then have "unat (h AND word_of_nat (2 ^ k - 1)) = unat h mod 2 ^ k"
    by (simp only: take_bit_eq_mask [symmetric] unsigned_take_bit_eq take_bit_nat_def)
  moreover have "unat h mod 2 ^ k < 2 ^ 32"
    using assms by (meson mod_less_divisor order_less_le_trans pos2 power_increasing zero_less_power one_le_numeral)
  ultimately show ?thesis by (simp add: map_bucket_def u32_def)
qed

lemma mset_concat_update:
  "b < length xs \<Longrightarrow> mset (concat (xs[b := ys])) + mset (xs ! b) = mset (concat xs) + mset ys"
proof (induction xs arbitrary: b)
  case (Cons x xs)
  then show ?case by (cases b) (auto simp: ac_simps)
qed simp

lemma chain_unlink_Some:
  "chain_unlink h key es = Some (e, es') \<Longrightarrow>
     mset es = add_mset e (mset es') \<and> entry_match h key e \<and>
     List.find (entry_match h key) es = Some e \<and>
     mset (chain_overwrite h key v es) = add_mset (e\<lparr>en_value := v\<rparr>) (mset es')"
  by (induction es arbitrary: es') (auto split: if_splits)

lemma chain_unlink_None:
  "chain_unlink h key es = None \<longleftrightarrow> List.find (entry_match h key) es = None"
  by (induction es) (auto split: if_splits)

section \<open>Invariant and abstraction\<close>

definition hm_entries :: "dyn_hashmap \<Rightarrow> map_entry list" where
  "hm_entries m = concat (hm_buckets m)"

definition entry_kv :: "map_entry \<Rightarrow> 8 word list \<times> jsval" where
  "entry_kv e = (en_key e, en_value e)"

definition hm_map :: "dyn_hashmap \<Rightarrow> 8 word list \<rightharpoonup> jsval" where
  "hm_map m = map_of (map entry_kv (hm_entries m))"

definition entry_at :: "nat \<Rightarrow> nat \<Rightarrow> map_entry \<Rightarrow> bool" where
  "entry_at n b e \<longleftrightarrow> en_hash e = dyn_map_hash (en_key e) \<and> map_bucket (en_hash e) n = b"

definition bucket_placed :: "map_entry list list \<Rightarrow> bool" where
  "bucket_placed bs \<longleftrightarrow> (\<forall>b < length bs. \<forall>e \<in> set (bs ! b). entry_at (length bs) b e)"

definition hm_inv :: "dyn_hashmap \<Rightarrow> bool" where
  "hm_inv m \<longleftrightarrow>
     (\<exists>k \<le> 31. hm_n_buckets m = 2 ^ k) \<and> bucket_placed (hm_buckets m) \<and>
     distinct (map en_key (hm_entries m)) \<and> hm_count m = u32 (length (hm_entries m))"

lemma bucket_in_range: "hm_inv m \<Longrightarrow> map_bucket h (hm_n_buckets m) < hm_n_buckets m"
  by (auto simp: hm_inv_def map_bucket_mod)

lemma bucket_placed_update:
  assumes "bucket_placed bs" "b < length bs"
    and "\<forall>e \<in> set ys. entry_at (length bs) b e"
  shows "bucket_placed (bs[b := ys])"
  using assms by (auto simp: bucket_placed_def nth_list_update)

lemma bucket_placedD:
  "bucket_placed bs \<Longrightarrow> b < length bs \<Longrightarrow> e \<in> set (bs ! b) \<Longrightarrow> entry_at (length bs) b e"
  by (simp add: bucket_placed_def)

lemma entry_match_iff: "entry_match h key e \<longleftrightarrow> en_hash e = h \<and> en_key e = key"
  by (auto simp: entry_match_def)

lemma map_of_kv_mset:
  assumes "mset (map entry_kv K') = mset ((key, v) # map entry_kv K)" "distinct (map en_key K')"
  shows "map_of (map entry_kv K') = (map_of (map entry_kv K))(key \<mapsto> v)"
    and "key \<notin> en_key ` set K"
proof -
  have fst: "map fst (map entry_kv L) = map en_key L" for L by (simp add: entry_kv_def)
  have "mset (map fst (map entry_kv K')) = mset (map fst ((key, v) # map entry_kv K))"
    using assms(1) by (metis mset_map)
  then have d: "distinct (map fst ((key, v) # map entry_kv K))"
    using assms(2) fst mset_eq_imp_distinct_iff by metis
  then show "key \<notin> en_key ` set K" by (auto simp: entry_kv_def)
  have "set (map entry_kv K') = set ((key, v) # map entry_kv K)" using assms(1) mset_eq_setD by blast
  then have "map_of (map entry_kv K') = map_of ((key, v) # map entry_kv K)"
    using map_of_inject_set [OF _ d, of "map entry_kv K'"] assms(2) fst by metis
  then show "map_of (map entry_kv K') = (map_of (map entry_kv K))(key \<mapsto> v)" by simp
qed

lemma entries_in_bucket:
  assumes "e \<in> set (hm_entries m)"
  obtains i where "i < hm_n_buckets m" "e \<in> set (hm_buckets m ! i)"
  using assms unfolding hm_entries_def set_concat by (metis UN_E in_set_conv_nth)

lemma find_lookup:
  assumes inv: "hm_inv m"
  shows "map_option en_value (fst (dyn_map_find m key (dyn_map_hash key))) = hm_map m key"
proof -
  let ?h = "dyn_map_hash key" and ?b = "map_bucket (dyn_map_hash key) (hm_n_buckets m)"
  have pl: "bucket_placed (hm_buckets m)" and d: "distinct (map fst (map entry_kv (hm_entries m)))"
    using inv by (auto simp: hm_inv_def entry_kv_def comp_def)
  have b: "?b < hm_n_buckets m" using bucket_in_range [OF inv] .
  show ?thesis
  proof (cases "List.find (entry_match ?h key) (hm_buckets m ! ?b)")
    case None
    have "en_key e \<noteq> key" if "e \<in> set (hm_entries m)" for e
    proof
      assume k: "en_key e = key"
      obtain i where i: "i < hm_n_buckets m" "e \<in> set (hm_buckets m ! i)"
        using entries_in_bucket [OF \<open>e \<in> set (hm_entries m)\<close>] .
      then have "en_hash e = ?h" "i = ?b" using bucket_placedD [OF pl i] k by (auto simp: entry_at_def)
      then show False using None i k by (auto simp: find_None_iff entry_match_iff)
    qed
    then have "hm_map m key = None" unfolding hm_map_def map_of_eq_None_iff by (fastforce simp: entry_kv_def)
    then show ?thesis using None by (simp add: dyn_map_find_def Let_def)
  next
    case (Some e)
    then have "e \<in> set (hm_buckets m ! ?b)" "en_key e = key"
      by (auto simp: find_Some_iff entry_match_iff)
    moreover from this(1) have "e \<in> set (hm_entries m)" using nth_mem [OF b] by (auto simp: hm_entries_def)
    ultimately have "(key, en_value e) \<in> set (map entry_kv (hm_entries m))"
      by (auto simp: entry_kv_def)
    then have "hm_map m key = Some (en_value e)" using d by (simp add: hm_map_def)
    then show ?thesis using Some by (simp add: dyn_map_find_def Let_def)
  qed
qed

section \<open>Growth\<close>

lemma relink_ok:
  assumes "bucket_placed nb" "length nb = n" "map_bucket (en_hash e) n < n" "en_hash e = dyn_map_hash (en_key e)"
  shows "bucket_placed (map_relink n e nb)" "length (map_relink n e nb) = n"
    "mset (concat (map_relink n e nb)) = add_mset e (mset (concat nb))"
proof -
  let ?b = "map_bucket (en_hash e) n"
  show "length (map_relink n e nb) = n" using assms by (simp add: map_relink_def Let_def)
  show "bucket_placed (map_relink n e nb)" unfolding map_relink_def Let_def
    using assms bucket_placedD [OF assms(1)]
    by (intro bucket_placed_update) (auto simp: entry_at_def [of _ _ e])
  show "mset (concat (map_relink n e nb)) = add_mset e (mset (concat nb))"
    using mset_concat_update [of ?b nb "e # nb ! ?b"] assms by (simp add: map_relink_def Let_def)
qed

lemma relink_all_ok:
  assumes "\<forall>h. map_bucket h n < n"
  shows "bucket_placed nb \<Longrightarrow> length nb = n \<Longrightarrow> \<forall>e \<in> set es. en_hash e = dyn_map_hash (en_key e) \<Longrightarrow>
    bucket_placed (fold (map_relink n) es nb) \<and> length (fold (map_relink n) es nb) = n \<and>
    mset (concat (fold (map_relink n) es nb)) = mset es + mset (concat nb)"
proof (induction es arbitrary: nb)
  case (Cons e es)
  note ok = relink_ok [OF Cons.prems(1,2), of e]
  show ?case using Cons.IH [of "map_relink n e nb"] ok assms Cons.prems by simp
qed simp

lemma fold_fold_concat: "fold (fold f) xss a = fold f (concat xss) a"
  by (induction xss arbitrary: a) auto

lemma map_grow_ok:
  assumes inv: "hm_inv m"
  shows "hm_inv (snd (dyn_map_grow m ok))"
    and "mset (hm_entries (snd (dyn_map_grow m ok))) = mset (hm_entries m)"
    and "fst (dyn_map_grow m ok) = 0 \<or> fst (dyn_map_grow m ok) = -1 \<and> snd (dyn_map_grow m ok) = m"
    and "ok \<Longrightarrow> hm_n_buckets m = 2 ^ k \<Longrightarrow> k < 31 \<Longrightarrow>
      fst (dyn_map_grow m ok) = 0 \<and> hm_n_buckets (snd (dyn_map_grow m ok)) = 2 * hm_n_buckets m"
proof -
  let ?m = "snd (dyn_map_grow m ok)"
  obtain j where j: "j \<le> 31" "hm_n_buckets m = 2 ^ j" using inv by (auto simp: hm_inv_def)
  have main: "hm_inv ?m \<and> mset (hm_entries ?m) = mset (hm_entries m) \<and>
      hm_n_buckets ?m = 2 ^ Suc j \<and> fst (dyn_map_grow m ok) = 0" if "j < 31" "ok"
  proof -
    let ?n = "2 ^ Suc j :: nat"
    have "?n < 2 ^ 32" using \<open>j < 31\<close> by (intro power_strict_increasing) auto
    then have u: "u32 (hm_n_buckets m * 2) = ?n" using j by (simp add: u32_def)
    have g: "dyn_map_grow m ok =
        (0, m\<lparr>hm_buckets := fold (map_relink ?n) (hm_entries m) (replicate ?n [])\<rparr>)"
      using u j \<open>ok\<close> by (simp add: dyn_map_grow_def Let_def fold_fold_concat hm_entries_def)
    have r: "\<forall>h. map_bucket h ?n < ?n" using map_bucket_mod [of "Suc j"] \<open>j < 31\<close> by simp
    have h: "\<forall>e \<in> set (hm_entries m). en_hash e = dyn_map_hash (en_key e)"
      using inv entries_in_bucket bucket_placedD unfolding hm_inv_def entry_at_def by metis
    have "bucket_placed (replicate ?n [])" "concat (replicate ?n []) = []" "length (replicate ?n []) = ?n"
      for x :: map_entry
      by (auto simp: bucket_placed_def)
    from relink_all_ok [OF r this(1,3) h] this(2)
    have ok: "bucket_placed (hm_buckets ?m)" "length (hm_buckets ?m) = ?n"
      "mset (hm_entries ?m) = mset (hm_entries m)" by (auto simp: g hm_entries_def)
    have "distinct (map en_key (hm_entries ?m)) = distinct (map en_key (hm_entries m))"
      using ok(3) by (intro mset_eq_imp_distinct_iff) simp
    moreover have "length (hm_entries ?m) = length (hm_entries m)" using ok(3) by (metis size_mset)
    moreover have "\<exists>k \<le> 31. hm_n_buckets ?m = 2 ^ k" using ok(2) \<open>j < 31\<close> by (intro exI [of _ "Suc j"]) simp
    ultimately have "hm_inv ?m" using inv ok by (simp add: hm_inv_def g)
    then show ?thesis using ok g by simp
  qed
  have stay: "dyn_map_grow m ok = (-1, m)" if "\<not> (j < 31 \<and> ok)"
  proof (cases ok)
    case False
    then show ?thesis by (simp add: dyn_map_grow_def Let_def)
  next
    case True
    then have "j = 31" using that j by simp
    then show ?thesis using j by (simp add: dyn_map_grow_def Let_def u32_def)
  qed
  show "hm_inv ?m" "mset (hm_entries ?m) = mset (hm_entries m)"
    "fst (dyn_map_grow m ok) = 0 \<or> fst (dyn_map_grow m ok) = -1 \<and> ?m = m"
    using main stay inv by (cases "j < 31 \<and> ok"; simp)+
  show "ok \<Longrightarrow> hm_n_buckets m = 2 ^ k \<Longrightarrow> k < 31 \<Longrightarrow>
      fst (dyn_map_grow m ok) = 0 \<and> hm_n_buckets ?m = 2 * hm_n_buckets m"
    using main j by (cases "k = j") (auto simp: power_inject_exp)
qed

section \<open>Operations on the abstract map\<close>

lemma hm_map_cong:
  assumes "mset (hm_entries m') = mset (hm_entries m)" "hm_inv m" "hm_inv m'"
  shows "hm_map m' = hm_map m"
proof -
  have "map fst (map entry_kv L) = map en_key L" for L by (simp add: entry_kv_def)
  moreover have "set (map entry_kv (hm_entries m')) = set (map entry_kv (hm_entries m))"
    using assms(1) by (metis mset_eq_setD mset_map)
  ultimately show ?thesis using assms(2,3) unfolding hm_map_def hm_inv_def
    by (subst map_of_inject_set) (simp_all del: set_map map_map)
qed

text \<open>
  What a change of one bucket does, given what it does to the multiset of entries of the
  bucket: the invariant is kept when the new entries belong there and keys stay distinct.
\<close>

lemma hm_update_inv:
  assumes inv: "hm_inv m" and b: "b < hm_n_buckets m"
    and at: "\<forall>e \<in> set ys. entry_at (hm_n_buckets m) b e"
    and d: "distinct (map en_key (concat ((hm_buckets m)[b := ys])))"
    and c: "c = u32 (length (concat ((hm_buckets m)[b := ys])))"
  shows "hm_inv (m\<lparr>hm_buckets := (hm_buckets m)[b := ys], hm_count := c\<rparr>)"
  using assms by (auto simp: hm_inv_def hm_entries_def intro!: bucket_placed_update)

lemma map_find_None:
  assumes "hm_inv m" "fst (dyn_map_find m key (dyn_map_hash key)) = None"
  shows "key \<notin> en_key ` set (hm_entries m)" "hm_map m key = None"
proof -
  show n: "hm_map m key = None" using find_lookup [OF assms(1), of key] assms(2) by simp
  then have "key \<notin> fst ` set (map entry_kv (hm_entries m))" unfolding hm_map_def map_of_eq_None_iff .
  then show "key \<notin> en_key ` set (hm_entries m)" by (simp add: entry_kv_def image_image)
qed

lemma map_insert_ok:
  fixes v :: jsval
  assumes inv: "hm_inv m" and new: "key \<notin> en_key ` set (hm_entries m)"
  defines "h \<equiv> dyn_map_hash key"
  defines "b \<equiv> map_bucket h (hm_n_buckets m)"
  defines "m' \<equiv> m\<lparr>hm_buckets := (hm_buckets m)[b := \<lparr>en_value = v, en_hash = h, en_key = key\<rparr> # hm_buckets m ! b],
      hm_count := u32 (hm_count m + 1)\<rparr>"
  shows "hm_inv m'" "hm_map m' = (hm_map m)(key \<mapsto> v)" "length (hm_entries m') = length (hm_entries m) + 1"
proof -
  let ?e = "\<lparr>en_value = v, en_hash = h, en_key = key\<rparr>"
  have b: "b < hm_n_buckets m" using bucket_in_range [OF inv] by (simp add: b_def)
  have K: "mset (hm_entries m') = mset (?e # hm_entries m)"
    using mset_concat_update [OF b, of "?e # hm_buckets m ! b"] by (simp add: m'_def hm_entries_def)
  then show len: "length (hm_entries m') = length (hm_entries m) + 1"
    by (metis One_nat_def add.right_neutral add_Suc_right list.size(4) size_mset)
  have "mset (map en_key (hm_entries m')) = mset (map en_key (?e # hm_entries m))" using K by (metis mset_map)
  then have d: "distinct (map en_key (hm_entries m'))"
    using inv new mset_eq_imp_distinct_iff by (fastforce simp: hm_inv_def)
  have "bucket_placed (hm_buckets m)" using inv by (simp add: hm_inv_def)
  note at = bucket_placedD [OF this b]
  have "entry_at (hm_n_buckets m) b ?e" by (simp add: entry_at_def h_def b_def)
  moreover have "u32 (hm_count m + 1) = u32 (length (hm_entries m'))"
    using inv len by (simp add: hm_inv_def u32_def mod_simps)
  ultimately show "hm_inv m'" unfolding m'_def
    using inv b d at by (intro hm_update_inv) (auto simp: m'_def hm_entries_def)
  have "mset (map entry_kv (hm_entries m')) = mset (map entry_kv (?e # hm_entries m))" using K by (metis mset_map)
  then show "hm_map m' = (hm_map m)(key \<mapsto> v)"
    using map_of_kv_mset(1) [OF _ d] unfolding hm_map_def by (simp add: entry_kv_def [of ?e])
qed

lemma map_unlink_ok:
  fixes key :: "8 word list" and es :: "map_entry list"
  assumes inv: "hm_inv m"
  defines "h \<equiv> dyn_map_hash key"
  defines "b \<equiv> map_bucket h (hm_n_buckets m)"
  assumes u: "chain_unlink h key (hm_buckets m ! b) = Some (e, es)"
  defines "m' \<equiv> m\<lparr>hm_buckets := (hm_buckets m)[b := es], hm_count := u32_dec (hm_count m)\<rparr>"
  shows "hm_inv m'" "hm_map m' = (hm_map m)(key := None)" "hm_map m key = Some (en_value e)"
    "mset (hm_entries m) = add_mset e (mset (hm_entries m'))"
proof -
  have b: "b < hm_n_buckets m" using bucket_in_range [OF inv] by (simp add: b_def)
  have e: "mset (hm_buckets m ! b) = add_mset e (mset es)" "en_key e = key"
    using chain_unlink_Some [OF u] by (auto simp: entry_match_iff)
  have K: "mset (hm_entries m) = mset (e # hm_entries m')"
    using mset_concat_update [OF b, of es] e by (simp add: m'_def hm_entries_def)
  then show "mset (hm_entries m) = add_mset e (mset (hm_entries m'))" by simp
  have d0: "distinct (map en_key (hm_entries m))" using inv by (simp add: hm_inv_def)
  have "mset (map en_key (hm_entries m)) = mset (map en_key (e # hm_entries m'))" using K by (metis mset_map)
  then have d: "distinct (map en_key (e # hm_entries m'))" using d0 mset_eq_imp_distinct_iff by metis
  have len: "length (hm_entries m) = Suc (length (hm_entries m'))" using K by (metis length_Cons size_mset)
  have "bucket_placed (hm_buckets m)" using inv by (simp add: hm_inv_def)
  note at = bucket_placedD [OF this b]
  have "set es \<subseteq> set (hm_buckets m ! b)" using e(1) by (metis set_mset_add_mset_insert set_mset_mset subset_insertI)
  moreover have "u32_dec (hm_count m) = u32 (length (concat ((hm_buckets m)[b := es])))"
    using inv len by (simp add: hm_inv_def u32_dec_def u32_def m'_def hm_entries_def mod_simps)
  ultimately show "hm_inv m'" unfolding m'_def
    using inv b d at by (intro hm_update_inv) (auto simp: m'_def hm_entries_def)
  have "mset (map entry_kv (hm_entries m)) = mset (map entry_kv (e # hm_entries m'))" using K by (metis mset_map)
  then have kv: "mset (map entry_kv (hm_entries m)) = mset ((key, en_value e) # map entry_kv (hm_entries m'))"
    using e by (simp add: entry_kv_def)
  note M = map_of_kv_mset [OF kv d0]
  show "hm_map m key = Some (en_value e)" using M(1) by (simp add: hm_map_def)
  have "hm_map m' key = None" using M(2) by (auto simp: hm_map_def map_of_eq_None_iff entry_kv_def)
  then show "hm_map m' = (hm_map m)(key := None)" using M(1) by (auto simp: hm_map_def fun_eq_iff)
qed

lemma map_overwrite_ok:
  fixes key :: "8 word list" and es :: "map_entry list" and v :: jsval
  assumes inv: "hm_inv m"
  defines "h \<equiv> dyn_map_hash key"
  defines "b \<equiv> map_bucket h (hm_n_buckets m)"
  assumes u: "chain_unlink h key (hm_buckets m ! b) = Some (e, es)"
  defines "m' \<equiv> m\<lparr>hm_buckets := (hm_buckets m)[b := chain_overwrite h key v (hm_buckets m ! b)]\<rparr>"
  shows "hm_inv m'" "hm_map m' = (hm_map m)(key \<mapsto> v)" "length (hm_entries m') = length (hm_entries m)"
proof -
  let ?e = "e\<lparr>en_value := v\<rparr>" and ?c = "chain_overwrite h key v (hm_buckets m ! b)"
  define m0 where "m0 = m\<lparr>hm_buckets := (hm_buckets m)[b := es], hm_count := u32_dec (hm_count m)\<rparr>"
  note un = map_unlink_ok [OF inv u [unfolded b_def h_def], folded h_def, folded b_def, folded m0_def]
  have b: "b < hm_n_buckets m" using bucket_in_range [OF inv] by (simp add: b_def)
  have c: "mset (hm_buckets m ! b) = add_mset e (mset es)" "mset ?c = add_mset ?e (mset es)"
    "en_hash e = h" "en_key e = key"
    using chain_unlink_Some [OF u, of v] by (auto simp: entry_match_iff)
  have K: "mset (hm_entries m') = mset (?e # hm_entries m0)"
    using mset_concat_update [OF b, of ?c] un(4) c by (simp add: m'_def m0_def hm_entries_def)
  have "mset (hm_entries m) = mset (e # hm_entries m0)" using un(4) by simp
  with K show len: "length (hm_entries m') = length (hm_entries m)" by (metis length_Cons size_mset)
  have "mset (map en_key (hm_entries m')) = mset (map en_key (hm_entries m))"
    using K un(4) by simp
  then have d: "distinct (map en_key (hm_entries m'))" using inv mset_eq_imp_distinct_iff unfolding hm_inv_def by metis
  have "bucket_placed (hm_buckets m)" using inv by (simp add: hm_inv_def)
  note at = bucket_placedD [OF this b]
  have "set ?c = insert ?e (set es)" "set es \<subseteq> set (hm_buckets m ! b)"
    using c by (metis set_mset_add_mset_insert set_mset_mset, metis set_mset_add_mset_insert set_mset_mset subset_insertI)
  moreover have "entry_at (hm_n_buckets m) b ?e" using c by (simp add: entry_at_def h_def b_def)
  moreover have "hm_count m = u32 (length (hm_entries m'))" using inv len by (simp add: hm_inv_def)
  ultimately have "hm_inv (m\<lparr>hm_buckets := (hm_buckets m)[b := ?c], hm_count := hm_count m\<rparr>)"
    using inv b d at by (intro hm_update_inv) (auto simp: m'_def hm_entries_def)
  then show "hm_inv m'" by (simp add: m'_def)
  have "mset (map entry_kv (hm_entries m')) = mset (map entry_kv (?e # hm_entries m0))" using K by (metis mset_map)
  then have "mset (map entry_kv (hm_entries m')) = mset ((key, v) # map entry_kv (hm_entries m0))"
    using c by (simp add: entry_kv_def)
  from map_of_kv_mset(1) [OF this d] un(2) show "hm_map m' = (hm_map m)(key \<mapsto> v)" by (simp add: hm_map_def)
qed

section \<open>Refinement to a map\<close>

datatype map_op = HSet "8 word list" jsval set_alloc | HGet "8 word list" | HHas "8 word list"
  | HDelete "8 word list" | HSize

definition key_arg :: "8 word list \<Rightarrow> 'h key_coercion" where
  "key_arg key r = (Inr key, r)"

fun map_step :: "jsval \<Rightarrow> map_op \<Rightarrow> dyn_hashmap dyn_resource \<Rightarrow> dyn_hashmap method_out option" where
  "map_step this_val (HSet key v al) r = Some (dyn_hashmap_set (key_arg key) this_val al v r)"
| "map_step this_val (HGet key) r = Some (dyn_hashmap_get (key_arg key) r)"
| "map_step this_val (HHas key) r = Some (dyn_hashmap_has (key_arg key) r)"
| "map_step this_val (HDelete key) r = Some (dyn_hashmap_delete (key_arg key) r)"
| "map_step this_val HSize r = Some (dyn_hashmap_size r)"

definition opt_list :: "'a option \<Rightarrow> 'a list" where
  "opt_list x = (case x of None \<Rightarrow> [] | Some y \<Rightarrow> [y])"

fun map_spec :: "jsval \<Rightarrow> map_op \<Rightarrow> (8 word list \<rightharpoonup> jsval) \<Rightarrow> (jsval \<times> jsval list) res \<times> (8 word list \<rightharpoonup> jsval)" where
  "map_spec this_val (HSet key v al) M =
     (if M key = None \<and> \<not> (al_entry al \<and> al_key al) then (Inl OutOfMemory, M)
      else (Inr (this_val, opt_list (M key)), M(key \<mapsto> v)))"
| "map_spec this_val (HGet key) M = (Inr (case M key of None \<Rightarrow> JUndef | Some v \<Rightarrow> v, []), M)"
| "map_spec this_val (HHas key) M = (Inr (JBool (M key \<noteq> None), []), M)"
| "map_spec this_val (HDelete key) M = (Inr (JBool (M key \<noteq> None), opt_list (M key)), M(key := None))"
| "map_spec this_val HSize M = (Inr (js_nat (u32 (card (dom M))), []), M)"

definition map_holds :: "dyn_hashmap dyn_resource \<Rightarrow> (8 word list \<rightharpoonup> jsval) \<Rightarrow> bool" where
  "map_holds r M \<longleftrightarrow> (\<exists>m. r = open_res m \<and> hm_inv m \<and> hm_map m = M)"

lemma find_unlink:
  "fst (dyn_map_find m key (dyn_map_hash key)) =
     map_option fst (chain_unlink (dyn_map_hash key) key
       (hm_buckets m ! map_bucket (dyn_map_hash key) (hm_n_buckets m)))"
proof (cases "chain_unlink (dyn_map_hash key) key (hm_buckets m ! map_bucket (dyn_map_hash key) (hm_n_buckets m))")
  case None
  then show ?thesis using chain_unlink_None by (simp add: dyn_map_find_def Let_def)
next
  case (Some p)
  then show ?thesis using chain_unlink_Some by (cases p) (simp add: dyn_map_find_def Let_def)
qed

lemma map_find_eq:
  "dyn_map_find m key h = (fst (dyn_map_find m key h), map_bucket h (hm_n_buckets m))"
  by (simp add: dyn_map_find_def Let_def)

lemma map_set_present:
  assumes "hm_inv m" "hm_map m key = Some old"
  shows "fst (map_set this_val key v al m) = Inr (this_val, [old])"
    "hm_inv (snd (map_set this_val key v al m))"
    "hm_map (snd (map_set this_val key v al m)) = (hm_map m)(key \<mapsto> v)"
    "length (hm_entries (snd (map_set this_val key v al m))) = length (hm_entries m)"
    "hm_n_buckets (snd (map_set this_val key v al m)) = hm_n_buckets m"
proof -
  let ?h = "dyn_map_hash key" and ?b = "map_bucket (dyn_map_hash key) (hm_n_buckets m)"
  obtain e es where u: "chain_unlink ?h key (hm_buckets m ! ?b) = Some (e, es)" "en_value e = old"
    using find_lookup [OF assms(1), of key] assms(2) find_unlink [of m key] by auto
  have f: "dyn_map_find m key ?h = (Some e, ?b)"
    using find_unlink [of m key] u map_find_eq [of m key ?h] by simp
  note ow = map_overwrite_ok [OF assms(1) u(1), of v]
  have s: "map_set this_val key v al m = (Inr (this_val, [old]),
      m\<lparr>hm_buckets := (hm_buckets m)[?b := chain_overwrite ?h key v (hm_buckets m ! ?b)]\<rparr>)"
    using f u(2) by (simp add: map_set_def Let_def)
  show "fst (map_set this_val key v al m) = Inr (this_val, [old])"
    "hm_inv (snd (map_set this_val key v al m))"
    "hm_map (snd (map_set this_val key v al m)) = (hm_map m)(key \<mapsto> v)"
    "length (hm_entries (snd (map_set this_val key v al m))) = length (hm_entries m)"
    "hm_n_buckets (snd (map_set this_val key v al m)) = hm_n_buckets m"
    using ow by (simp_all add: s)
qed

text \<open>The table a new entry is linked into.\<close>

definition grown :: "dyn_hashmap \<Rightarrow> bool \<Rightarrow> dyn_hashmap" where
  "grown m ok =
     (if u32 (hm_count m + 1) > hm_n_buckets m - hm_n_buckets m div 4 then snd (dyn_map_grow m ok) else m)"

lemma grown_ok:
  assumes "hm_inv m"
  shows "hm_inv (grown m ok)" "mset (hm_entries (grown m ok)) = mset (hm_entries m)"
    "hm_map (grown m ok) = hm_map m"
proof -
  show i: "hm_inv (grown m ok)" and e: "mset (hm_entries (grown m ok)) = mset (hm_entries m)"
    using map_grow_ok(1,2) [OF assms, of ok] assms by (simp_all add: grown_def)
  show "hm_map (grown m ok) = hm_map m" by (rule hm_map_cong [OF e assms i])
qed

lemma map_set_absent:
  assumes "hm_inv m" "hm_map m key = None"
  shows "map_set this_val key v al m =
    (if \<not> (al_entry al \<and> al_key al) then (Inl OutOfMemory, grown m (al_grow al))
     else (Inr (this_val, []),
       (let h = dyn_map_hash key; m' = grown m (al_grow al); b = map_bucket h (hm_n_buckets m')
        in m'\<lparr>hm_buckets := (hm_buckets m')[b := \<lparr>en_value = v, en_hash = h, en_key = key\<rparr> # hm_buckets m' ! b],
              hm_count := u32 (hm_count m' + 1)\<rparr>)))"
proof -
  let ?h = "dyn_map_hash key" and ?b = "map_bucket (dyn_map_hash key) (hm_n_buckets m)"
  have "fst (dyn_map_find m key ?h) = None" using find_lookup [OF assms(1), of key] assms(2) by simp
  then have f: "dyn_map_find m key ?h = (None, ?b)" using map_find_eq [of m key ?h] by simp
  obtain rc m' where g: "dyn_map_grow m (al_grow al) = (rc, m')" by fastforce
  then have "rc = 0 \<or> rc = -1 \<and> m' = m" using map_grow_ok(3) [OF assms(1), of "al_grow al"] by simp
  with f g show ?thesis by (auto simp: map_set_def Let_def grown_def)
qed

lemma map_set_sim:
  assumes "hm_inv m"
  shows "\<exists>m'. map_set this_val key v al m = (fst (map_spec this_val (HSet key v al) (hm_map m)), m') \<and>
    hm_inv m' \<and> hm_map m' = snd (map_spec this_val (HSet key v al) (hm_map m))"
proof (cases "hm_map m key")
  case (Some old)
  then show ?thesis using map_set_present [OF assms Some, of this_val v al]
    by (intro exI [of _ "snd (map_set this_val key v al m)"]) (simp add: prod_eq_iff opt_list_def)
next
  case None
  let ?m = "grown m (al_grow al)"
  note g = grown_ok [OF assms, of "al_grow al"]
  have "key \<notin> en_key ` set (hm_entries ?m)"
    using map_find_None(1) [OF g(1), of key] find_lookup [OF g(1), of key] g(3) None by simp
  note ins = map_insert_ok [OF g(1) this, of v]
  show ?thesis using map_set_absent [OF assms None] ins g None
    by (auto simp: opt_list_def Let_def)
qed

lemma map_delete_sim:
  assumes "hm_inv m"
  shows "\<exists>m'. map_delete key m = (fst (map_spec this_val (HDelete key) (hm_map m)), m') \<and>
    hm_inv m' \<and> hm_map m' = snd (map_spec this_val (HDelete key) (hm_map m))"
proof (cases "chain_unlink (dyn_map_hash key) key (hm_buckets m ! map_bucket (dyn_map_hash key) (hm_n_buckets m))")
  case None
  then have "hm_map m key = None" using find_lookup [OF assms, of key] find_unlink [of m key] by simp
  then show ?thesis using None assms by (auto simp: map_delete_def Let_def opt_list_def)
next
  case (Some p)
  obtain e es where p: "p = (e, es)" by fastforce
  note un = map_unlink_ok [OF assms Some [unfolded p]]
  show ?thesis using Some p un by (auto simp: map_delete_def Let_def opt_list_def)
qed

lemma hm_card: "hm_inv m \<Longrightarrow> card (dom (hm_map m)) = length (hm_entries m)"
  by (simp add: hm_map_def dom_map_of_conv_image_fst image_image entry_kv_def hm_inv_def
      distinct_card [of "map en_key (hm_entries m)", simplified])

lemma map_sim:
  assumes "map_holds r M"
  shows "\<exists>r'. map_step this_val op r = Some (fst (map_spec this_val op M), r') \<and>
    map_holds r' (snd (map_spec this_val op M))"
proof -
  obtain m where r: "r = open_res m" and inv: "hm_inv m" and M: "M = hm_map m"
    using assms by (auto simp: map_holds_def)
  note defs = with_key_def key_arg_def with_native_def dyn_res_native_def res_live_def map_holds_def
  show ?thesis
  proof (cases op)
    case (HSet key v al)
    with map_set_sim [OF inv, of this_val key v al] r M show ?thesis
      by (auto simp: dyn_hashmap_set_def defs simp del: map_spec.simps)
  next
    case (HDelete key)
    with map_delete_sim [OF inv, of key this_val] r M show ?thesis
      by (auto simp: dyn_hashmap_delete_def defs simp del: map_spec.simps)
  next
    case (HGet key)
    with find_lookup [OF inv, of key] r M inv show ?thesis
      by (auto simp: dyn_hashmap_get_def defs split: option.splits)
  next
    case (HHas key)
    with find_lookup [OF inv, of key] r M inv show ?thesis
      by (cases "hm_map m key") (auto simp: dyn_hashmap_has_def defs)
  next
    case HSize
    with hm_card [OF inv] r M inv show ?thesis by (auto simp: dyn_hashmap_size_def defs hm_inv_def)
  qed
qed

interpretation hmap: simulation "map_step this_val" "map_spec this_val" map_holds for this_val
  by unfold_locales (rule map_sim)

lemma free_values:
  assumes "hm_inv m"
  shows "mset (dyn_hashmap_free m) = image_mset (\<lambda>k. the (hm_map m k)) (mset_set (dom (hm_map m)))"
proof -
  have d: "distinct (map en_key (hm_entries m))" using assms by (simp add: hm_inv_def)
  have fst: "map fst (map entry_kv (hm_entries m)) = map en_key (hm_entries m)" by (simp add: entry_kv_def)
  have "dom (hm_map m) = set (map en_key (hm_entries m))"
    using fst by (metis dom_map_of_conv_image_fst hm_map_def list.set_map)
  then have "mset_set (dom (hm_map m)) = mset (map en_key (hm_entries m))" using d mset_set_set by metis
  have "the (hm_map m (en_key e)) = en_value e" if "e \<in> set (hm_entries m)" for e
  proof -
    have "(en_key e, en_value e) \<in> set (map entry_kv (hm_entries m))" using that by (force simp: entry_kv_def)
    moreover have "distinct (map fst (map entry_kv (hm_entries m)))" using d fst by metis
    ultimately have "hm_map m (en_key e) = Some (en_value e)" unfolding hm_map_def by (metis map_of_is_SomeI)
    then show ?thesis by simp
  qed
  then have "map (\<lambda>e. the (hm_map m (en_key e))) (hm_entries m) = map en_value (hm_entries m)" by simp
  moreover have "dyn_hashmap_free m = map en_value (hm_entries m)"
    by (simp add: dyn_hashmap_free_def hm_entries_def map_concat)
  ultimately show ?thesis using \<open>mset_set (dom (hm_map m)) = mset (map en_key (hm_entries m))\<close>
    by (metis (no_types, lifting) map_map comp_def mset_map map_cong)
qed

lemma fresh_map:
  assumes "dyn_hashmap_ctor True True = Inr r"
  shows "map_holds r Map.empty" "\<exists>m. r = open_res m \<and> hm_n_buckets m = 16 \<and> hm_entries m = [] \<and> hm_inv m"
proof -
  let ?m = "\<lparr>hm_buckets = replicate DYN_MAP_INIT_BUCKETS [], hm_count = 0\<rparr>"
  have r: "r = open_res ?m" using assms by (simp add: dyn_hashmap_ctor_def)
  have e: "hm_entries ?m = []" "hm_n_buckets ?m = 16" by (auto simp: hm_entries_def DYN_MAP_INIT_BUCKETS_def)
  then have "\<exists>k \<le> 31. hm_n_buckets ?m = 2 ^ k" by (intro exI [of _ 4]) simp
  then have "hm_inv ?m" using e by (simp add: hm_inv_def bucket_placed_def u32_def)
  then show "map_holds r Map.empty" "\<exists>m. r = open_res m \<and> hm_n_buckets m = 16 \<and> hm_entries m = [] \<and> hm_inv m"
    using r e by (auto simp: map_holds_def hm_map_def)
qed

text \<open>
  C3. Every sequence of \<open>set\<close>, \<open>get\<close>, \<open>has\<close>, \<open>delete\<close> and \<open>size\<close> on a fresh hash map shows the
  results of a finite map from byte strings to values, whatever the hashes, the growths and the
  failing allocations (a failed \<open>set\<close> throws and changes nothing). A value is released exactly
  when it is overwritten or deleted, and disposal releases exactly the values still mapped.
\<close>

theorem hashmap_refines_map:
  assumes "dyn_hashmap_ctor True True = Inr r"
  shows "\<exists>m. impl_run (map_step this_val) ops r =
      Some (fst (spec_run (map_spec this_val) ops Map.empty), open_res m) \<and>
    (let M = snd (spec_run (map_spec this_val) ops Map.empty)
     in mset (dyn_hashmap_free m) = image_mset (\<lambda>k. the (M k)) (mset_set (dom M)))"
proof -
  from hmap.run_sim [OF fresh_map(1) [OF assms], of this_val ops] show ?thesis
    using free_values by (auto simp: map_holds_def Let_def)
qed

theorem hashmap_refines_map_witness:
  "\<exists>m. impl_run (map_step JNull)
      [HSet [1] (JBool True) \<lparr>al_grow = True, al_entry = True, al_key = True\<rparr>,
       HSet [1] (JBool False) \<lparr>al_grow = True, al_entry = False, al_key = True\<rparr>, HGet [1], HDelete [2], HSize]
      (open_res \<lparr>hm_buckets = replicate 16 [], hm_count = 0\<rparr>) =
    Some ([Inr (JNull, []), Inr (JNull, [JBool True]), Inr (JBool False, []), Inr (JBool False, []),
           Inr (js_nat 1, [])], open_res m) \<and>
    mset (dyn_hashmap_free m) = {#JBool False#}"
  using hashmap_refines_map [of "open_res \<lparr>hm_buckets = replicate 16 [], hm_count = 0\<rparr>" JNull
    "[HSet [1] (JBool True) \<lparr>al_grow = True, al_entry = True, al_key = True\<rparr>,
       HSet [1] (JBool False) \<lparr>al_grow = True, al_entry = False, al_key = True\<rparr>, HGet [1], HDelete [2], HSize]"]
  by (simp add: dyn_hashmap_ctor_def DYN_MAP_INIT_BUCKETS_def opt_list_def u32_def)

section \<open>Load\<close>

definition hm_load :: "dyn_hashmap \<Rightarrow> bool" where
  "hm_load m \<longleftrightarrow>
     16 \<le> hm_n_buckets m \<and> (4 * length (hm_entries m) \<le> 3 * hm_n_buckets m \<or> hm_n_buckets m = 2 ^ 31)"

fun grow_succeeds :: "map_op \<Rightarrow> bool" where
  "grow_succeeds (HSet key v al) = al_grow al"
| "grow_succeeds _ = True"

lemma grown_load:
  assumes inv: "hm_inv m" and load: "hm_load m"
  shows "16 \<le> hm_n_buckets (grown m True) \<and>
    (4 * (length (hm_entries m) + 1) \<le> 3 * hm_n_buckets (grown m True) \<or> hm_n_buckets (grown m True) = 2 ^ 31)"
proof -
  let ?n = "hm_n_buckets m" and ?l = "length (hm_entries m)"
  obtain k where k: "k \<le> 31" "?n = 2 ^ k" using inv by (auto simp: hm_inv_def)
  show ?thesis
  proof (cases "k = 31")
    case True
    then have "snd (dyn_map_grow m True) = m" using k by (simp add: dyn_map_grow_def Let_def u32_def)
    then show ?thesis using load True k by (simp add: grown_def hm_load_def)
  next
    case False
    then have "k \<le> 30" using k by simp
    then have n: "?n \<le> 2 ^ 30" unfolding k(2) by (rule power_increasing) simp
    have lt: "4 * ?l \<le> 3 * ?n" "16 \<le> ?n" using load n by (auto simp: hm_load_def)
    with n have u: "u32 (hm_count m + 1) = ?l + 1" using inv by (simp add: hm_inv_def u32_def)
    have "2 ^ 4 \<le> (2 :: nat) ^ k" using lt(2) k by simp
    then have "4 \<le> k" using power_le_imp_le_exp by (metis one_less_numeral_iff semiring_norm(76))
    then have "2 ^ 2 dvd (2 :: nat) ^ k" by (intro le_imp_power_dvd) simp
    then have "4 dvd ?n" using k by simp
    then obtain d where "?n = 4 * d" by (elim dvdE)
    then have q: "?n - ?n div 4 = 3 * d" "?n = 4 * d" by auto
    show ?thesis
    proof (cases "?l + 1 > ?n - ?n div 4")
      case True
      then have "hm_n_buckets (grown m True) = 2 * ?n"
        using map_grow_ok(4) [OF inv, of True k] k False u by (simp add: grown_def)
      then show ?thesis using lt by simp
    next
      case low: False
      then have "hm_n_buckets (grown m True) = ?n" using u by (simp add: grown_def)
      moreover have "4 * (?l + 1) \<le> 3 * ?n" using low unfolding q(1) unfolding q(2) by auto
      ultimately show ?thesis using lt by simp
    qed
  qed
qed

lemma map_step_load:
  assumes holds: "map_holds (open_res m) M" "hm_load m" and g: "grow_succeeds op"
    and step: "map_step this_val op (open_res m) = Some (out, r')"
  shows "\<exists>m'. r' = open_res m' \<and> hm_inv m' \<and> hm_load m'"
proof -
  have inv: "hm_inv m" using holds by (auto simp: map_holds_def)
  note defs = with_key_def key_arg_def with_native_def dyn_res_native_def res_live_def
  show ?thesis
  proof (cases op)
    case (HSet key v al)
    let ?m = "snd (map_set this_val key v al m)"
    have r': "r' = open_res ?m" using step HSet by (auto simp: dyn_hashmap_set_def defs split: prod.splits)
    have i: "hm_inv ?m" using map_set_sim [OF inv, of this_val key v al] by auto
    have "hm_load ?m"
    proof (cases "hm_map m key")
      case (Some old)
      then show ?thesis using map_set_present [OF inv Some, of this_val v al] holds(2) by (simp add: hm_load_def)
    next
      case None
      have "length (hm_entries (grown m True)) = length (hm_entries m)"
        using grown_ok(2) [OF inv, of True] by (metis size_mset)
      moreover have "key \<notin> en_key ` set (hm_entries (grown m True))"
        using map_find_None(1) [OF grown_ok(1) [OF inv]] find_lookup [OF grown_ok(1) [OF inv]]
          grown_ok(3) [OF inv] None by (metis option.map_disc_iff)
      moreover note map_insert_ok(3) [OF grown_ok(1) [OF inv] this, of v]
      ultimately show ?thesis using map_set_absent [OF inv None, of this_val v al] grown_load [OF inv holds(2)] g HSet
        by (auto simp: hm_load_def Let_def)
    qed
    with r' i show ?thesis by blast
  next
    case (HDelete key)
    let ?m = "snd (map_delete key m)"
    have r': "r' = open_res ?m" using step HDelete by (auto simp: dyn_hashmap_delete_def defs split: prod.splits)
    have i: "hm_inv ?m" using map_delete_sim [OF inv, of key JNull] by auto
    have "hm_n_buckets ?m = hm_n_buckets m" by (auto simp: map_delete_def Let_def split: option.splits)
    moreover have "length (hm_entries ?m) \<le> length (hm_entries m)"
    proof (cases "chain_unlink (dyn_map_hash key) key (hm_buckets m ! map_bucket (dyn_map_hash key) (hm_n_buckets m))")
      case None
      then show ?thesis by (simp add: map_delete_def Let_def)
    next
      case (Some p)
      obtain e es where p: "p = (e, es)" by fastforce
      have "mset (hm_entries m) = add_mset e (mset (hm_entries ?m))"
        using map_unlink_ok(4) [OF inv Some [unfolded p]] Some p by (simp add: map_delete_def Let_def)
      then have "length (hm_entries m) = Suc (length (hm_entries ?m))" by (metis size_add_mset size_mset)
      then show ?thesis by simp
    qed
    ultimately have "hm_load ?m" using holds(2) by (auto simp: hm_load_def)
    with r' i show ?thesis by blast
  qed (use step inv holds in \<open>auto simp: dyn_hashmap_get_def dyn_hashmap_has_def dyn_hashmap_size_def defs\<close>)
qed

text \<open>
  As long as the allocations for larger tables succeed, the number of buckets stays a power
  of two and the table at most three quarters full, up to the maximal table of \<open>2 ^ 31\<close> buckets.
\<close>

theorem hashmap_load_bounded:
  assumes "dyn_hashmap_ctor True True = Inr r" "\<forall>x \<in> set ops. grow_succeeds x"
    and "impl_run (map_step this_val) ops r = Some (outs, r')"
  shows "\<exists>m k. r' = open_res m \<and> hm_n_buckets m = 2 ^ k \<and>
    (4 * length (hm_entries m) \<le> 3 * hm_n_buckets m \<or> hm_n_buckets m = 2 ^ 31)"
proof -
  let ?P = "\<lambda>r. \<exists>m. r = open_res m \<and> hm_inv m \<and> hm_load m"
  have "?P r" using fresh_map(2) [OF assms(1)] by (auto simp: hm_load_def)
  moreover have "?P r'" if x: "x \<in> set ops" and c: "?P c"
      and s: "map_step this_val x c = Some (out, r')" for x c out r'
  proof -
    obtain m where c: "c = open_res m" "hm_inv m" "hm_load m" using c by blast
    show ?thesis
      by (rule map_step_load [of m "hm_map m" x this_val out]) (use c x s assms(2) in \<open>auto simp: map_holds_def\<close>)
  qed
  ultimately have "?P r'" using impl_run_invariant [of ops ?P "map_step this_val" r outs r'] assms(3) by blast
  then show ?thesis unfolding hm_inv_def hm_load_def by blast
qed

theorem hashmap_load_bounded_witness:
  "\<exists>outs m k. impl_run (map_step JNull) [HSet [7] JNull \<lparr>al_grow = True, al_entry = True, al_key = True\<rparr>]
      (open_res \<lparr>hm_buckets = replicate 16 [], hm_count = 0\<rparr>) = Some (outs, open_res m) \<and>
    hm_n_buckets m = 2 ^ k \<and> (4 * length (hm_entries m) \<le> 3 * hm_n_buckets m \<or> hm_n_buckets m = 2 ^ 31)"
proof -
  let ?op = "HSet [7] JNull \<lparr>al_grow = True, al_entry = True, al_key = True\<rparr>"
  let ?r = "open_res \<lparr>hm_buckets = replicate 16 [], hm_count = 0\<rparr>"
  have r: "dyn_hashmap_ctor True True = Inr ?r" by (simp add: dyn_hashmap_ctor_def DYN_MAP_INIT_BUCKETS_def)
  obtain outs r' where run: "impl_run (map_step JNull) [?op] ?r = Some (outs, r')"
    using hmap.run_sim [OF fresh_map(1) [OF r], of JNull "[?op]"] by blast
  from hashmap_load_bounded [OF r _ run] run show ?thesis by auto
qed

end
