(* ===== verification/Dyna_Semver.thy ===== *)
theory Dyna_Semver
  imports Dyna_Prelude "HOL-Library.Product_Lexorder"
begin

text \<open>
  Versions of \<^verbatim>\<open>src/src/dyna-semver.c\<close>: the strict SemVer 2.0.0 parser, the precedence
  comparison and the printer. A span \<open>[s, s + n)\<close> of the C code is a string; advancing an index
  \<open>i\<close> is dropping a prefix. A \<open>uint64_t\<close> field is a natural number, wrapped where the code
  computes on it; \<open>n_pre\<close> and \<open>n_build\<close> are the lengths of the identifier lists.
\<close>

section \<open>Data\<close>

definition SV_MAX_SAFE :: nat where
  "SV_MAX_SAFE = 9007199254740991"

definition SEMVER_MAX_IDS :: nat where
  "SEMVER_MAX_IDS = 24"

record semver_id =
  id_s :: string
  id_numeric :: bool

record semver =
  sv_major :: nat
  sv_minor :: nat
  sv_patch :: nat
  sv_pre :: "semver_id list"
  sv_build :: "semver_id list"

section \<open>Parsing and printing\<close>

fun u64_digits :: "nat \<Rightarrow> string" where
  "u64_digits v = (if v = 0 then [] else dig_chr (v mod 10) # u64_digits (v div 10))"

declare u64_digits.simps [simp del]

definition sv_u64toa :: "nat \<Rightarrow> string" where
  "sv_u64toa v = (if v = 0 then ''0'' else rev (u64_digits v))"

fun sv_num_loop :: "nat \<Rightarrow> string \<Rightarrow> nat option" where
  "sv_num_loop v [] = Some v"
| "sv_num_loop v (c # cs) = (if \<not> is_dig c then None else sv_num_loop (u64 (v * 10 + dig_val c)) cs)"

definition sv_parse_num :: "string \<Rightarrow> nat option" where
  "sv_parse_num s =
     (if length s = 0 \<or> length s > 16 then None
      else if length s > 1 \<and> hd s = CHR ''0'' then None
      else (case sv_num_loop 0 s of
              None \<Rightarrow> None
            | Some v \<Rightarrow> if v > SV_MAX_SAFE then None else Some v))"

definition sv_id_letter :: "char \<Rightarrow> bool" where
  "sv_id_letter c \<longleftrightarrow>
     chr_between (CHR ''a'') (CHR ''z'') c \<or> chr_between (CHR ''A'') (CHR ''Z'') c \<or> c = CHR ''-''"

text \<open>The character loop over one identifier: \<open>None\<close> on an invalid one, else \<open>alldig\<close>.\<close>

fun sv_scan_id :: "bool \<Rightarrow> string \<Rightarrow> bool option" where
  "sv_scan_id alldig [] = Some alldig"
| "sv_scan_id alldig (c # cs) =
     (if is_dig c then sv_scan_id alldig cs
      else if sv_id_letter c then sv_scan_id False cs
      else None)"

definition sv_add_id :: "bool \<Rightarrow> semver_id list \<Rightarrow> string \<Rightarrow> semver_id list option" where
  "sv_add_id is_build ids x =
     (if length x = 0 then None
      else if length ids \<ge> SEMVER_MAX_IDS then None
      else (case sv_scan_id True x of
              None \<Rightarrow> None
            | Some alldig \<Rightarrow>
                if \<not> is_build \<and> alldig \<and> length x > 1 \<and> hd x = CHR ''0'' then None
                else Some (ids @ [\<lparr>id_s = x, id_numeric = alldig\<rparr>])))"

fun sv_ids_loop :: "bool \<Rightarrow> semver_id list \<Rightarrow> string \<Rightarrow> string \<Rightarrow> semver_id list option" where
  "sv_ids_loop is_build ids cur [] = sv_add_id is_build ids cur"
| "sv_ids_loop is_build ids cur (c # cs) =
     (if c = CHR ''.'' then
        (case sv_add_id is_build ids cur of
           None \<Rightarrow> None
         | Some ids' \<Rightarrow> sv_ids_loop is_build ids' [] cs)
      else sv_ids_loop is_build ids (cur @ [c]) cs)"

definition sv_parse_ids :: "string \<Rightarrow> bool \<Rightarrow> semver_id list option" where
  "sv_parse_ids s is_build = sv_ids_loop is_build [] [] s"

text \<open>One numeric field and what follows it.\<close>

definition sv_field :: "string \<Rightarrow> (nat \<times> string) option" where
  "sv_field s =
     map_option (\<lambda>v. (v, dropWhile is_dig s)) (sv_parse_num (takeWhile is_dig s))"

definition sv_dot :: "string \<Rightarrow> string option" where
  "sv_dot s = (if s = [] \<or> hd s \<noteq> CHR ''.'' then None else Some (tl s))"

text \<open>The optional prerelease, then the optional build metadata, to the end of the input.\<close>

definition sv_opt_pre :: "string \<Rightarrow> (semver_id list \<times> string) option" where
  "sv_opt_pre s =
     (if s \<noteq> [] \<and> hd s = CHR ''-'' then
        map_option (\<lambda>ids. (ids, dropWhile (\<lambda>c. c \<noteq> CHR ''+'') (tl s)))
          (sv_parse_ids (takeWhile (\<lambda>c. c \<noteq> CHR ''+'') (tl s)) False)
      else Some ([], s))"

definition sv_opt_build :: "string \<Rightarrow> (semver_id list \<times> string) option" where
  "sv_opt_build s =
     (if s \<noteq> [] \<and> hd s = CHR ''+'' then map_option (\<lambda>ids. (ids, [])) (sv_parse_ids (tl s) True)
      else Some ([], s))"

definition semver_parse :: "string \<Rightarrow> semver option" where
  "semver_parse s = do {
     (major, s1) \<leftarrow> sv_field s;
     s2 \<leftarrow> sv_dot s1;
     (minor, s3) \<leftarrow> sv_field s2;
     s4 \<leftarrow> sv_dot s3;
     (patch, s5) \<leftarrow> sv_field s4;
     (pre, s6) \<leftarrow> sv_opt_pre s5;
     (build, s7) \<leftarrow> sv_opt_build s6;
     if s7 = []
     then Some \<lparr>sv_major = major, sv_minor = minor, sv_patch = patch, sv_pre = pre, sv_build = build\<rparr>
     else None }"

fun sv_join :: "semver_id list \<Rightarrow> string" where
  "sv_join [] = []"
| "sv_join [i] = id_s i"
| "sv_join (i # j # is) = id_s i @ CHR ''.'' # sv_join (j # is)"

definition sv_build_version :: "semver \<Rightarrow> string" where
  "sv_build_version v =
     sv_u64toa (sv_major v) @ CHR ''.'' # sv_u64toa (sv_minor v) @ CHR ''.'' # sv_u64toa (sv_patch v) @
     (if sv_pre v \<noteq> [] then CHR ''-'' # sv_join (sv_pre v) else [])"

section \<open>Precedence\<close>

text \<open>The sign of \<open>memcmp\<close> on the first \<open>n\<close> bytes.\<close>

fun memcmp :: "string \<Rightarrow> string \<Rightarrow> nat \<Rightarrow> int" where
  "memcmp (a # as) (b # bs) (Suc n) = (if a < b then -1 else if b < a then 1 else memcmp as bs n)"
| "memcmp _ _ _ = 0"

fun sv_skip_zeros :: "string \<Rightarrow> string" where
  "sv_skip_zeros (c # d # cs) = (if c = CHR ''0'' then sv_skip_zeros (d # cs) else c # d # cs)"
| "sv_skip_zeros s = s"

definition sv_cmp_num :: "string \<Rightarrow> string \<Rightarrow> int" where
  "sv_cmp_num a b =
     (let a' = sv_skip_zeros a; b' = sv_skip_zeros b
      in if length a' \<noteq> length b' then (if length a' < length b' then -1 else 1)
         else sgn (memcmp a' b' (length a')))"

definition sv_cmp_id :: "semver_id \<Rightarrow> semver_id \<Rightarrow> int" where
  "sv_cmp_id a b =
     (if id_numeric a \<and> id_numeric b then sv_cmp_num (id_s a) (id_s b)
      else if id_numeric a then -1
      else if id_numeric b then 1
      else
        (let m = (if length (id_s a) < length (id_s b) then length (id_s a) else length (id_s b));
             c = memcmp (id_s a) (id_s b) m
         in if c \<noteq> 0 then (if c < 0 then -1 else 1)
            else if length (id_s a) \<noteq> length (id_s b)
                 then (if length (id_s a) < length (id_s b) then -1 else 1)
            else 0))"

fun sv_cmp_pre :: "semver_id list \<Rightarrow> semver_id list \<Rightarrow> int" where
  "sv_cmp_pre (a # as) (b # bs) = (let c = sv_cmp_id a b in if c \<noteq> 0 then c else sv_cmp_pre as bs)"
| "sv_cmp_pre [] [] = 0"
| "sv_cmp_pre [] (b # bs) = -1"
| "sv_cmp_pre (a # as) [] = 1"

definition semver_compare :: "semver \<Rightarrow> semver \<Rightarrow> int" where
  "semver_compare a b =
     (if sv_major a \<noteq> sv_major b then (if sv_major a < sv_major b then -1 else 1)
      else if sv_minor a \<noteq> sv_minor b then (if sv_minor a < sv_minor b then -1 else 1)
      else if sv_patch a \<noteq> sv_patch b then (if sv_patch a < sv_patch b then -1 else 1)
      else if sv_pre a = [] \<and> sv_pre b = [] then 0
      else if sv_pre a = [] then 1
      else if sv_pre b = [] then -1
      else sv_cmp_pre (sv_pre a) (sv_pre b))"

section \<open>Numbers and identifiers\<close>

lemma u64_digits_dec_str: "0 < v \<Longrightarrow> rev (u64_digits v) = dec_str v"
proof (induction v rule: less_induct)
  case (less v)
  show ?case
  proof (cases "v < 10")
    case True
    then show ?thesis using less.prems
      by (simp add: u64_digits.simps [of v] u64_digits.simps [of 0] dec_str.simps [of v])
  next
    case False
    then show ?thesis using less.IH [of "v div 10"] less.prems
      by (simp add: u64_digits.simps [of v] dec_str.simps [of v])
  qed
qed

lemma sv_u64toa_dec_str: "sv_u64toa v = dec_str v"
  using u64_digits_dec_str [of v] by (auto simp: sv_u64toa_def dec_str.simps [of 0])

lemma sv_num_loop_None: "\<not> list_all is_dig s \<Longrightarrow> sv_num_loop v s = None"
  by (induction s arbitrary: v) auto

lemma sv_num_loop_val:
  "list_all is_dig s \<Longrightarrow> v < 10 ^ k \<Longrightarrow> k + length s \<le> 19 \<Longrightarrow>
     sv_num_loop v s = Some (v * 10 ^ length s + dec_val s)"
proof (induction s arbitrary: v k)
  case (Cons c cs)
  have d: "dig_val c < 10" using Cons.prems dig_val_less by simp
  have lt: "v * 10 + dig_val c < 10 ^ Suc k" using d Cons.prems(2) by simp
  have "(10 :: nat) ^ Suc k \<le> 10 ^ 19" using Cons.prems(3) by (intro power_increasing) simp_all
  then have "v * 10 + dig_val c < 2 ^ 64" using lt by simp
  then have "sv_num_loop v (c # cs) = sv_num_loop (v * 10 + dig_val c) cs"
    using Cons.prems(1) by (simp add: u64_def)
  with Cons.IH [of "v * 10 + dig_val c" "Suc k"] lt Cons.prems show ?case
    by (simp add: dec_val_Cons algebra_simps)
qed simp

lemma max_safe_digits:
  assumes "strict_num s" "dec_val s \<le> SV_MAX_SAFE"
  shows "length s \<le> 16"
proof (rule ccontr)
  assume "\<not> length s \<le> 16"
  then obtain c cs where s: "s = c # cs" "16 \<le> length cs" by (cases s) auto
  then have "c \<noteq> CHR ''0''" "is_dig c" using assms(1) by (auto simp: strict_num_def)
  then have "1 \<le> dig_val c" by (metis dig_chr_0 dig_chr_val less_one not_le)
  have "(10 :: nat) ^ 16 \<le> 10 ^ length cs" using s(2) by (intro power_increasing) simp_all
  also have "\<dots> \<le> dig_val c * 10 ^ length cs" using \<open>1 \<le> dig_val c\<close> by simp
  finally show False using assms(2) s by (simp add: dec_val_Cons SV_MAX_SAFE_def)
qed

lemma sv_parse_num_iff:
  "sv_parse_num s = Some v \<longleftrightarrow> s = dec_str v \<and> v \<le> SV_MAX_SAFE"
proof
  assume p: "sv_parse_num s = Some v"
  then have len: "s \<noteq> []" "length s \<le> 16" "length s > 1 \<longrightarrow> hd s \<noteq> CHR ''0''"
    by (auto simp: sv_parse_num_def split: if_splits)
  have d: "list_all is_dig s" using p
    by (rule_tac ccontr) (auto simp: sv_parse_num_def sv_num_loop_None split: if_splits)
  then have "sv_num_loop 0 s = Some (dec_val s)" using sv_num_loop_val [of s 0 0] len by simp
  then have "v = dec_val s" "v \<le> SV_MAX_SAFE" using p by (auto simp: sv_parse_num_def split: if_splits)
  moreover have "strict_num s" using d len by (simp add: strict_num_def)
  ultimately show "s = dec_str v \<and> v \<le> SV_MAX_SAFE" by (simp add: dec_str_val)
next
  assume a: "s = dec_str v \<and> v \<le> SV_MAX_SAFE"
  then have st: "strict_num s" "dec_val s = v" by (auto simp: strict_num_dec_str)
  then have l: "length s \<le> 16" using max_safe_digits a by blast
  have "sv_num_loop 0 s = Some v"
    using sv_num_loop_val [of s 0 0] l st by (simp add: strict_num_def)
  then show "sv_parse_num s = Some v" using st l a by (auto simp: sv_parse_num_def strict_num_def)
qed

definition sv_id_chars :: "string \<Rightarrow> bool" where
  "sv_id_chars s \<longleftrightarrow> list_all (\<lambda>c. is_dig c \<or> sv_id_letter c) s"

text \<open>A well-formed identifier of a prerelease (\<open>b\<close> false) or of build metadata.\<close>

definition sv_id_ok :: "bool \<Rightarrow> semver_id \<Rightarrow> bool" where
  "sv_id_ok b i \<longleftrightarrow>
     id_s i \<noteq> [] \<and> sv_id_chars (id_s i) \<and> id_numeric i = list_all is_dig (id_s i) \<and>
     (\<not> b \<and> id_numeric i \<longrightarrow> strict_num (id_s i))"

lemma sv_scan_id_iff:
  "sv_scan_id a s = Some d \<longleftrightarrow> sv_id_chars s \<and> d = (a \<and> list_all is_dig s)"
  by (induction s arbitrary: a) (auto simp: sv_id_chars_def)

lemma sv_add_id_iff:
  "sv_add_id b ids x = Some ids' \<longleftrightarrow>
     length ids < SEMVER_MAX_IDS \<and>
     (\<exists>i. sv_id_ok b i \<and> id_s i = x \<and> ids' = ids @ [i])"
proof
  assume "sv_add_id b ids x = Some ids'"
  then show "length ids < SEMVER_MAX_IDS \<and> (\<exists>i. sv_id_ok b i \<and> id_s i = x \<and> ids' = ids @ [i])"
    by (auto simp: sv_add_id_def sv_id_ok_def strict_num_def sv_scan_id_iff not_le
        split: if_splits option.splits intro!: exI [of _ "\<lparr>id_s = x, id_numeric = list_all is_dig x\<rparr>"])
next
  assume "length ids < SEMVER_MAX_IDS \<and> (\<exists>i. sv_id_ok b i \<and> id_s i = x \<and> ids' = ids @ [i])"
  then obtain i where i: "length ids < SEMVER_MAX_IDS" "sv_id_ok b i" "id_s i = x" "ids' = ids @ [i]" by blast
  have "sv_scan_id True x = Some (id_numeric i)" using i by (auto simp: sv_scan_id_iff sv_id_ok_def)
  then show "sv_add_id b ids x = Some ids'" using i by (auto simp: sv_add_id_def sv_id_ok_def strict_num_def)
qed

lemma id_letter_no_sep: "sv_id_letter c \<or> is_dig c \<Longrightarrow> c \<noteq> CHR ''.'' \<and> c \<noteq> CHR ''+''"
  by (auto simp: sv_id_letter_def is_dig_def less_eq_char_def)

lemma sv_id_ok_no_sep:
  "sv_id_ok b i \<Longrightarrow> CHR ''.'' \<notin> set (id_s i) \<and> CHR ''+'' \<notin> set (id_s i)"
  using id_letter_no_sep by (fastforce simp: sv_id_ok_def sv_id_chars_def list_all_iff)

lemma sv_join_Cons: "sv_join (i # is) = id_s i @ (if is = [] then [] else CHR ''.'' # sv_join is)"
  by (cases "is") auto

lemma split_at_dot:
  assumes "CHR ''.'' \<notin> set a" "CHR ''.'' \<notin> set b"
  shows "a @ CHR ''.'' # x = b @ CHR ''.'' # y \<longleftrightarrow> a = b \<and> x = y"
  using assms
proof (induction a arbitrary: b)
  case Nil
  then show ?case by (cases b) auto
next
  case (Cons c a)
  then show ?case by (cases b) auto
qed

lemma sv_ids_loop_iff:
  assumes "CHR ''.'' \<notin> set cur"
  shows "sv_ids_loop b ids cur s = Some res \<longleftrightarrow>
    (\<exists>new. new \<noteq> [] \<and> res = ids @ new \<and> length res \<le> SEMVER_MAX_IDS \<and> list_all (sv_id_ok b) new \<and>
      cur @ s = sv_join new)"
  using assms
proof (induction s arbitrary: ids cur)
  case Nil
  show ?case
  proof
    assume "sv_ids_loop b ids cur [] = Some res"
    then obtain i where "length ids < SEMVER_MAX_IDS" "sv_id_ok b i" "id_s i = cur" "res = ids @ [i]"
      by (auto simp: sv_add_id_iff)
    then show "\<exists>new. new \<noteq> [] \<and> res = ids @ new \<and> length res \<le> SEMVER_MAX_IDS \<and> list_all (sv_id_ok b) new \<and>
      cur @ [] = sv_join new" by (intro exI [of _ "[i]"]) simp
  next
    assume "\<exists>new. new \<noteq> [] \<and> res = ids @ new \<and> length res \<le> SEMVER_MAX_IDS \<and> list_all (sv_id_ok b) new \<and>
      cur @ [] = sv_join new"
    then obtain i new where n: "res = ids @ i # new" "length res \<le> SEMVER_MAX_IDS" "sv_id_ok b i" "cur = sv_join (i # new)"
      by (metis append_Nil2 list.exhaust list.pred_inject(2))
    moreover have "new = []" using n(4) Nil by (auto simp: sv_join_Cons split: if_splits)
    ultimately show "sv_ids_loop b ids cur [] = Some res" by (auto simp: sv_add_id_iff)
  qed
next
  case (Cons c s)
  show ?case
  proof (cases "c = CHR ''.''")
    case False
    then show ?thesis using Cons.IH [of "cur @ [c]" ids] Cons.prems by simp
  next
    case True
    have split: "cur @ CHR ''.'' # s = sv_join (i # new) \<longleftrightarrow> id_s i = cur \<and> new \<noteq> [] \<and> s = sv_join new"
      if "sv_id_ok b i" for i new
    proof (cases "new = []")
      case True
      have "CHR ''.'' \<in> set (cur @ CHR ''.'' # s)" by simp
      then have "cur @ CHR ''.'' # s \<noteq> id_s i" using sv_id_ok_no_sep [OF that] by metis
      then show ?thesis using True by simp
    next
      case False
      then show ?thesis using split_at_dot [OF Cons.prems, of "id_s i" s "sv_join new"] sv_id_ok_no_sep [OF that]
        by (auto simp: sv_join_Cons)
    qed
    show ?thesis
    proof
      assume "sv_ids_loop b ids cur (c # s) = Some res"
      then obtain ids' where i: "sv_add_id b ids cur = Some ids'" "sv_ids_loop b ids' [] s = Some res"
        using True by (auto split: option.splits)
      then obtain i where i2: "sv_id_ok b i" "id_s i = cur" "ids' = ids @ [i]" by (auto simp: sv_add_id_iff)
      from Cons.IH [of "[]" ids'] i(2) obtain new where
        "new \<noteq> []" "res = ids' @ new" "length res \<le> SEMVER_MAX_IDS" "list_all (sv_id_ok b) new" "s = sv_join new"
        by auto
      then show "\<exists>new. new \<noteq> [] \<and> res = ids @ new \<and> length res \<le> SEMVER_MAX_IDS \<and>
          list_all (sv_id_ok b) new \<and> cur @ c # s = sv_join new"
        using i2 True split [OF i2(1), of new] by (intro exI [of _ "i # new"]) auto
    next
      assume "\<exists>new. new \<noteq> [] \<and> res = ids @ new \<and> length res \<le> SEMVER_MAX_IDS \<and>
          list_all (sv_id_ok b) new \<and> cur @ c # s = sv_join new"
      then obtain i new where n: "res = ids @ i # new" "length res \<le> SEMVER_MAX_IDS" "sv_id_ok b i"
        "list_all (sv_id_ok b) new" "cur @ c # s = sv_join (i # new)"
        by (metis list.exhaust list.pred_inject(2))
      then have s: "id_s i = cur" "new \<noteq> []" "s = sv_join new" using split [OF n(3), of new] True by auto
      have "sv_add_id b ids cur = Some (ids @ [i])" using n s by (auto simp: sv_add_id_iff)
      moreover have "sv_ids_loop b (ids @ [i]) [] s = Some res"
        using Cons.IH [of "[]" "ids @ [i]"] n s by auto
      ultimately show "sv_ids_loop b ids cur (c # s) = Some res" using True by simp
    qed
  qed
qed

lemma sv_parse_ids_iff:
  "sv_parse_ids s b = Some ids \<longleftrightarrow>
     ids \<noteq> [] \<and> length ids \<le> SEMVER_MAX_IDS \<and> list_all (sv_id_ok b) ids \<and> s = sv_join ids"
  using sv_ids_loop_iff [of "[]" b "[]" s ids] by (auto simp: sv_parse_ids_def)

section \<open>The parser accepts exactly the printed versions\<close>

definition sv_tail :: "semver_id list \<Rightarrow> semver_id list \<Rightarrow> string" where
  "sv_tail pre build =
     (if pre \<noteq> [] then CHR ''-'' # sv_join pre else []) @ (if build \<noteq> [] then CHR ''+'' # sv_join build else [])"

text \<open>The version with its build metadata.\<close>

definition sv_full :: "semver \<Rightarrow> string" where
  "sv_full v = sv_build_version v @ (if sv_build v \<noteq> [] then CHR ''+'' # sv_join (sv_build v) else [])"

definition sv_ids_ok :: "bool \<Rightarrow> semver_id list \<Rightarrow> bool" where
  "sv_ids_ok b ids \<longleftrightarrow> length ids \<le> SEMVER_MAX_IDS \<and> list_all (sv_id_ok b) ids"

definition sv_wf :: "semver \<Rightarrow> bool" where
  "sv_wf v \<longleftrightarrow>
     sv_major v \<le> SV_MAX_SAFE \<and> sv_minor v \<le> SV_MAX_SAFE \<and> sv_patch v \<le> SV_MAX_SAFE \<and>
     sv_ids_ok False (sv_pre v) \<and> sv_ids_ok True (sv_build v)"

lemma sv_field_iff:
  "sv_field s = Some (v, r) \<longleftrightarrow>
     s = dec_str v @ r \<and> v \<le> SV_MAX_SAFE \<and> (r = [] \<or> \<not> is_dig (hd r))"
proof
  assume "sv_field s = Some (v, r)"
  then have "sv_parse_num (takeWhile is_dig s) = Some v" and r: "r = dropWhile is_dig s"
    by (auto simp: sv_field_def)
  then show "s = dec_str v @ r \<and> v \<le> SV_MAX_SAFE \<and> (r = [] \<or> \<not> is_dig (hd r))"
    using takeWhile_dropWhile_id [of is_dig s] hd_dropWhile [of is_dig s]
    by (cases "dropWhile is_dig s = []") (simp_all add: sv_parse_num_iff)
next
  assume a: "s = dec_str v @ r \<and> v \<le> SV_MAX_SAFE \<and> (r = [] \<or> \<not> is_dig (hd r))"
  then have "takeWhile is_dig s = dec_str v" "dropWhile is_dig s = r"
    using takeWhile_append_stop [OF dec_str_digits] dropWhile_append_stop [OF dec_str_digits] by auto
  then show "sv_field s = Some (v, r)" using a by (simp add: sv_field_def sv_parse_num_iff)
qed

lemma sv_dot_iff: "sv_dot s = Some r \<longleftrightarrow> s = CHR ''.'' # r"
  by (cases s) (auto simp: sv_dot_def)

lemma sv_join_no_plus: "list_all (sv_id_ok b) ids \<Longrightarrow> list_all (\<lambda>c. c \<noteq> CHR ''+'') (sv_join ids)"
proof (induction ids)
  case (Cons i ids)
  then have "list_all (\<lambda>c. c \<noteq> CHR ''+'') (id_s i)" using sv_id_ok_no_sep [of b i] by (auto simp: list_all_iff)
  then show ?case using Cons by (auto simp: sv_join_Cons)
qed simp

lemma sv_opt_build_iff:
  "sv_opt_build s = Some (build, []) \<longleftrightarrow>
     s = (if build \<noteq> [] then CHR ''+'' # sv_join build else []) \<and> sv_ids_ok True build"
  by (cases s) (auto simp: sv_opt_build_def sv_parse_ids_iff sv_ids_ok_def SEMVER_MAX_IDS_def)

lemma sv_opt_pre_iff:
  assumes r: "r = [] \<or> hd r = CHR ''+''"
  shows "sv_opt_pre s = Some (pre, r) \<longleftrightarrow>
     s = (if pre \<noteq> [] then CHR ''-'' # sv_join pre else []) @ r \<and> sv_ids_ok False pre"
proof
  assume p: "sv_opt_pre s = Some (pre, r)"
  show "s = (if pre \<noteq> [] then CHR ''-'' # sv_join pre else []) @ r \<and> sv_ids_ok False pre"
  proof (cases "s \<noteq> [] \<and> hd s = CHR ''-''")
    case True
    let ?t = "tl s"
    have "sv_parse_ids (takeWhile (\<lambda>c. c \<noteq> CHR ''+'') ?t) False = Some pre" "r = dropWhile (\<lambda>c. c \<noteq> CHR ''+'') ?t"
      using p True by (auto simp: sv_opt_pre_def)
    moreover have "s = CHR ''-'' # ?t" using True by (cases s) auto
    ultimately show ?thesis using takeWhile_dropWhile_id [of "\<lambda>c. c \<noteq> CHR ''+''" ?t]
      by (auto simp: sv_parse_ids_iff sv_ids_ok_def)
  next
    case False
    then show ?thesis using p by (auto simp: sv_opt_pre_def sv_ids_ok_def split: if_splits)
  qed
next
  assume a: "s = (if pre \<noteq> [] then CHR ''-'' # sv_join pre else []) @ r \<and> sv_ids_ok False pre"
  show "sv_opt_pre s = Some (pre, r)"
  proof (cases "pre = []")
    case True
    then show ?thesis using a r by (auto simp: sv_opt_pre_def)
  next
    case False
    let ?P = "\<lambda>c. c \<noteq> CHR ''+''"
    have j: "list_all ?P (sv_join pre)" using a sv_join_no_plus by (auto simp: sv_ids_ok_def)
    have "takeWhile ?P (sv_join pre @ r) = sv_join pre" "dropWhile ?P (sv_join pre @ r) = r"
      using takeWhile_append_stop [OF j] dropWhile_append_stop [OF j] r by auto
    then show ?thesis using a False by (simp add: sv_opt_pre_def sv_parse_ids_iff sv_ids_ok_def)
  qed
qed

lemma sv_tail_hd: "sv_tail pre build = [] \<or> \<not> is_dig (hd (sv_tail pre build))"
  by (auto simp: sv_tail_def is_dig_def less_eq_char_def)

lemma sv_opt_build_rest:
  "sv_opt_build s = Some (build, r) \<Longrightarrow> r = [] \<Longrightarrow> s = [] \<or> hd s = CHR ''+''"
  by (auto simp: sv_opt_build_def split: if_splits)

lemma sv_full_tail:
  "sv_full v = dec_str (sv_major v) @ CHR ''.'' # dec_str (sv_minor v) @ CHR ''.'' # dec_str (sv_patch v) @
     sv_tail (sv_pre v) (sv_build v)"
  by (simp add: sv_full_def sv_build_version_def sv_tail_def sv_u64toa_dec_str)

lemma semver_parse_sound:
  assumes "semver_parse s = Some v"
  shows "sv_wf v \<and> s = sv_full v"
proof -
  from assms obtain M s1 s2 m s3 s4 p s5 pre s6 build where
    f: "sv_field s = Some (M, s1)" "sv_dot s1 = Some s2" "sv_field s2 = Some (m, s3)" "sv_dot s3 = Some s4"
      "sv_field s4 = Some (p, s5)" "sv_opt_pre s5 = Some (pre, s6)" "sv_opt_build s6 = Some (build, [])"
    and v: "v = \<lparr>sv_major = M, sv_minor = m, sv_patch = p, sv_pre = pre, sv_build = build\<rparr>"
    unfolding semver_parse_def by (auto simp: bind_eq_Some_conv split: if_splits)
  have "s6 = [] \<or> hd s6 = CHR ''+''" using sv_opt_build_rest [OF f(7)] by simp
  then have "s5 = (if pre \<noteq> [] then CHR ''-'' # sv_join pre else []) @ s6" "sv_ids_ok False pre"
    using f(6) sv_opt_pre_iff by blast+
  moreover have "s6 = (if build \<noteq> [] then CHR ''+'' # sv_join build else [])" "sv_ids_ok True build"
    using f(7) sv_opt_build_iff by blast+
  ultimately show ?thesis using f(1-5) v
    by (auto simp: sv_field_iff sv_dot_iff sv_wf_def sv_full_tail sv_tail_def)
qed

lemma semver_parse_complete:
  assumes "sv_wf v"
  shows "semver_parse (sv_full v) = Some v"
proof -
  let ?b = "if sv_build v \<noteq> [] then CHR ''+'' # sv_join (sv_build v) else []"
  let ?t = "sv_tail (sv_pre v) (sv_build v)"
  have t: "sv_opt_pre ?t = Some (sv_pre v, ?b)" "sv_opt_build ?b = Some (sv_build v, [])"
    using assms sv_opt_pre_iff [of ?b ?t "sv_pre v"] sv_opt_build_iff [of ?b "sv_build v"]
    by (auto simp: sv_tail_def sv_wf_def)
  have dot: "\<not> is_dig (CHR ''.'')" by (simp add: is_dig_def less_eq_char_def)
  have b: "sv_major v \<le> SV_MAX_SAFE" "sv_minor v \<le> SV_MAX_SAFE" "sv_patch v \<le> SV_MAX_SAFE"
    using assms by (auto simp: sv_wf_def)
  have "sv_field (dec_str (sv_patch v) @ ?t) = Some (sv_patch v, ?t)"
    using b sv_tail_hd by (auto simp: sv_field_iff)
  moreover have "sv_field (dec_str n @ CHR ''.'' # x) = Some (n, CHR ''.'' # x)" if "n \<le> SV_MAX_SAFE" for n x
    using that dot by (simp add: sv_field_iff)
  ultimately show ?thesis unfolding sv_full_tail semver_parse_def using t b
    by (simp add: sv_dot_def)
qed

text \<open>
  C5. The version parser accepts exactly the strict SemVer texts, and is the inverse of printing:
  it succeeds on \<open>s\<close> with \<open>v\<close> if and only if \<open>v\<close> is well formed (numbers up to
  \<open>MAX_SAFE_INTEGER\<close>, at most 24 identifiers a list, valid characters, no leading zeros where
  they are forbidden) and \<open>s\<close> is the text of \<open>v\<close> with its build metadata.
\<close>

theorem semver_parse_iff: "semver_parse s = Some v \<longleftrightarrow> sv_wf v \<and> s = sv_full v"
  using semver_parse_sound semver_parse_complete by blast

section \<open>Precedence is the order of section 11\<close>

lemma sv_skip_zeros_ok:
  "s \<noteq> [] \<Longrightarrow> list_all is_dig s \<Longrightarrow> strict_num (sv_skip_zeros s) \<and> dec_val (sv_skip_zeros s) = dec_val s"
proof (induction s rule: sv_skip_zeros.induct)
  case (1 c d cs)
  have "dig_val (CHR ''0'') = 0" by (simp add: dig_val_def)
  then show ?case using 1 by (auto simp: strict_num_def dec_val_Cons [of "CHR ''0''"])
qed (auto simp: strict_num_def)

lemma dig_val_less_iff: "is_dig a \<Longrightarrow> is_dig b \<Longrightarrow> dig_val a < dig_val b \<longleftrightarrow> a < b"
  by (auto simp: is_dig_iff dig_val_def less_char_def)

lemma dig_digits_less:
  assumes "dig_val a < dig_val b" "list_all is_dig as" "length as = length bs"
  shows "dec_val (a # as) < dec_val (b # bs)"
proof -
  have "dec_val as < 10 ^ length as" using assms(2) by (rule dec_val_bound)
  moreover have "(dig_val a + 1) * 10 ^ length as \<le> dig_val b * 10 ^ length as"
    using assms(1) by (intro mult_right_mono) auto
  ultimately show ?thesis using assms(3) by (simp add: dec_val_Cons)
qed

lemma memcmp_digits:
  "list_all is_dig a \<Longrightarrow> list_all is_dig b \<Longrightarrow> length a = length b \<Longrightarrow>
     memcmp a b (length a) = ord_sign (dec_val a) (dec_val b)"
proof (induction a arbitrary: b)
  case (Cons x a)
  then obtain y b' where b: "b = y # b'" by (cases b) auto
  have d: "is_dig x" "is_dig y" using Cons.prems b by auto
  consider "x < y" | "y < x" | "x = y" by (meson linorder_neqE)
  then show ?case
  proof cases
    case 1
    then have "dec_val (x # a) < dec_val b"
      using dig_digits_less [of x y a b'] dig_val_less_iff [OF d] Cons.prems b by simp
    then show ?thesis using 1 b by (simp add: ord_sign_def)
  next
    case 2
    then have "dec_val b < dec_val (x # a)"
      using dig_digits_less [of y x b' a] dig_val_less_iff [OF d(2,1)] Cons.prems b by simp
    then show ?thesis using 2 b by (simp add: ord_sign_def)
  next
    case 3
    then show ?thesis using Cons b by (simp add: dec_val_Cons ord_sign_def)
  qed
qed simp

lemma strict_shorter_less:
  assumes "strict_num a" "strict_num b" "length a < length b"
  shows "dec_val a < dec_val b"
proof -
  obtain c cs where b: "b = c # cs" using assms(3) by (cases b) auto
  have "c \<noteq> CHR ''0''" "is_dig c" using assms b by (auto simp: strict_num_def)
  then have "1 \<le> dig_val c" by (metis dig_chr_0 dig_chr_val less_one not_le)
  have "dec_val a < 10 ^ length a" using assms(1) by (auto simp: strict_num_def intro: dec_val_bound)
  also have "\<dots> \<le> 10 ^ length cs" using assms(3) b by (intro power_increasing) auto
  also have "\<dots> \<le> dig_val c * 10 ^ length cs" using \<open>1 \<le> dig_val c\<close> by simp
  also have "\<dots> \<le> dec_val b" by (simp add: b dec_val_Cons)
  finally show ?thesis .
qed

lemma sv_cmp_num_val:
  assumes "a \<noteq> []" "list_all is_dig a" "b \<noteq> []" "list_all is_dig b"
  shows "sv_cmp_num a b = ord_sign (dec_val a) (dec_val b)"
proof -
  let ?a = "sv_skip_zeros a" and ?b = "sv_skip_zeros b"
  have s: "strict_num ?a" "strict_num ?b" "dec_val ?a = dec_val a" "dec_val ?b = dec_val b"
    using sv_skip_zeros_ok assms by auto
  consider "length ?a < length ?b" | "length ?b < length ?a" | "length ?a = length ?b" by linarith
  then show ?thesis
  proof cases
    case 1
    then show ?thesis using strict_shorter_less [of ?a ?b] s by (simp add: sv_cmp_num_def ord_sign_def)
  next
    case 2
    then show ?thesis using strict_shorter_less [of ?b ?a] s by (simp add: sv_cmp_num_def ord_sign_def)
  next
    case 3
    then show ?thesis using memcmp_digits [of ?a ?b] s
      by (auto simp: sv_cmp_num_def strict_num_def ord_sign_def)
  qed
qed

lemma memcmp_string:
  "(let c = memcmp a b (min (length a) (length b))
    in if c \<noteq> 0 then (if c < 0 then -1 else 1)
       else if length a \<noteq> length b then (if length a < length b then -1 else 1) else 0)
   = ord_sign a b"
proof (induction a arbitrary: b)
  case Nil
  then show ?case by (cases b) (auto simp: ord_sign_def)
next
  case (Cons x a)
  show ?case
  proof (cases b)
    case Nil
    then show ?thesis by (simp add: ord_sign_def)
  next
    case (Cons y b')
    then show ?thesis using Cons.IH [of b'] by (auto simp: Let_def ord_sign_def split: if_splits)
  qed
qed

text \<open>Numeric identifiers by value and below all others; the others bytewise.\<close>

definition id_key :: "semver_id \<Rightarrow> bool \<times> nat \<times> string" where
  "id_key i = (if id_numeric i then (False, dec_val (id_s i), []) else (True, 0, id_s i))"

text \<open>Numbers first, then a release above its prereleases, then the identifiers in order.\<close>

definition sv_key :: "semver \<Rightarrow> nat \<times> nat \<times> nat \<times> bool \<times> (bool \<times> nat \<times> string) list" where
  "sv_key v = (sv_major v, sv_minor v, sv_patch v, sv_pre v = [], map id_key (sv_pre v))"

lemma sv_cmp_id_key:
  assumes "sv_id_ok x a" "sv_id_ok y b"
  shows "sv_cmp_id a b = ord_sign (id_key a) (id_key b)"
proof -
  have m: "(if length (id_s a) < length (id_s b) then length (id_s a) else length (id_s b)) =
      min (length (id_s a)) (length (id_s b))" by (simp add: min_def)
  show ?thesis
  proof (cases "id_numeric a \<or> id_numeric b")
    case True
    then show ?thesis using assms sv_cmp_num_val [of "id_s a" "id_s b"]
      by (auto simp: sv_cmp_id_def id_key_def sv_id_ok_def ord_sign_def)
  next
    case False
    have "sv_cmp_id a b = ord_sign (id_s a) (id_s b)"
      using memcmp_string [of "id_s a" "id_s b"] False by (simp add: sv_cmp_id_def m Let_def)
    then show ?thesis using False by (simp add: id_key_def ord_sign_def)
  qed
qed

lemma sv_cmp_pre_key:
  "list_all (sv_id_ok x) as \<Longrightarrow> list_all (sv_id_ok y) bs \<Longrightarrow>
     sv_cmp_pre as bs = ord_sign (map id_key as) (map id_key bs)"
proof (induction as bs rule: sv_cmp_pre.induct)
  case (1 a as b bs)
  have c: "sv_cmp_id a b = ord_sign (id_key a) (id_key b)" using 1 sv_cmp_id_key by auto
  consider "id_key a < id_key b" | "id_key b < id_key a" | "id_key a = id_key b" by (meson linorder_neqE)
  then show ?case
  proof cases
    case 3
    then show ?thesis using 1 c by (simp add: ord_sign_def)
  qed (auto simp: c ord_sign_def Let_def)
qed (auto simp: ord_sign_def)

lemma semver_compare_ord:
  assumes "sv_ids_ok x (sv_pre a)" "sv_ids_ok y (sv_pre b)"
  shows "semver_compare a b = ord_sign (sv_key a) (sv_key b)"
proof -
  have "sv_cmp_pre (sv_pre a) (sv_pre b) = ord_sign (map id_key (sv_pre a)) (map id_key (sv_pre b))"
    using assms sv_cmp_pre_key by (auto simp: sv_ids_ok_def)
  then show ?thesis by (auto simp: semver_compare_def sv_key_def ord_sign_def)
qed

definition sv_pre_ok :: "semver \<Rightarrow> bool" where
  "sv_pre_ok v \<longleftrightarrow> sv_ids_ok False (sv_pre v)"

interpretation sv_order: comparison semver_compare sv_pre_ok sv_key
  by unfold_locales (auto simp: sv_pre_ok_def semver_compare_ord)

text \<open>
  C14. Precedence of parsed versions is the one of SemVer 2.0.0, section 11: the result of
  \<open>compare\<close> is the sign of the lexicographic comparison of major, minor and patch, then a release
  above its prereleases, then the identifiers one by one (numeric ones by their value whatever
  their length, below all alphanumeric ones, which compare bytewise), a longer list being higher.
  In particular it is a total preorder, and build metadata does not matter.
\<close>

theorem semver_compare_precedence:
  assumes "semver_parse s = Some a" "semver_parse t = Some b"
  shows "semver_compare a b = ord_sign (sv_key a) (sv_key b) \<and> semver_compare a b = - semver_compare b a"
proof -
  have "sv_pre_ok a" "sv_pre_ok b" using assms semver_parse_sound by (auto simp: sv_pre_ok_def sv_wf_def)
  then show ?thesis using sv_order.cmp_key sv_order.cmp_antisym by blast
qed

text \<open>Evaluation of the parser and of the comparison on literals.\<close>

lemmas sv_eval = semver_parse_def sv_field_def sv_parse_num_def sv_dot_def sv_opt_pre_def sv_opt_build_def
  sv_parse_ids_def sv_add_id_def SEMVER_MAX_IDS_def SV_MAX_SAFE_def is_dig_def sv_id_letter_def dig_val_def
  less_eq_char_def u64_def semver_compare_def sv_cmp_id_def sv_cmp_num_def less_char_def Let_def

theorem semver_compare_precedence_witness:
  "\<exists>a b. semver_parse ''1.0.0-rc.10+b1'' = Some a \<and> semver_parse ''1.0.0-rc.9'' = Some b \<and>
     semver_compare a b = ord_sign (sv_key a) (sv_key b) \<and> semver_compare a b = 1"
proof -
  obtain a b where p: "semver_parse ''1.0.0-rc.10+b1'' = Some a" "semver_parse ''1.0.0-rc.9'' = Some b"
    and c: "semver_compare a b = 1" by (simp add: sv_eval)
  from semver_compare_precedence [OF p] p c show ?thesis by blast
qed

end
