(* ===== verification/Dyna_SemverRange.thy ===== *)
theory Dyna_SemverRange
  imports Dyna_Semver
begin

text \<open>
  Ranges of \<^verbatim>\<open>src/src/dyna-semver.c\<close>: comparator tokens with wildcards, the expansion of
  caret, tilde, x- and hyphen ranges into primitive comparators, the range parser and the tests.
  A comparator set is the list of its comparators and a range the list of its sets; the fixed
  capacities of the C arrays are the checked bounds 24 and 16.
\<close>

section \<open>Data\<close>

definition SV_MAX_SETS :: nat where
  "SV_MAX_SETS = 16"

definition SV_MAX_CMPS :: nat where
  "SV_MAX_CMPS = 24"

datatype sv_op = OP_LT | OP_LTE | OP_GT | OP_GTE | OP_EQ | OP_TILDE | OP_CARET

record xrange =
  x_anyM :: bool
  x_anym :: bool
  x_anyp :: bool
  x_M :: nat
  x_m :: nat
  x_p :: nat
  x_pre :: "semver_id list"

record sv_comparator =
  cp_op :: sv_op
  cp_v :: semver

type_synonym comp_set = "sv_comparator list"

section \<open>Expansion\<close>

text \<open>The synthetic prerelease \<open>-0\<close> of exclusive upper bounds.\<close>

definition SV_ZERO :: semver_id where
  "SV_ZERO = \<lparr>id_s = ''0'', id_numeric = True\<rparr>"

definition sv_add_cmp ::
    "comp_set \<Rightarrow> sv_op \<Rightarrow> nat \<Rightarrow> nat \<Rightarrow> nat \<Rightarrow> semver_id list \<Rightarrow> bool \<Rightarrow> comp_set option" where
  "sv_add_cmp cs op M m p pre add_zero =
     (if length cs \<ge> SV_MAX_CMPS then None
      else if \<not> add_zero \<and> length pre > SEMVER_MAX_IDS then None
      else Some (cs @ [\<lparr>cp_op = op,
             cp_v = \<lparr>sv_major = M, sv_minor = m, sv_patch = p,
                     sv_pre = (if add_zero then [SV_ZERO] else pre), sv_build = []\<rparr>\<rparr>]))"

text \<open>The token loop of \<open>parse_partial\<close>: at most three tokens, \<open>None\<close> standing for a wildcard.\<close>

definition tok_sep :: "char \<Rightarrow> bool" where
  "tok_sep c \<longleftrightarrow> c = CHR ''.'' \<or> c = CHR ''-'' \<or> c = CHR ''+''"

definition sv_token :: "string \<Rightarrow> nat option option" where
  "sv_token tk =
     (if length tk = 0 then None
      else if length tk = 1 \<and> (hd tk = CHR ''x'' \<or> hd tk = CHR ''X'' \<or> hd tk = CHR ''*'') then Some None
      else map_option Some (sv_parse_num tk))"

fun sv_tokens :: "nat \<Rightarrow> bool \<Rightarrow> string \<Rightarrow> (nat option list \<times> string) option" where
  "sv_tokens 0 first s = Some ([], s)"
| "sv_tokens (Suc k) first s =
     (if \<not> first \<and> \<not> (s \<noteq> [] \<and> hd s = CHR ''.'') then Some ([], s)
      else
        (let s' = (if first then s else tl s)
         in case sv_token (takeWhile (\<lambda>c. \<not> tok_sep c) s') of
              None \<Rightarrow> None
            | Some tok \<Rightarrow>
                map_option (\<lambda>(toks, r). (tok # toks, r))
                  (sv_tokens k False (dropWhile (\<lambda>c. \<not> tok_sep c) s'))))"

definition tok_any :: "nat option list \<Rightarrow> nat \<Rightarrow> bool" where
  "tok_any toks t \<longleftrightarrow> \<not> t < length toks \<or> toks ! t = None"

definition tok_num :: "nat option list \<Rightarrow> nat \<Rightarrow> nat" where
  "tok_num toks t = (if t < length toks then (case toks ! t of Some n \<Rightarrow> n | None \<Rightarrow> 0) else 0)"

definition toks_xrange :: "nat option list \<Rightarrow> xrange" where
  "toks_xrange toks =
     (let xM = tok_any toks 0; xm = (xM \<or> tok_any toks 1); xp = (xm \<or> tok_any toks 2)
      in \<lparr>x_anyM = xM, x_anym = xm, x_anyp = xp, x_M = (if xM then 0 else tok_num toks 0),
          x_m = tok_num toks 1, x_p = tok_num toks 2, x_pre = []\<rparr>)"

definition xany :: xrange where
  "xany = \<lparr>x_anyM = True, x_anym = True, x_anyp = True, x_M = 0, x_m = 0, x_p = 0, x_pre = []\<rparr>"

definition parse_partial :: "string \<Rightarrow> xrange option" where
  "parse_partial s0 =
     (let s = (if s0 \<noteq> [] \<and> hd s0 = CHR ''v'' then tl s0 else s0)
      in if s = [] then Some xany
         else do {
           (toks, r) \<leftarrow> sv_tokens 3 True s;
           let x = toks_xrange toks;
           if r \<noteq> [] \<and> (hd r = CHR ''-'' \<or> hd r = CHR ''+'') then
             (if length toks < 3 then None
              else do {
                (pre, r1) \<leftarrow> sv_opt_pre r;
                (_, r2) \<leftarrow> sv_opt_build r1;
                let concrete = (\<not> (x_anyM x \<or> x_anym x \<or> x_anyp x));
                if r2 = [] then Some (x\<lparr>x_pre := (if concrete then pre else [])\<rparr>) else None })
           else if r = [] then Some x else None })"

definition expand_caret :: "comp_set \<Rightarrow> xrange \<Rightarrow> comp_set option" where
  "expand_caret cs x =
     (if x_anyM x then sv_add_cmp cs OP_GTE 0 0 0 [] False
      else if x_anym x then do {
        cs \<leftarrow> sv_add_cmp cs OP_GTE (x_M x) 0 0 [] False;
        sv_add_cmp cs OP_LT (u64 (x_M x + 1)) 0 0 [] True }
      else if x_anyp x then do {
        cs \<leftarrow> sv_add_cmp cs OP_GTE (x_M x) (x_m x) 0 [] False;
        if x_M x = 0 then sv_add_cmp cs OP_LT (x_M x) (u64 (x_m x + 1)) 0 [] True
        else sv_add_cmp cs OP_LT (u64 (x_M x + 1)) 0 0 [] True }
      else do {
        cs \<leftarrow> sv_add_cmp cs OP_GTE (x_M x) (x_m x) (x_p x) (x_pre x) False;
        if x_M x \<noteq> 0 then sv_add_cmp cs OP_LT (u64 (x_M x + 1)) 0 0 [] True
        else if x_m x \<noteq> 0 then sv_add_cmp cs OP_LT (x_M x) (u64 (x_m x + 1)) 0 [] True
        else sv_add_cmp cs OP_LT (x_M x) (x_m x) (u64 (x_p x + 1)) [] True })"

definition expand_tilde :: "comp_set \<Rightarrow> xrange \<Rightarrow> comp_set option" where
  "expand_tilde cs x =
     (if x_anyM x then sv_add_cmp cs OP_GTE 0 0 0 [] False
      else if x_anym x then do {
        cs \<leftarrow> sv_add_cmp cs OP_GTE (x_M x) 0 0 [] False;
        sv_add_cmp cs OP_LT (u64 (x_M x + 1)) 0 0 [] True }
      else do {
        cs \<leftarrow> sv_add_cmp cs OP_GTE (x_M x) (x_m x) (if x_anyp x then 0 else x_p x)
               (if x_anyp x then [] else x_pre x) False;
        sv_add_cmp cs OP_LT (x_M x) (u64 (x_m x + 1)) 0 [] True })"

definition expand_op :: "comp_set \<Rightarrow> sv_op \<Rightarrow> xrange \<Rightarrow> comp_set option" where
  "expand_op cs op x =
     (if \<not> (x_anyM x \<or> x_anym x \<or> x_anyp x) then
        sv_add_cmp cs op (x_M x) (x_m x) (x_p x) (x_pre x) False
      else if x_anyM x then
        (if op = OP_GT \<or> op = OP_LT then sv_add_cmp cs OP_LT 0 0 0 [] True
         else sv_add_cmp cs OP_GTE 0 0 0 [] False)
      else if op = OP_EQ then
        (if x_anym x then do {
           cs \<leftarrow> sv_add_cmp cs OP_GTE (x_M x) 0 0 [] False;
           sv_add_cmp cs OP_LT (u64 (x_M x + 1)) 0 0 [] True }
         else do {
           cs \<leftarrow> sv_add_cmp cs OP_GTE (x_M x) (x_m x) 0 [] False;
           sv_add_cmp cs OP_LT (x_M x) (u64 (x_m x + 1)) 0 [] True })
      else
        (let M = x_M x; m = (if x_anym x then 0 else x_m x)
         in case op of
              OP_GT \<Rightarrow> if x_anym x then sv_add_cmp cs OP_GTE (u64 (M + 1)) 0 0 [] False
                       else sv_add_cmp cs OP_GTE M (u64 (m + 1)) 0 [] False
            | OP_LTE \<Rightarrow> if x_anym x then sv_add_cmp cs OP_LT (u64 (M + 1)) 0 0 [] True
                        else sv_add_cmp cs OP_LT M (u64 (m + 1)) 0 [] True
            | OP_GTE \<Rightarrow> sv_add_cmp cs OP_GTE M m 0 [] False
            | OP_LT \<Rightarrow> sv_add_cmp cs OP_LT M m 0 [] True
            | _ \<Rightarrow> None))"

definition expand_hyphen :: "comp_set \<Rightarrow> xrange \<Rightarrow> xrange \<Rightarrow> comp_set option" where
  "expand_hyphen cs from to = do {
     cs \<leftarrow> (if x_anyM from then Some cs
            else if x_anym from then sv_add_cmp cs OP_GTE (x_M from) 0 0 [] False
            else if x_anyp from then sv_add_cmp cs OP_GTE (x_M from) (x_m from) 0 [] False
            else sv_add_cmp cs OP_GTE (x_M from) (x_m from) (x_p from) (x_pre from) False);
     if x_anyM to then Some cs
     else if x_anym to then sv_add_cmp cs OP_LT (u64 (x_M to + 1)) 0 0 [] True
     else if x_anyp to then sv_add_cmp cs OP_LT (x_M to) (u64 (x_m to + 1)) 0 [] True
     else if x_pre to \<noteq> [] then sv_add_cmp cs OP_LTE (x_M to) (x_m to) (x_p to) (x_pre to) False
     else sv_add_cmp cs OP_LTE (x_M to) (x_m to) (x_p to) [] False }"

section \<open>Parsing\<close>

definition sv_is_space :: "char \<Rightarrow> bool" where
  "sv_is_space c \<longleftrightarrow> c = CHR '' '' \<or> c = CHR 0x09"

definition sv_rtrim :: "string \<Rightarrow> string" where
  "sv_rtrim s = rev (dropWhile sv_is_space (rev s))"

definition sv_find_hyphen :: "string \<Rightarrow> nat option" where
  "sv_find_hyphen s =
     List.find (\<lambda>k. s ! k = CHR ''-'' \<and> sv_is_space (s ! (k - 1)) \<and> sv_is_space (s ! (k + 1)))
       [1 ..< length s - 1]"

definition sv_op_char :: "char \<Rightarrow> bool" where
  "sv_op_char c \<longleftrightarrow> c = CHR ''<'' \<or> c = CHR ''>'' \<or> c = CHR ''='' \<or> c = CHR ''~'' \<or> c = CHR ''^''"

definition sv_operator :: "string \<Rightarrow> sv_op option" where
  "sv_operator o' =
     (if o' = '''' then Some OP_EQ
      else if o' = ''='' then Some OP_EQ
      else if o' = ''>'' then Some OP_GT
      else if o' = ''<'' then Some OP_LT
      else if o' = ''~'' then Some OP_TILDE
      else if o' = ''^'' then Some OP_CARET
      else if o' = ''>='' then Some OP_GTE
      else if o' = ''<='' then Some OP_LTE
      else if o' = ''~>'' then Some OP_TILDE
      else None)"

definition expand_cmp :: "comp_set \<Rightarrow> sv_op \<Rightarrow> xrange \<Rightarrow> comp_set option" where
  "expand_cmp cs op x =
     (if op = OP_CARET then expand_caret cs x
      else if op = OP_TILDE then expand_tilde cs x
      else expand_op cs op x)"

lemma length_dropWhile_less:
  "takeWhile P s \<noteq> [] \<Longrightarrow> length (dropWhile P s) < length s"
  by (cases s) (auto simp: le_imp_less_Suc length_dropWhile_le split: if_splits)

function sv_comps :: "comp_set \<Rightarrow> string \<Rightarrow> comp_set option" where
  "sv_comps cs s0 =
     (let s = dropWhile sv_is_space s0
      in if s = [] then Some cs
         else
           (let s2 = dropWhile sv_is_space (dropWhile sv_op_char s);
                ver = takeWhile (\<lambda>c. \<not> sv_is_space c) s2
            in case sv_operator (takeWhile sv_op_char s) of
                 None \<Rightarrow> None
               | Some op \<Rightarrow>
                   if ver = [] then None
                   else
                     (case parse_partial ver of
                        None \<Rightarrow> None
                      | Some x \<Rightarrow>
                          (case expand_cmp cs op x of
                             None \<Rightarrow> None
                           | Some cs' \<Rightarrow> sv_comps cs' (dropWhile (\<lambda>c. \<not> sv_is_space c) s2)))))"
  by pat_completeness auto
termination
proof (relation "measure (\<lambda>(cs, s). length s)", goal_cases)
  case (2 cs s0 s s2 ver op x cs')
  have "length (dropWhile (\<lambda>c. \<not> sv_is_space c) s2) < length s2"
    using length_dropWhile_less 2 by metis
  also have "\<dots> \<le> length s0" using 2 by (simp add: le_trans [OF length_dropWhile_le] length_dropWhile_le)
  finally show ?case by simp
qed simp

declare sv_comps.simps [simp del]

definition parse_set :: "string \<Rightarrow> comp_set option" where
  "parse_set s0 =
     (let s = sv_rtrim (dropWhile sv_is_space s0)
      in if s = [] then Some []
         else
           (case sv_find_hyphen s of
              Some k \<Rightarrow> do {
                xf \<leftarrow> parse_partial (sv_rtrim (take k s));
                xt \<leftarrow> parse_partial (dropWhile sv_is_space (drop (k + 1) s));
                expand_hyphen [] xf xt }
            | None \<Rightarrow> sv_comps [] s))"

text \<open>The text up to the first \<open>||\<close>, and what follows it.\<close>

fun sv_split_or :: "string \<Rightarrow> string \<times> string option" where
  "sv_split_or [] = ([], None)"
| "sv_split_or [c] = ([c], None)"
| "sv_split_or (c # d # s) =
     (if c = CHR ''|'' \<and> d = CHR ''|'' then ([], Some s)
      else (let (a, r) = sv_split_or (d # s) in (c # a, r)))"

lemma sv_split_or_less: "sv_split_or s = (a, Some r) \<Longrightarrow> length r < length s"
  by (induction s arbitrary: a rule: sv_split_or.induct) (fastforce split: if_splits prod.splits)+

function sv_range_loop :: "comp_set list \<Rightarrow> string \<Rightarrow> comp_set list option" where
  "sv_range_loop sets s =
     (case sv_split_or s of (a, next) \<Rightarrow>
        if length sets \<ge> SV_MAX_SETS then None
        else
          (case parse_set a of
             None \<Rightarrow> None
           | Some cs \<Rightarrow>
               (case (if length cs = 0 then sv_add_cmp cs OP_GTE 0 0 0 [] False else Some cs) of
                  None \<Rightarrow> None
                | Some cs' \<Rightarrow>
                    (case next of
                       None \<Rightarrow> Some (sets @ [cs'])
                     | Some r \<Rightarrow> sv_range_loop (sets @ [cs']) r))))"
  by pat_completeness auto
termination
  by (relation "measure (\<lambda>(sets, s). length s)") (auto dest: sv_split_or_less sym [of "(_, _)"])

declare sv_range_loop.simps [simp del]

definition parse_range :: "string \<Rightarrow> comp_set list option" where
  "parse_range s = sv_range_loop [] s"

section \<open>Tests\<close>

definition cmp_test :: "semver \<Rightarrow> sv_comparator \<Rightarrow> bool" where
  "cmp_test v c =
     (let r = semver_compare v (cp_v c)
      in case cp_op c of
           OP_LT \<Rightarrow> r < 0
         | OP_LTE \<Rightarrow> r \<le> 0
         | OP_GT \<Rightarrow> r > 0
         | OP_GTE \<Rightarrow> r \<ge> 0
         | OP_EQ \<Rightarrow> r = 0
         | _ \<Rightarrow> False)"

definition same_tuple :: "semver \<Rightarrow> semver \<Rightarrow> bool" where
  "same_tuple v w \<longleftrightarrow> sv_major w = sv_major v \<and> sv_minor w = sv_minor v \<and> sv_patch w = sv_patch v"

definition set_test :: "semver \<Rightarrow> comp_set \<Rightarrow> bool" where
  "set_test v cs =
     (if \<not> list_all (cmp_test v) cs then False
      else if sv_pre v \<noteq> [] then list_ex (\<lambda>c. sv_pre (cp_v c) \<noteq> [] \<and> same_tuple v (cp_v c)) cs
      else True)"

definition range_test :: "semver \<Rightarrow> comp_set list \<Rightarrow> bool" where
  "range_test v rg = list_ex (set_test v) rg"

section \<open>Bounds\<close>

definition xr_ok :: "xrange \<Rightarrow> bool" where
  "xr_ok x \<longleftrightarrow> x_M x \<le> SV_MAX_SAFE \<and> x_m x \<le> SV_MAX_SAFE \<and> x_p x \<le> SV_MAX_SAFE \<and> sv_ids_ok False (x_pre x)"

definition num_ok :: "nat \<Rightarrow> bool" where
  "num_ok n \<longleftrightarrow> n \<le> SV_MAX_SAFE + 1"

text \<open>A resolved comparator: a primitive operator and a version within the array bounds.\<close>

definition comp_ok :: "sv_comparator \<Rightarrow> bool" where
  "comp_ok c \<longleftrightarrow>
     cp_op c \<in> {OP_LT, OP_LTE, OP_GT, OP_GTE, OP_EQ} \<and> sv_ids_ok False (sv_pre (cp_v c)) \<and>
     num_ok (sv_major (cp_v c)) \<and> num_ok (sv_minor (cp_v c)) \<and> num_ok (sv_patch (cp_v c))"

definition set_ok :: "comp_set \<Rightarrow> bool" where
  "set_ok cs \<longleftrightarrow> length cs \<le> SV_MAX_CMPS \<and> list_all comp_ok cs"

lemma sv_ids_ok_Nil [simp]: "sv_ids_ok b []"
  by (simp add: sv_ids_ok_def)

lemma sv_ids_ok_zero [simp]: "sv_ids_ok False [SV_ZERO]"
  by (simp add: sv_ids_ok_def SV_ZERO_def sv_id_ok_def sv_id_chars_def strict_num_def is_dig_def SEMVER_MAX_IDS_def)

lemma u64_safe_Suc [simp]: "n \<le> SV_MAX_SAFE \<Longrightarrow> u64 (n + 1) = n + 1" "n \<le> SV_MAX_SAFE \<Longrightarrow> u64 (Suc n) = Suc n"
  by (auto simp: SV_MAX_SAFE_def u64_def)

lemma sv_add_cmp_ok:
  assumes "sv_add_cmp cs op M m p pre z = Some cs'" "set_ok cs" "op \<in> {OP_LT, OP_LTE, OP_GT, OP_GTE, OP_EQ}"
    "num_ok M" "num_ok m" "num_ok p" "sv_ids_ok False pre"
  shows "set_ok cs' \<and> cs' \<noteq> []"
  using assms by (auto simp: sv_add_cmp_def set_ok_def comp_ok_def split: if_splits)

lemma sv_token_le: "sv_token tk = Some (Some n) \<Longrightarrow> n \<le> SV_MAX_SAFE"
  by (auto simp: sv_token_def sv_parse_num_iff split: if_splits)

lemma sv_tokens_le:
  "sv_tokens k f s = Some (toks, r) \<Longrightarrow> \<forall>n. Some n \<in> set toks \<longrightarrow> n \<le> SV_MAX_SAFE"
proof (induction k f s arbitrary: toks r rule: sv_tokens.induct)
  case (2 k first s)
  show ?case
  proof (cases "\<not> first \<and> \<not> (s \<noteq> [] \<and> hd s = CHR ''.'')")
    case True
    then show ?thesis using 2(2) by simp
  next
    case False
    let ?s = "if first then s else tl s"
    obtain tok toks' where t: "sv_token (takeWhile (\<lambda>c. \<not> tok_sep c) ?s) = Some tok"
      "sv_tokens k False (dropWhile (\<lambda>c. \<not> tok_sep c) ?s) = Some (toks', r)" "toks = tok # toks'"
      using 2(2) False by (auto simp: Let_def split: option.splits if_splits)
    have "\<forall>n. Some n \<in> set toks' \<longrightarrow> n \<le> SV_MAX_SAFE" using 2(1) [OF False refl t(1,2)] .
    then show ?thesis using t sv_token_le by auto
  qed
qed simp

lemma tok_num_le: "\<forall>n. Some n \<in> set toks \<longrightarrow> n \<le> SV_MAX_SAFE \<Longrightarrow> tok_num toks t \<le> SV_MAX_SAFE"
  by (auto simp: tok_num_def split: option.splits) (metis nth_mem)

lemma sv_opt_pre_ids: "sv_opt_pre s = Some (pre, r) \<Longrightarrow> sv_ids_ok False pre"
  by (auto simp: sv_opt_pre_def sv_parse_ids_iff sv_ids_ok_def split: if_splits)

lemma parse_partial_ok:
  assumes "parse_partial s = Some x"
  shows "xr_ok x"
proof -
  let ?s = "if s \<noteq> [] \<and> hd s = CHR ''v'' then tl s else s"
  show ?thesis
  proof (cases "?s = []")
    case True
    then have "x = xany" using assms by (simp add: parse_partial_def Let_def)
    then show ?thesis by (simp add: xany_def xr_ok_def)
  next
    case False
    then obtain toks r where t: "sv_tokens 3 True ?s = Some (toks, r)"
      using assms by (auto simp: parse_partial_def Let_def bind_eq_Some_conv)
    have b: "xr_ok (toks_xrange toks)"
      using tok_num_le [OF sv_tokens_le [OF t]] by (auto simp: xr_ok_def toks_xrange_def Let_def SV_MAX_SAFE_def)
    have "x = toks_xrange toks \<or> (\<exists>pre r1. sv_opt_pre r = Some (pre, r1) \<and> (x = toks_xrange toks\<lparr>x_pre := pre\<rparr> \<or> x = toks_xrange toks\<lparr>x_pre := []\<rparr>))"
      using assms False t by (auto simp: parse_partial_def Let_def bind_eq_Some_conv split: if_splits)
    then show ?thesis using b sv_opt_pre_ids by (auto simp: xr_ok_def)
  qed
qed

lemma num_ok_0 [simp]: "num_ok 0"
  by (simp add: num_ok_def)

lemma xr_ok_simps [simp]:
  assumes "xr_ok x"
  shows "sv_ids_ok False (x_pre x)" "num_ok (x_M x)" "num_ok (x_m x)" "num_ok (x_p x)"
    "num_ok (u64 (Suc (x_M x)))" "num_ok (u64 (Suc (x_m x)))" "num_ok (u64 (Suc (x_p x)))"
  using assms by (auto simp: xr_ok_def num_ok_def)

text \<open>Expansions yield a good non-empty set, or fail.\<close>

definition set_res_ok :: "comp_set option \<Rightarrow> bool" where
  "set_res_ok r \<longleftrightarrow> (\<forall>cs. r = Some cs \<longrightarrow> set_ok cs \<and> cs \<noteq> [])"

lemma set_res_ok_add [intro]:
  assumes "set_ok cs" "op \<in> {OP_LT, OP_LTE, OP_GT, OP_GTE, OP_EQ}" "num_ok M" "num_ok m" "num_ok p" "sv_ids_ok False pre"
  shows "set_res_ok (sv_add_cmp cs op M m p pre z)"
  using sv_add_cmp_ok assms unfolding set_res_ok_def by blast

lemma set_res_ok_bind [intro]:
  "set_res_ok r \<Longrightarrow> (\<And>cs. set_ok cs \<Longrightarrow> cs \<noteq> [] \<Longrightarrow> set_res_ok (f cs)) \<Longrightarrow> set_res_ok (Option.bind r f)"
  by (cases r) (auto simp: set_res_ok_def)

lemma set_res_ok_None [simp]: "set_res_ok None"
  by (simp add: set_res_ok_def)

lemma expand_caret_ok: "set_ok cs \<Longrightarrow> xr_ok x \<Longrightarrow> set_res_ok (expand_caret cs x)"
  unfolding expand_caret_def by (auto intro!: set_res_ok_add set_res_ok_bind)

lemma expand_tilde_ok: "set_ok cs \<Longrightarrow> xr_ok x \<Longrightarrow> set_res_ok (expand_tilde cs x)"
  unfolding expand_tilde_def by (auto intro!: set_res_ok_add set_res_ok_bind)

lemma expand_op_ok:
  "set_ok cs \<Longrightarrow> xr_ok x \<Longrightarrow> op \<noteq> OP_TILDE \<Longrightarrow> op \<noteq> OP_CARET \<Longrightarrow> set_res_ok (expand_op cs op x)"
  unfolding expand_op_def by (cases op) (auto simp: Let_def intro!: set_res_ok_add set_res_ok_bind)

lemma expand_cmp_ok:
  "expand_cmp cs op x = Some cs' \<Longrightarrow> set_ok cs \<Longrightarrow> xr_ok x \<Longrightarrow> set_ok cs' \<and> cs' \<noteq> []"
  using expand_caret_ok expand_tilde_ok expand_op_ok unfolding expand_cmp_def set_res_ok_def by metis

lemma expand_hyphen_ok:
  assumes "expand_hyphen [] x y = Some cs'" "xr_ok x" "xr_ok y"
  shows "set_ok cs'"
proof -
  have upper: "set_ok (the r)" if "set_ok cs" "r = Some cs2"
    "r = (if x_anyM y then Some cs
     else if x_anym y then sv_add_cmp cs OP_LT (u64 (x_M y + 1)) 0 0 [] True
     else if x_anyp y then sv_add_cmp cs OP_LT (x_M y) (u64 (x_m y + 1)) 0 [] True
     else if x_pre y \<noteq> [] then sv_add_cmp cs OP_LTE (x_M y) (x_m y) (x_p y) (x_pre y) False
     else sv_add_cmp cs OP_LTE (x_M y) (x_m y) (x_p y) [] False)" for cs r cs2
    using that sv_add_cmp_ok [of cs _ _ _ _ _ _ cs2] assms(3) by (simp split: if_splits)
  have lower: "set_ok cs" if "(if x_anyM x then Some [] else if x_anym x then sv_add_cmp [] OP_GTE (x_M x) 0 0 [] False
      else if x_anyp x then sv_add_cmp [] OP_GTE (x_M x) (x_m x) 0 [] False
      else sv_add_cmp [] OP_GTE (x_M x) (x_m x) (x_p x) (x_pre x) False) = Some cs" for cs
    using that sv_add_cmp_ok [of "[]" _ _ _ _ _ _ cs] assms(2) by (auto simp: set_ok_def split: if_splits)
  show ?thesis using assms(1) unfolding expand_hyphen_def bind_eq_Some_conv
    using upper lower by fastforce
qed

lemma sv_comps_ok: "sv_comps cs s = Some cs' \<Longrightarrow> set_ok cs \<Longrightarrow> set_ok cs'"
proof (induction cs s rule: sv_comps.induct)
  case (1 cs s0)
  let ?s = "dropWhile sv_is_space s0"
  let ?s2 = "dropWhile sv_is_space (dropWhile sv_op_char ?s)"
  let ?ver = "takeWhile (\<lambda>c. \<not> sv_is_space c) ?s2"
  show ?case
  proof (cases "?s = []")
    case True
    then show ?thesis using 1(2,3) by (simp add: sv_comps.simps [of cs s0])
  next
    case False
    then obtain op x cs1 where o: "sv_operator (takeWhile sv_op_char ?s) = Some op" "?ver \<noteq> []"
      "parse_partial ?ver = Some x" "expand_cmp cs op x = Some cs1"
      "sv_comps cs1 (dropWhile (\<lambda>c. \<not> sv_is_space c) ?s2) = Some cs'"
      using 1(2) by (subst (asm) sv_comps.simps) (auto simp: Let_def split: option.splits if_splits)
    have "set_ok cs1" using expand_cmp_ok [OF o(4) 1(3)] parse_partial_ok [OF o(3)] by blast
    then show ?thesis using 1(1) [OF refl False refl refl o(1,2,3,4,5)] by blast
  qed
qed

lemma set_ok_Nil [simp]: "set_ok []"
  by (simp add: set_ok_def)

lemma parse_set_ok: "parse_set s = Some cs \<Longrightarrow> set_ok cs"
  by (auto simp: parse_set_def Let_def bind_eq_Some_conv split: if_splits option.splits
      dest: sv_comps_ok expand_hyphen_ok parse_partial_ok)

lemma sv_range_loop_ok:
  "sv_range_loop sets s = Some rg \<Longrightarrow> length sets \<le> SV_MAX_SETS \<Longrightarrow> \<forall>cs \<in> set sets. set_ok cs \<and> cs \<noteq> [] \<Longrightarrow>
     rg \<noteq> [] \<and> length rg \<le> SV_MAX_SETS \<and> (\<forall>cs \<in> set rg. set_ok cs \<and> cs \<noteq> [])"
proof (induction sets s rule: sv_range_loop.induct)
  case (1 sets s)
  obtain a nxt where a: "sv_split_or s = (a, nxt)" by fastforce
  obtain cs where cs: "parse_set a = Some cs" and lt: "\<not> SV_MAX_SETS \<le> length sets"
    using 1(2) a by (subst (asm) sv_range_loop.simps) (auto split: if_splits option.splits)
  obtain cs' where cs': "(if length cs = 0 then sv_add_cmp cs OP_GTE 0 0 0 [] False else Some cs) = Some cs'"
    using 1(2) a cs lt by (subst (asm) sv_range_loop.simps) (auto split: if_splits option.splits)
  have ok: "set_ok cs' \<and> cs' \<noteq> []"
    using cs' parse_set_ok [OF cs] by (auto split: if_splits dest!: sv_add_cmp_ok)
  show ?case
  proof (cases nxt)
    case None
    then have "rg = sets @ [cs']" using 1(2) a cs cs' lt by (subst (asm) sv_range_loop.simps) simp
    then show ?thesis using ok 1(4) lt by auto
  next
    case (Some r)
    then have "sv_range_loop (sets @ [cs']) r = Some rg"
      using 1(2) a cs cs' lt by (subst (asm) sv_range_loop.simps) simp
    from 1(1) [OF a [symmetric] lt cs cs' Some this] show ?thesis using ok 1(4) lt by auto
  qed
qed

text \<open>
  C31. A parsed range fits the fixed arrays: one to 16 comparator sets, each with one to 24
  comparators, each a primitive comparison with at most 24 well-formed prerelease identifiers and
  numbers that never wrapped around (at most one above \<open>MAX_SAFE_INTEGER\<close>).
\<close>

theorem parse_range_bounds:
  assumes "parse_range s = Some rg"
  shows "rg \<noteq> [] \<and> length rg \<le> 16 \<and>
    list_all (\<lambda>cs. cs \<noteq> [] \<and> length cs \<le> 24 \<and> list_all comp_ok cs) rg"
  using sv_range_loop_ok [of "[]" s rg] assms
  by (auto simp: parse_range_def set_ok_def SV_MAX_SETS_def SV_MAX_CMPS_def list_all_iff)

text \<open>Evaluation of the range parser on literals.\<close>

lemmas range_eval = parse_range_def parse_set_def sv_rtrim_def sv_is_space_def
  sv_find_hyphen_def sv_operator_def sv_op_char_def parse_partial_def numeral_3_eq_3
  sv_token_def tok_sep_def toks_xrange_def tok_any_def tok_num_def expand_cmp_def expand_caret_def
  expand_tilde_def expand_op_def expand_hyphen_def sv_add_cmp_def SV_MAX_SETS_def SV_MAX_CMPS_def xany_def

section \<open>Ranges of one token\<close>

lemma takeWhile_all: "list_all P s \<Longrightarrow> takeWhile P s = s" and dropWhile_all: "list_all P s \<Longrightarrow> dropWhile P s = []"
  by (induction s) auto

lemma dropWhile_none: "list_all (\<lambda>c. \<not> P c) s \<Longrightarrow> dropWhile P s = s"
  by (cases s) auto

lemma sv_split_or_none: "CHR ''|'' \<notin> set s \<Longrightarrow> sv_split_or s = (s, None)"
  by (induction s rule: sv_split_or.induct) auto

lemma sv_find_hyphen_none: "list_all (\<lambda>c. \<not> sv_is_space c) s \<Longrightarrow> sv_find_hyphen s = None"
  by (auto simp: sv_find_hyphen_def find_None_iff list_all_length)

lemma sv_op_char_not_space: "sv_op_char c \<Longrightarrow> \<not> sv_is_space c \<and> c \<noteq> CHR ''|''"
  by (auto simp: sv_op_char_def sv_is_space_def)

lemma sv_comps_Nil: "sv_comps cs [] = Some cs"
  by (simp add: sv_comps.simps)

text \<open>A range that is one operator with its version, without spaces.\<close>

lemma parse_range_token:
  assumes op: "list_all sv_op_char opr" "sv_operator opr = Some op"
    and ver: "ver \<noteq> []" "\<not> sv_op_char (hd ver)" "list_all (\<lambda>c. \<not> sv_is_space c \<and> c \<noteq> CHR ''|'') ver"
    and x: "parse_partial ver = Some x" "expand_cmp [] op x = Some cs" "cs \<noteq> []"
  shows "parse_range (opr @ ver) = Some [cs]"
proof -
  let ?s = "opr @ ver"
  have ns: "list_all (\<lambda>c. \<not> sv_is_space c) ?s" "CHR ''|'' \<notin> set ?s"
    using op ver(3) sv_op_char_not_space by (auto simp: list_all_iff)
  have v: "list_all (\<lambda>c. \<not> sv_is_space c) ver" using ns by simp
  have "list_all (\<lambda>c. \<not> sv_is_space c) (rev ?s)" using ns(1) by (simp only: list_all_iff set_rev)
  then have sp: "dropWhile sv_is_space ?s = ?s" "dropWhile sv_is_space ver = ver" "sv_rtrim ?s = ?s"
    using dropWhile_none [OF ns(1)] dropWhile_none [OF v] dropWhile_none [of sv_is_space "rev ?s"]
    by (simp_all only: sv_rtrim_def rev_rev_ident)
  have o: "takeWhile sv_op_char ?s = opr" "dropWhile sv_op_char ?s = ver"
    using takeWhile_append_stop [OF op(1)] dropWhile_append_stop [OF op(1)] ver(2) by auto
  have "sv_comps [] ?s = Some cs"
    unfolding sv_comps.simps [of "[]" ?s] Let_def sp o takeWhile_all [OF v] dropWhile_all [OF v]
    using ver(1) op(2) x by (simp add: sv_comps_Nil)
  then have "parse_set ?s = Some cs"
    using sp sv_find_hyphen_none [OF ns(1)] ver(1) by (simp add: parse_set_def Let_def)
  then show ?thesis using sv_split_or_none [OF ns(2)] x(3)
    by (simp add: parse_range_def sv_range_loop.simps [of "[]"] SV_MAX_SETS_def)
qed

theorem parse_range_bounds_witness:
  "\<exists>rg. parse_range ''^1.2'' = Some rg \<and> rg \<noteq> [] \<and> length rg \<le> 16 \<and>
    list_all (\<lambda>cs. cs \<noteq> [] \<and> length cs \<le> 24 \<and> list_all comp_ok cs) rg"
proof -
  obtain rg where "parse_range (''^'' @ ''1.2'') = Some rg"
    using parse_range_token [of "''^''" OP_CARET "''1.2''"] by (simp add: range_eval sv_eval)
  with parse_range_bounds [of "''^1.2''" rg] show ?thesis by auto
qed

lemma dig_not_sep: "is_dig c \<Longrightarrow> \<not> tok_sep c \<and> \<not> sv_op_char c \<and> \<not> sv_is_space c \<and> c \<noteq> CHR ''|'' \<and> c \<noteq> CHR ''v''"
  by (auto simp: is_dig_def less_eq_char_def tok_sep_def sv_op_char_def sv_is_space_def)

lemma id_char_not_space: "is_dig c \<or> sv_id_letter c \<Longrightarrow> \<not> sv_is_space c \<and> c \<noteq> CHR ''|''"
  by (auto simp: is_dig_def less_eq_char_def sv_id_letter_def sv_is_space_def)

lemma sv_token_dec_str: "n \<le> SV_MAX_SAFE \<Longrightarrow> sv_token (dec_str n) = Some (Some n)"
proof -
  assume n: "n \<le> SV_MAX_SAFE"
  have "is_dig (hd (dec_str n))" using dec_str_digits [of n] by (cases "dec_str n") auto
  then have "hd (dec_str n) \<noteq> CHR ''x''" "hd (dec_str n) \<noteq> CHR ''X''" "hd (dec_str n) \<noteq> CHR ''*''"
    by (auto simp: is_dig_def less_eq_char_def)
  then show ?thesis using n by (simp add: sv_token_def sv_parse_num_iff [of "dec_str n" n])
qed

lemma sv_tokens_step:
  assumes "n \<le> SV_MAX_SAFE" "r = [] \<or> tok_sep (hd r)"
  shows "sv_tokens (Suc k) True (dec_str n @ r) = map_option (\<lambda>(ts, r'). (Some n # ts, r')) (sv_tokens k False r)"
    and "sv_tokens (Suc k) False (CHR ''.'' # dec_str n @ r) = map_option (\<lambda>(ts, r'). (Some n # ts, r')) (sv_tokens k False r)"
proof -
  have d: "list_all (\<lambda>c. \<not> tok_sep c) (dec_str n)" using dec_str_digits dig_not_sep by (auto simp: list_all_iff)
  have "takeWhile (\<lambda>c. \<not> tok_sep c) (dec_str n @ r) = dec_str n" "dropWhile (\<lambda>c. \<not> tok_sep c) (dec_str n @ r) = r"
    using takeWhile_append_stop [OF d, of r] dropWhile_append_stop [OF d, of r] assms(2) by auto
  then show "sv_tokens (Suc k) True (dec_str n @ r) = map_option (\<lambda>(ts, r'). (Some n # ts, r')) (sv_tokens k False r)"
    "sv_tokens (Suc k) False (CHR ''.'' # dec_str n @ r) = map_option (\<lambda>(ts, r'). (Some n # ts, r')) (sv_tokens k False r)"
    using sv_token_dec_str [OF assms(1)] by (simp_all add: Let_def)
qed

lemma hd_dec_str_dig: "is_dig (hd (dec_str n @ s))"
  using dec_str_digits [of n] by (cases "dec_str n") auto

text \<open>A full version is a comparator token without wildcards.\<close>

lemma parse_partial_version:
  assumes wf: "sv_wf v"
  shows "parse_partial (sv_full v) = Some \<lparr>x_anyM = False, x_anym = False, x_anyp = False,
    x_M = sv_major v, x_m = sv_minor v, x_p = sv_patch v, x_pre = sv_pre v\<rparr>"
proof -
  let ?t = "sv_tail (sv_pre v) (sv_build v)"
  let ?b = "if sv_build v \<noteq> [] then CHR ''+'' # sv_join (sv_build v) else []"
  have t: "sv_opt_pre ?t = Some (sv_pre v, ?b)" "sv_opt_build ?b = Some (sv_build v, [])"
    using wf sv_opt_pre_iff [of ?b ?t "sv_pre v"] sv_opt_build_iff [of ?b "sv_build v"]
    by (auto simp: sv_tail_def sv_wf_def)
  have hd: "?t = [] \<or> tok_sep (hd ?t)" "?t = [] \<or> hd ?t = CHR ''-'' \<or> hd ?t = CHR ''+''"
    by (auto simp: sv_tail_def tok_sep_def)
  have b: "sv_major v \<le> SV_MAX_SAFE" "sv_minor v \<le> SV_MAX_SAFE" "sv_patch v \<le> SV_MAX_SAFE"
    using wf by (auto simp: sv_wf_def)
  have dot: "tok_sep (CHR ''.'')" by (simp add: tok_sep_def)
  have toks: "sv_tokens 3 True (sv_full v) =
      Some ([Some (sv_major v), Some (sv_minor v), Some (sv_patch v)], ?t)"
    using b hd(1) dot by (simp add: sv_full_tail numeral_3_eq_3 sv_tokens_step del: sv_tokens.simps(2))
  have "hd (sv_full v) \<noteq> CHR ''v''" "sv_full v \<noteq> []"
    using hd_dec_str_dig dig_not_sep unfolding sv_full_tail by blast+
  moreover have "?t = [] \<Longrightarrow> sv_pre v = []" by (auto simp: sv_tail_def split: if_splits)
  ultimately show ?thesis using toks t hd(2)
    by (auto simp: parse_partial_def Let_def toks_xrange_def tok_any_def tok_num_def)
qed

lemma sv_join_chars: "list_all (sv_id_ok b) ids \<Longrightarrow> list_all (\<lambda>c. \<not> sv_is_space c \<and> c \<noteq> CHR ''|'') (sv_join ids)"
proof (induction ids)
  case (Cons i ids)
  have "list_all (\<lambda>c. \<not> sv_is_space c \<and> c \<noteq> CHR ''|'') (id_s i)"
    using Cons.prems id_char_not_space by (auto simp: sv_id_ok_def sv_id_chars_def list_all_iff)
  then show ?case using Cons by (auto simp: sv_join_Cons sv_is_space_def)
qed simp

lemma sv_full_token:
  assumes "sv_wf v"
  shows "sv_full v \<noteq> []" "\<not> sv_op_char (hd (sv_full v))"
    "list_all (\<lambda>c. \<not> sv_is_space c \<and> c \<noteq> CHR ''|'') (sv_full v)"
proof -
  show "sv_full v \<noteq> []" by (simp add: sv_full_tail)
  show "\<not> sv_op_char (hd (sv_full v))" using hd_dec_str_dig dig_not_sep unfolding sv_full_tail by blast
  have "list_all (\<lambda>c. \<not> sv_is_space c \<and> c \<noteq> CHR ''|'') (dec_str n)" for n
    using dec_str_digits dig_not_sep by (auto simp: list_all_iff)
  moreover have "list_all (\<lambda>c. \<not> sv_is_space c \<and> c \<noteq> CHR ''|'') (sv_tail (sv_pre v) (sv_build v))"
    using assms sv_join_chars by (auto simp: sv_tail_def sv_wf_def sv_ids_ok_def sv_is_space_def)
  ultimately show "list_all (\<lambda>c. \<not> sv_is_space c \<and> c \<noteq> CHR ''|'') (sv_full v)"
    by (simp add: sv_full_tail sv_is_space_def)
qed

section \<open>Semantics of caret and tilde ranges\<close>

text \<open>The exclusive bound \<open>N.k.j-0\<close> excludes exactly the versions from that triple on.\<close>

lemma below_zero_bound:
  assumes "sv_pre_ok v"
  shows "semver_compare v \<lparr>sv_major = N, sv_minor = k, sv_patch = j, sv_pre = [SV_ZERO], sv_build = []\<rparr> < 0
     \<longleftrightarrow> (sv_major v, sv_minor v, sv_patch v) < (N, k, j)"
proof -
  let ?b = "\<lparr>sv_major = N, sv_minor = k, sv_patch = j, sv_pre = [SV_ZERO], sv_build = []\<rparr>"
  have z: "id_key SV_ZERO = (False, 0, [])" by (simp add: id_key_def SV_ZERO_def dec_val_def dig_val_def)
  have "\<not> map id_key ids < [(False, 0, [])]" if "ids \<noteq> []" for ids
    using that by (cases ids) (auto simp: less_prod_def' id_key_def split: if_splits)
  then have "\<not> (sv_pre v = [], map id_key (sv_pre v)) < (False, [(False, 0, [])])"
    by (auto simp: less_prod_def')
  moreover have "semver_compare v ?b = ord_sign (sv_key v) (sv_key ?b)"
    using assms semver_compare_ord [of False v False ?b] by (simp add: sv_pre_ok_def)
  ultimately show ?thesis by (auto simp: sv_key_def z less_prod_def')
qed

definition comp_ge :: "semver \<Rightarrow> sv_comparator" where
  "comp_ge b = \<lparr>cp_op = OP_GTE, cp_v = b\<lparr>sv_build := []\<rparr>\<rparr>"

definition comp_below :: "nat \<Rightarrow> nat \<Rightarrow> nat \<Rightarrow> sv_comparator" where
  "comp_below N k j = \<lparr>cp_op = OP_LT,
     cp_v = \<lparr>sv_major = N, sv_minor = k, sv_patch = j, sv_pre = [SV_ZERO], sv_build = []\<rparr>\<rparr>"

lemma set_test_interval:
  assumes v: "sv_pre_ok v"
  shows "set_test v [comp_ge b, comp_below N k j] \<longleftrightarrow>
    semver_compare v b \<ge> 0 \<and> (sv_major v, sv_minor v, sv_patch v) < (N, k, j) \<and>
    (sv_pre v = [] \<or> sv_pre b \<noteq> [] \<and> same_tuple v b)"
  using below_zero_bound [OF v, of N k j]
  by (auto simp: set_test_def comp_ge_def comp_below_def cmp_test_def same_tuple_def less_prod_def'
      semver_compare_def)

text \<open>The leftmost nonzero number of \<open>b\<close>, and everything to its left, is unchanged in \<open>v\<close>.\<close>

definition caret_compatible :: "semver \<Rightarrow> semver \<Rightarrow> bool" where
  "caret_compatible b v \<longleftrightarrow>
     sv_major v = sv_major b \<and>
     (sv_major b = 0 \<longrightarrow> sv_minor v = sv_minor b \<and> (sv_minor b = 0 \<longrightarrow> sv_patch v = sv_patch b))"

lemma compare_ge_tuple:
  "semver_compare v b \<ge> 0 \<Longrightarrow> (sv_major b, sv_minor b, sv_patch b) \<le> (sv_major v, sv_minor v, sv_patch v)"
  by (auto simp: semver_compare_def less_eq_prod_def split: if_splits)

lemma expand_caret_version:
  assumes "sv_wf b"
  shows "expand_caret [] \<lparr>x_anyM = False, x_anym = False, x_anyp = False,
      x_M = sv_major b, x_m = sv_minor b, x_p = sv_patch b, x_pre = sv_pre b\<rparr> =
    Some [comp_ge b,
      if sv_major b \<noteq> 0 then comp_below (sv_major b + 1) 0 0
      else if sv_minor b \<noteq> 0 then comp_below (sv_major b) (sv_minor b + 1) 0
      else comp_below (sv_major b) (sv_minor b) (sv_patch b + 1)]"
  using assms by (auto simp: expand_caret_def sv_add_cmp_def SV_MAX_CMPS_def comp_ge_def comp_below_def
      sv_wf_def sv_ids_ok_def)

lemma expand_tilde_version:
  assumes "sv_wf b"
  shows "expand_tilde [] \<lparr>x_anyM = False, x_anym = False, x_anyp = False,
      x_M = sv_major b, x_m = sv_minor b, x_p = sv_patch b, x_pre = sv_pre b\<rparr> =
    Some [comp_ge b, comp_below (sv_major b) (sv_minor b + 1) 0]"
  using assms by (auto simp: expand_tilde_def sv_add_cmp_def SV_MAX_CMPS_def comp_ge_def comp_below_def
      sv_wf_def sv_ids_ok_def)

text \<open>
  C16. The caret range of a version text: \<open>^b\<close> parses, and a version \<open>v\<close> satisfies it exactly when
  \<open>v\<close> is at least \<open>b\<close>, keeps the leftmost nonzero number of \<open>b\<close>, and, if \<open>v\<close> is a prerelease,
  \<open>b\<close> is a prerelease of the same triple.
\<close>

theorem caret_range:
  assumes "semver_parse s = Some b" "semver_parse t = Some v"
  shows "\<exists>rg. parse_range (CHR ''^'' # s) = Some rg \<and>
    (range_test v rg \<longleftrightarrow>
       semver_compare v b \<ge> 0 \<and> caret_compatible b v \<and>
       (sv_pre v = [] \<or> sv_pre b \<noteq> [] \<and> same_tuple v b))"
proof -
  have wf: "sv_wf b" "s = sv_full b" "sv_pre_ok v"
    using semver_parse_sound [OF assms(1)] semver_parse_sound [OF assms(2)] by (auto simp: sv_wf_def sv_pre_ok_def)
  have "list_all sv_op_char ''^''" "sv_operator ''^'' = Some OP_CARET" by (auto simp: sv_op_char_def sv_operator_def)
  from parse_range_token [OF this sv_full_token [OF wf(1)] parse_partial_version [OF wf(1)]]
  have "parse_range (CHR ''^'' # s) = Some [[comp_ge b,
      if sv_major b \<noteq> 0 then comp_below (sv_major b + 1) 0 0
      else if sv_minor b \<noteq> 0 then comp_below (sv_major b) (sv_minor b + 1) 0
      else comp_below (sv_major b) (sv_minor b) (sv_patch b + 1)]]"
    using expand_caret_version [OF wf(1)] wf(2) by (simp add: expand_cmp_def)
  moreover have "set_test v [comp_ge b,
      if sv_major b \<noteq> 0 then comp_below (sv_major b + 1) 0 0
      else if sv_minor b \<noteq> 0 then comp_below (sv_major b) (sv_minor b + 1) 0
      else comp_below (sv_major b) (sv_minor b) (sv_patch b + 1)] \<longleftrightarrow>
       semver_compare v b \<ge> 0 \<and> caret_compatible b v \<and>
       (sv_pre v = [] \<or> sv_pre b \<noteq> [] \<and> same_tuple v b)"
    using compare_ge_tuple [of v b]
    by (cases "semver_compare v b \<ge> 0")
      (auto simp: set_test_interval [OF wf(3)] caret_compatible_def less_prod_def' less_eq_prod_def)
  ultimately show ?thesis by (simp add: range_test_def)
qed

theorem caret_range_witness:
  "\<exists>b v rg. semver_parse ''0.2.3'' = Some b \<and> semver_parse ''0.2.9'' = Some v \<and>
     parse_range ''^0.2.3'' = Some rg \<and> range_test v rg"
proof -
  obtain b v where p: "semver_parse ''0.2.3'' = Some b" "semver_parse ''0.2.9'' = Some v"
    and c: "semver_compare v b \<ge> 0" "caret_compatible b v" "sv_pre v = []"
    by (simp add: sv_eval caret_compatible_def)
  from caret_range [OF p] p c show ?thesis by auto
qed

text \<open>
  The tilde range of a version text: \<open>~b\<close> parses, and a version \<open>v\<close> satisfies it exactly when
  \<open>v\<close> is at least \<open>b\<close> with the same major and minor number, and, if \<open>v\<close> is a prerelease, \<open>b\<close> is a
  prerelease of the same triple.
\<close>

theorem tilde_range:
  assumes "semver_parse s = Some b" "semver_parse t = Some v"
  shows "\<exists>rg. parse_range (CHR ''~'' # s) = Some rg \<and>
    (range_test v rg \<longleftrightarrow>
       semver_compare v b \<ge> 0 \<and> sv_major v = sv_major b \<and> sv_minor v = sv_minor b \<and>
       (sv_pre v = [] \<or> sv_pre b \<noteq> [] \<and> same_tuple v b))"
proof -
  have wf: "sv_wf b" "s = sv_full b" "sv_pre_ok v"
    using semver_parse_sound [OF assms(1)] semver_parse_sound [OF assms(2)] by (auto simp: sv_wf_def sv_pre_ok_def)
  have "list_all sv_op_char ''~''" "sv_operator ''~'' = Some OP_TILDE" by (auto simp: sv_op_char_def sv_operator_def)
  from parse_range_token [OF this sv_full_token [OF wf(1)] parse_partial_version [OF wf(1)]]
  have "parse_range (CHR ''~'' # s) = Some [[comp_ge b, comp_below (sv_major b) (sv_minor b + 1) 0]]"
    using expand_tilde_version [OF wf(1)] wf(2) by (simp add: expand_cmp_def)
  moreover have "set_test v [comp_ge b, comp_below (sv_major b) (sv_minor b + 1) 0] \<longleftrightarrow>
       semver_compare v b \<ge> 0 \<and> sv_major v = sv_major b \<and> sv_minor v = sv_minor b \<and>
       (sv_pre v = [] \<or> sv_pre b \<noteq> [] \<and> same_tuple v b)"
    using compare_ge_tuple [of v b]
    by (cases "semver_compare v b \<ge> 0")
      (auto simp: set_test_interval [OF wf(3)] less_prod_def' less_eq_prod_def)
  ultimately show ?thesis by (simp add: range_test_def)
qed

theorem tilde_range_witness:
  "\<exists>b v rg. semver_parse ''1.2.3-rc'' = Some b \<and> semver_parse ''1.2.3-rd'' = Some v \<and>
     parse_range ''~1.2.3-rc'' = Some rg \<and> range_test v rg"
proof -
  obtain b v where p: "semver_parse ''1.2.3-rc'' = Some b" "semver_parse ''1.2.3-rd'' = Some v"
    and c: "semver_compare v b \<ge> 0" "sv_major v = sv_major b" "sv_minor v = sv_minor b" "sv_pre b \<noteq> []" "same_tuple v b"
    by (simp add: sv_eval same_tuple_def)
  from tilde_range [OF p] p c show ?thesis by auto
qed

end
