(* ===== verification/Dyna_SemverSort.thy ===== *)
theory Dyna_SemverSort
  imports Dyna_Semver
begin

text \<open>
  The index sort of \<^verbatim>\<open>src/src/dyna-semver.c\<close>: a bottom-up merge sort of an index array by
  precedence, with a temporary array. The runs written by the inner loop are contiguous, so a pass
  produces the new array as their concatenation. Index arithmetic is that of \<open>uint32_t\<close>; a pass
  or the outer loop that does not end is \<^term>\<open>None\<close>.
\<close>

section \<open>Definitions\<close>

text \<open>The two-pointer loop and the two copy loops that write \<open>tmp[lo .. hi)\<close>.\<close>

function sv_merge :: "semver list \<Rightarrow> nat list \<Rightarrow> nat \<Rightarrow> nat \<Rightarrow> nat \<Rightarrow> nat \<Rightarrow> nat list" where
  "sv_merge svs idx l mid r hi =
     (if l < mid \<and> r < hi then
        (if semver_compare (svs ! (idx ! l)) (svs ! (idx ! r)) \<le> 0
         then idx ! l # sv_merge svs idx (l + 1) mid r hi
         else idx ! r # sv_merge svs idx l mid (r + 1) hi)
      else map ((!) idx) [l ..< mid] @ map ((!) idx) [r ..< hi])"
  by pat_completeness auto
termination
  by (relation "measure (\<lambda>(svs, idx, l, mid, r, hi). (mid - l) + (hi - r))") auto

declare sv_merge.simps [simp del]

partial_function (option) sv_sort_pass :: "semver list \<Rightarrow> nat list \<Rightarrow> nat \<Rightarrow> nat \<Rightarrow> nat list option" where
  "sv_sort_pass svs idx width i =
     (if i < length idx then
        (let mid = (if u32 (i + width) < length idx then u32 (i + width) else length idx);
             hi = (if u32 (i + u32 (2 * width)) < length idx then u32 (i + u32 (2 * width)) else length idx)
         in do {
              rest \<leftarrow> sv_sort_pass svs idx width (u32 (i + u32 (2 * width)));
              Some (sv_merge svs idx i mid mid hi @ rest) })
      else Some [])"

partial_function (option) sv_sort_loop :: "semver list \<Rightarrow> nat list \<Rightarrow> nat \<Rightarrow> nat list option" where
  "sv_sort_loop svs idx width =
     (if width < length idx then
        Option.bind (sv_sort_pass svs idx width 0) (\<lambda>idx'. sv_sort_loop svs idx' (u32 (width * 2)))
      else Some idx)"

definition sv_sort_indices :: "semver list \<Rightarrow> nat list \<Rightarrow> nat list option" where
  "sv_sort_indices svs idx = sv_sort_loop svs idx 1"

section \<open>Merging is stable\<close>

fun merge_by :: "('a \<Rightarrow> 'k :: linorder) \<Rightarrow> 'a list \<Rightarrow> 'a list \<Rightarrow> 'a list" where
  "merge_by f (x # xs) (y # ys) = (if f x \<le> f y then x # merge_by f xs (y # ys) else y # merge_by f (x # xs) ys)"
| "merge_by f xs [] = xs"
| "merge_by f [] ys = ys"

lemma merge_by_Nil [simp]: "merge_by f [] ys = ys" "merge_by f xs [] = xs"
  by (cases ys; simp) (cases xs; simp)

lemma mset_merge_by: "mset (merge_by f xs ys) = mset xs + mset ys"
  by (induction f xs ys rule: merge_by.induct) simp_all

lemma set_merge_by: "set (merge_by f xs ys) = set xs \<union> set ys"
  by (induction f xs ys rule: merge_by.induct) auto

lemma sorted_merge_by:
  "sorted (map f xs) \<Longrightarrow> sorted (map f ys) \<Longrightarrow> sorted (map f (merge_by f xs ys))"
  by (induction f xs ys rule: merge_by.induct) (auto simp: set_merge_by)

lemma filter_merge_by:
  "sorted (map f xs) \<Longrightarrow>
     filter (\<lambda>x. f x = k) (merge_by f xs ys) = filter (\<lambda>x. f x = k) xs @ filter (\<lambda>x. f x = k) ys"
proof (induction f xs ys rule: merge_by.induct)
  case (1 f x xs y ys)
  show ?case
  proof (cases "f x \<le> f y")
    case True
    then show ?thesis using 1(1,3) by (cases "f x = k"; cases "f y = k") auto
  next
    case False
    have "filter (\<lambda>z. f z = k) (x # xs) = []" if "f y = k"
    proof -
      have "\<forall>z \<in> set (x # xs). f y < f z" using 1(3) False by auto
      then show ?thesis using that by (auto simp: filter_empty_conv)
    qed
    then show ?thesis using 1 False by auto
  qed
qed simp_all

lemma merge_by_sort:
  "merge_by f (sort_key f xs) (sort_key f ys) = sort_key f (xs @ ys)"
proof (rule properties_for_sort_key [symmetric])
  show "mset (merge_by f (sort_key f xs) (sort_key f ys)) = mset (xs @ ys)" by (simp add: mset_merge_by)
  show "filter (\<lambda>x. f k = f x) (merge_by f (sort_key f xs) (sort_key f ys)) = filter (\<lambda>x. f k = f x) (xs @ ys)"
    for k
    unfolding eq_commute [of "f k"] by (simp add: filter_merge_by sort_key_stable)
  show "sorted (map f (merge_by f (sort_key f xs) (sort_key f ys)))" by (simp add: sorted_merge_by)
qed

section \<open>Blocks\<close>

function sort_blocks :: "('a \<Rightarrow> 'k :: linorder) \<Rightarrow> nat \<Rightarrow> 'a list \<Rightarrow> 'a list" where
  "sort_blocks f w xs =
     (if xs = [] \<or> w = 0 then [] else sort_key f (take w xs) @ sort_blocks f w (drop w xs))"
  by pat_completeness auto
termination
  by (relation "measure (\<lambda>(f, w, xs). length xs)") auto

declare sort_blocks.simps [simp del]

lemma sort_blocks_Nil [simp]: "sort_blocks f w [] = []"
  by (simp add: sort_blocks.simps)

lemma length_sort_blocks [simp]: "0 < w \<Longrightarrow> length (sort_blocks f w xs) = length xs"
proof (induction f w xs rule: sort_blocks.induct)
  case (1 f w xs)
  then show ?case by (cases "xs = []") (auto simp: sort_blocks.simps [of f w xs])
qed

lemma set_sort_blocks: "0 < w \<Longrightarrow> set (sort_blocks f w xs) = set xs"
proof (induction f w xs rule: sort_blocks.induct)
  case (1 f w xs)
  show ?case
  proof (cases "xs = []")
    case False
    have "set xs = set (take w xs) \<union> set (drop w xs)" by (metis append_take_drop_id set_append)
    then show ?thesis using 1 False by (auto simp: sort_blocks.simps [of f w xs])
  qed (simp add: sort_blocks.simps)
qed

lemma sort_blocks_1: "sort_blocks f 1 xs = xs"
  by (induction xs) (auto simp: sort_blocks.simps)

lemma sort_blocks_all: "length xs \<le> w \<Longrightarrow> 0 < w \<Longrightarrow> sort_blocks f w xs = sort_key f xs"
  by (cases "xs = []") (auto simp: sort_blocks.simps [of f w xs])

lemma sort_blocks_double:
  "xs \<noteq> [] \<Longrightarrow> 0 < w \<Longrightarrow> sort_blocks f (2 * w) xs =
     merge_by f (sort_key f (take w xs)) (sort_key f (take w (drop w xs))) @ sort_blocks f (2 * w) (drop (2 * w) xs)"
proof -
  assume "xs \<noteq> []" "0 < w"
  moreover have "take (2 * w) xs = take w xs @ take w (drop w xs)" by (simp add: take_add mult_2)
  ultimately show ?thesis by (simp add: sort_blocks.simps [of f "2 * w" xs] merge_by_sort)
qed

lemma nth_slice: "l \<le> m \<Longrightarrow> m \<le> length idx \<Longrightarrow> map ((!) idx) [l ..< m] = take (m - l) (drop l idx)"
  by (rule nth_equalityI) auto

lemma slice_Cons: "l < m \<Longrightarrow> m \<le> length idx \<Longrightarrow> take (m - l) (drop l idx) = idx ! l # take (m - Suc l) (drop (Suc l) idx)"
  by (metis Cons_nth_drop_Suc Suc_diff_Suc order_less_le_trans take_Suc_Cons)

lemma sv_merge_slices:
  assumes cmp: "\<forall>i \<in> set idx. \<forall>j \<in> set idx. semver_compare (svs ! i) (svs ! j) = ord_sign (key i) (key j)"
  shows "l \<le> mid \<Longrightarrow> mid \<le> length idx \<Longrightarrow> r \<le> hi \<Longrightarrow> hi \<le> length idx \<Longrightarrow>
    sv_merge svs idx l mid r hi =
      merge_by key (take (mid - l) (drop l idx)) (take (hi - r) (drop r idx))"
  using cmp
proof (induction svs idx l mid r hi rule: sv_merge.induct)
  case (1 svs idx l mid r hi)
  show ?case
  proof (cases "l < mid \<and> r < hi")
    case True
    have s: "take (mid - l) (drop l idx) = idx ! l # take (mid - Suc l) (drop (Suc l) idx)"
      "take (hi - r) (drop r idx) = idx ! r # take (hi - Suc r) (drop (Suc r) idx)"
      using slice_Cons [of l mid idx] slice_Cons [of r hi idx] True 1 by auto
    have c: "semver_compare (svs ! (idx ! l)) (svs ! (idx ! r)) = ord_sign (key (idx ! l)) (key (idx ! r))"
    proof -
      have "idx ! l \<in> set idx" "idx ! r \<in> set idx" using True 1(4,6) by simp_all
      then show ?thesis using 1(7) by blast
    qed
    show ?thesis
    proof (cases "key (idx ! l) \<le> key (idx ! r)")
      case le: True
      then show ?thesis using True c s 1(1) 1(3-) by (subst sv_merge.simps) (simp del: take_Suc_Cons)
    next
      case gt: False
      then show ?thesis using True c s 1(2) 1(3-) by (subst sv_merge.simps) (simp del: take_Suc_Cons)
    qed
  next
    case False
    then have "take (mid - l) (drop l idx) = [] \<or> take (hi - r) (drop r idx) = []" by auto
    then have "merge_by key (take (mid - l) (drop l idx)) (take (hi - r) (drop r idx)) =
        take (mid - l) (drop l idx) @ take (hi - r) (drop r idx)"
      by (cases "take (mid - l) (drop l idx)") auto
    moreover have "sv_merge svs idx l mid r hi = map ((!) idx) [l ..< mid] @ map ((!) idx) [r ..< hi]"
      by (subst sv_merge.simps) (rule if_not_P [OF False])
    ultimately show ?thesis using 1(3-6) by (simp add: nth_slice)
  qed
qed

section \<open>Passes\<close>

lemma drop_sort_blocks:
  "0 < w \<Longrightarrow> w * j \<le> length xs \<Longrightarrow> drop (w * j) (sort_blocks f w xs) = sort_blocks f w (drop (w * j) xs)"
proof (induction j arbitrary: xs)
  case (Suc j)
  then have ne: "xs \<noteq> []" "w \<le> length xs" by auto
  then have "sort_blocks f w xs = sort_key f (take w xs) @ sort_blocks f w (drop w xs)"
    using Suc.prems by (simp add: sort_blocks.simps [of f w xs])
  then have "drop (w * Suc j) (sort_blocks f w xs) = drop (w * j) (sort_blocks f w (drop w xs))"
    using ne by (simp add: min_def)
  also have "\<dots> = sort_blocks f w (drop (w * j) (drop w xs))" using Suc by (intro Suc.IH) auto
  finally show ?case by (simp add: add.commute)
qed simp

lemma take_sort_blocks:
  "0 < w \<Longrightarrow> take w (sort_blocks f w xs) = sort_key f (take w xs)"
proof (cases "length xs \<le> w")
  case True
  moreover assume "0 < w"
  ultimately show ?thesis by (simp add: sort_blocks_all)
next
  case False
  moreover assume "0 < w"
  ultimately show ?thesis by (auto simp: sort_blocks.simps [of f w xs])
qed

lemma sv_sort_pass_blocks:
  assumes n: "length xs \<le> 2 ^ 31" and w: "0 < w" "w < length xs" and pow: "w \<le> 2 ^ 30"
    and cmp: "\<forall>i \<in> set xs. \<forall>j \<in> set xs. semver_compare (svs ! i) (svs ! j) = ord_sign (key i) (key j)"
    and idx: "idx = sort_blocks key w xs"
  shows "sv_sort_pass svs idx w (2 * w * j) = Some (sort_blocks key (2 * w) (drop (2 * w * j) xs))"
proof (induction "length xs - 2 * w * j" arbitrary: j rule: less_induct)
  case less
  let ?i = "2 * w * j"
  have len: "length idx = length xs" using idx w by simp
  show ?case
  proof (cases "?i < length xs")
    case False
    then show ?thesis using len by (subst sv_sort_pass.simps) (simp add: sort_blocks.simps)
  next
    case True
    have u: "u32 (2 * w) = 2 * w" "u32 (?i + w) = ?i + w" "u32 (?i + 2 * w) = ?i + 2 * w"
      using n w True pow by (auto simp: u32_def)
    let ?mid = "min (?i + w) (length xs)" and ?hi = "min (?i + 2 * w) (length xs)"
    have cmp': "\<forall>i \<in> set idx. \<forall>j \<in> set idx. semver_compare (svs ! i) (svs ! j) = ord_sign (key i) (key j)"
      using cmp idx w by (simp add: set_sort_blocks)
    let ?ys = "drop ?i xs"
    have "drop ?i idx = sort_blocks key w ?ys"
      using drop_sort_blocks [of w "2 * j" xs key] idx w True by (simp add: mult.assoc mult.left_commute)
    then have a: "take w (drop ?i idx) = sort_key key (take w ?ys)" using take_sort_blocks [OF w(1)] by simp
    have b: "take w (drop (?i + w) idx) = sort_key key (take w (drop w ?ys))"
    proof (cases "?i + w \<le> length xs")
      case True
      then have "drop (?i + w) idx = sort_blocks key w (drop (?i + w) xs)"
        using drop_sort_blocks [of w "2 * j + 1" xs key] idx w by (simp add: algebra_simps)
      then show ?thesis using take_sort_blocks [OF w(1)] by (simp add: add.commute)
    next
      case False
      then show ?thesis using len by simp
    qed
    have "take (?mid - ?i) (drop ?i idx) = take w (drop ?i idx)" using True len by (auto simp: min_def)
    moreover have "take (?hi - ?mid) (drop ?mid idx) = take w (drop (?i + w) idx)" using len by (auto simp: min_def)
    ultimately have "sv_merge svs idx ?i ?mid ?mid ?hi = merge_by key (sort_key key (take w ?ys)) (sort_key key (take w (drop w ?ys)))"
      using sv_merge_slices [OF cmp', of ?i ?mid ?mid ?hi] a b True len by simp
    moreover have "sv_sort_pass svs idx w (?i + 2 * w) = Some (sort_blocks key (2 * w) (drop (?i + 2 * w) xs))"
      using less [of "Suc j"] True w by (simp add: algebra_simps)
    moreover have mh: "(if ?i + w < length idx then ?i + w else length idx) = ?mid"
      "(if ?i + 2 * w < length idx then ?i + 2 * w else length idx) = ?hi" using len by auto
    ultimately have "sv_sort_pass svs idx w ?i =
        Some (merge_by key (sort_key key (take w ?ys)) (sort_key key (take w (drop w ?ys))) @ sort_blocks key (2 * w) (drop (?i + 2 * w) xs))"
      using True len unfolding sv_sort_pass.simps [of svs idx w ?i] Let_def u mh by (simp del: min.absorb1)
    then show ?thesis using sort_blocks_double [of ?ys w key] True w by (simp add: add.commute)
  qed
qed

lemma sv_sort_loop_blocks:
  assumes n: "length xs \<le> 2 ^ 31"
    and cmp: "\<forall>i \<in> set xs. \<forall>j \<in> set xs. semver_compare (svs ! i) (svs ! j) = ord_sign (key i) (key j)"
  shows "w = 2 ^ k \<Longrightarrow> sv_sort_loop svs (sort_blocks key w xs) w = Some (sort_key key xs)"
proof (induction "length xs - w" arbitrary: w k rule: less_induct)
  case less
  then have w0: "0 < w" by simp
  show ?case
  proof (cases "w < length xs")
    case False
    then show ?thesis using w0 by (subst sv_sort_loop.simps) (simp add: sort_blocks_all)
  next
    case True
    then have "(2 :: nat) ^ k < 2 ^ 31" using n less.prems by simp
    then have "k < 31" by (rule power_less_imp_less_exp [rotated]) simp
    then have pow: "w \<le> 2 ^ 30" unfolding less.prems by (intro power_increasing) auto
    have "sv_sort_pass svs (sort_blocks key w xs) w 0 = Some (sort_blocks key (2 * w) xs)"
      using sv_sort_pass_blocks [OF n w0 True pow cmp refl, of 0] by simp
    moreover have "u32 (w * 2) = 2 * w" using True n by (simp add: u32_def)
    moreover have "sv_sort_loop svs (sort_blocks key (2 * w) xs) (2 * w) = Some (sort_key key xs)"
    proof (rule less.hyps)
      show "length xs - 2 * w < length xs - w" using True w0 by linarith
      show "2 * w = 2 ^ Suc k" using less.prems by simp
    qed
    ultimately show ?thesis using True w0 by (subst sv_sort_loop.simps) simp
  qed
qed

text \<open>
  C15. Sorting the indices of up to \<open>2 ^ 31\<close> parsed versions ends and gives the stable sort by
  precedence: the permutation of the index array that is ascending and keeps the order of
  equal versions.
\<close>

theorem sv_sort_indices_stable:
  assumes "\<forall>v \<in> set svs. sv_wf v" "set idx \<subseteq> {..< length svs}" "length idx \<le> 2 ^ 31"
  shows "sv_sort_indices svs idx = Some (sort_key (\<lambda>i. sv_key (svs ! i)) idx)"
proof -
  have "\<forall>i \<in> set idx. \<forall>j \<in> set idx. semver_compare (svs ! i) (svs ! j) = ord_sign (sv_key (svs ! i)) (sv_key (svs ! j))"
    using assms(1,2) sv_order.cmp_key by (auto simp: sv_wf_def sv_pre_ok_def subset_eq)
  from sv_sort_loop_blocks [OF assms(3) this, of 1 0] show ?thesis
    using sort_blocks_1 [of "\<lambda>i. sv_key (svs ! i)" idx] by (simp add: sv_sort_indices_def)
qed

definition sv_release :: "nat \<Rightarrow> nat \<Rightarrow> nat \<Rightarrow> semver" where
  "sv_release M m p = \<lparr>sv_major = M, sv_minor = m, sv_patch = p, sv_pre = [], sv_build = []\<rparr>"

theorem sv_sort_indices_stable_witness:
  "sv_sort_indices [sv_release 2 0 0, sv_release 1 9 0, sv_release 2 0 0] [0, 1, 2] = Some [1, 0, 2]"
  by (subst sv_sort_indices_stable)
    (simp_all add: sv_release_def sv_wf_def sv_ids_ok_def SV_MAX_SAFE_def sv_key_def less_eq_prod_def)

end
