(* ===== verification/Dyna_SemverApi.thy ===== *)
theory Dyna_SemverApi
  imports Dyna_SemverRange Dyna_SemverSort
begin

text \<open>
  The exported functions of \<^verbatim>\<open>src/src/dyna-semver.c\<close>. An argument list is \<open>argv\<close> (its length
  \<open>argc\<close>), a string argument the bytes of its UTF-8 conversion. Failing allocations of the
  functions' own buffers are an argument; those of the values handed back to the engine are not
  modelled. Reading memory after it was freed is the outer \<^term>\<open>None\<close>.
\<close>

section \<open>Doubles\<close>

text \<open>Round to nearest even of a natural number to 53 bits; \<^term>\<open>None\<close> is infinity. Every
  operation of the source is rounded by itself (no contraction into a fused multiply-add).\<close>

fun nat_bits :: "nat \<Rightarrow> nat" where
  "nat_bits n = (if n = 0 then 0 else Suc (nat_bits (n div 2)))"

declare nat_bits.simps [simp del]

definition dbl_round :: "nat \<Rightarrow> nat option" where
  "dbl_round n =
     (if n < 2 ^ 53 then Some n
      else
        (let e = nat_bits n - 53; q = n div 2 ^ e; r = n mod 2 ^ e;
             q' = (if 2 * r > 2 ^ e \<or> 2 * r = 2 ^ e \<and> odd q then q + 1 else q)
         in if q' * 2 ^ e \<ge> 2 ^ 1024 then None else Some (q' * 2 ^ e)))"

definition dbl_num :: "nat option \<Rightarrow> jsval" where
  "dbl_num d = (case d of None \<Rightarrow> JNum JsPInf | Some n \<Rightarrow> js_nat n)"

text \<open>\<open>JS_NewInt64\<close>: a number that is not a small integer becomes a double.\<close>

definition js_num :: "nat \<Rightarrow> jsval" where
  "js_num n = dbl_num (dbl_round n)"

section \<open>Version objects\<close>

definition dbl_digit :: "nat option \<Rightarrow> char \<Rightarrow> nat option" where
  "dbl_digit d c = do { x \<leftarrow> d; y \<leftarrow> dbl_round (x * 10); dbl_round (y + dig_val c) }"

definition sv_id_number :: "semver_id \<Rightarrow> jsval" where
  "sv_id_number i =
     (if length (id_s i) \<le> 18 then js_num (foldl (\<lambda>x c. u64 (x * 10 + dig_val c)) 0 (id_s i))
      else dbl_num (foldl dbl_digit (Some 0) (id_s i)))"

definition sv_pre_array :: "semver \<Rightarrow> jsval" where
  "sv_pre_array v = JArr (map (\<lambda>i. if id_numeric i then sv_id_number i else JStr (id_s i)) (sv_pre v))"

definition sv_build_array :: "semver \<Rightarrow> jsval" where
  "sv_build_array v = JArr (map (\<lambda>i. JStr (id_s i)) (sv_build v))"

definition sv_arg_str :: "jsval list \<Rightarrow> string res" where
  "sv_arg_str argv =
     (case argv of
        JStr s # _ \<Rightarrow> Inr s
      | _ \<Rightarrow> Inl (TypeError ''dyna:semver: argument must be a string''))"

text \<open>\<open>JS_ToCStringLen2\<close> returns the bytes of an 8-bit ASCII string in place, and the argument (or
  the rope it was linearized from) keeps them alive; every other conversion is a fresh copy that
  \<open>JS_FreeCString\<close> frees. \<open>wide\<close> says that the engine stores the string with 16-bit units, which it
  may do for ASCII text too.\<close>

definition cstring_is_copy :: "bool \<Rightarrow> string \<Rightarrow> bool" where
  "cstring_is_copy wide s \<longleftrightarrow> wide \<or> \<not> list_all (\<lambda>c. (of_char c :: nat) < 128) s"

text \<open>What the conversion \<open>%.*s\<close> prints: at most \<open>k\<close> bytes, up to the first zero byte.\<close>

definition printf_prec_s :: "nat \<Rightarrow> string \<Rightarrow> string" where
  "printf_prec_s k s = takeWhile (\<lambda>c. c \<noteq> CHR 0x00) (take k s)"

definition dyn_semver_parse :: "bool \<Rightarrow> jsval list \<Rightarrow> jsval res option" where
  "dyn_semver_parse wide argv =
     (case sv_arg_str argv of
        Inl e \<Rightarrow> Some (Inl e)
      | Inr s \<Rightarrow>
          (case semver_parse s of
             None \<Rightarrow>
               if cstring_is_copy wide s then None
               else Some (Inl (TypeError (''dyna:semver: invalid version \"'' @ printf_prec_s (if length s > 80 then 80 else length s) s @ ''\"'')))
           | Some v \<Rightarrow>
               Some (Inr (JObj [(''major'', js_num (sv_major v)), (''minor'', js_num (sv_minor v)),
                 (''patch'', js_num (sv_patch v)), (''prerelease'', sv_pre_array v),
                 (''build'', sv_build_array v), (''version'', JStr (sv_build_version v))]))))"

definition dyn_semver_is_valid :: "jsval list \<Rightarrow> jsval" where
  "dyn_semver_is_valid argv =
     (case argv of
        JStr s # _ \<Rightarrow> JBool (semver_parse s \<noteq> None)
      | _ \<Rightarrow> JBool False)"

definition clean_space :: "char \<Rightarrow> bool" where
  "clean_space c \<longleftrightarrow> c = CHR '' '' \<or> c = CHR 0x09 \<or> c = CHR 0x0A \<or> c = CHR 0x0D"

definition dyn_semver_clean :: "jsval list \<Rightarrow> jsval res" where
  "dyn_semver_clean argv =
     (case sv_arg_str argv of
        Inl e \<Rightarrow> Inl e
      | Inr s \<Rightarrow>
          (let s1 = dropWhile clean_space s;
               s2 = rev (dropWhile clean_space (rev s1));
               s3 = dropWhile (\<lambda>c. c = CHR ''='' \<or> c = CHR ''v'') s2
           in Inr (case semver_parse s3 of None \<Rightarrow> JNull | Some v \<Rightarrow> JStr (sv_build_version v))))"

datatype sv_fld = FLD_MAJOR | FLD_MINOR | FLD_PATCH | FLD_PRERELEASE

definition dyn_semver_field :: "sv_fld \<Rightarrow> jsval list \<Rightarrow> jsval res" where
  "dyn_semver_field magic argv =
     (case sv_arg_str argv of
        Inl e \<Rightarrow> Inl e
      | Inr s \<Rightarrow>
          (case semver_parse s of
             None \<Rightarrow> Inl (TypeError ''dyna:semver: invalid version'')
           | Some v \<Rightarrow>
               Inr (case magic of
                      FLD_MAJOR \<Rightarrow> js_num (sv_major v)
                    | FLD_MINOR \<Rightarrow> js_num (sv_minor v)
                    | FLD_PATCH \<Rightarrow> js_num (sv_patch v)
                    | FLD_PRERELEASE \<Rightarrow> sv_pre_array v)))"

section \<open>Comparison\<close>

definition sv_two :: "jsval list \<Rightarrow> int res" where
  "sv_two argv =
     (case argv of
        JStr a # JStr b # _ \<Rightarrow>
          (case (semver_parse a, semver_parse b) of
             (Some v, Some w) \<Rightarrow> Inr (semver_compare v w)
           | _ \<Rightarrow> Inl (TypeError ''dyna:semver: invalid version''))
      | _ \<Rightarrow> Inl (TypeError ''dyna:semver: expected two version strings''))"

definition dyn_semver_compare :: "jsval list \<Rightarrow> jsval res" where
  "dyn_semver_compare argv = map_sum id js_int (sv_two argv)"

datatype sv_cmpop = CMP_GT | CMP_GTE | CMP_LT | CMP_LTE | CMP_EQ | CMP_NEQ

definition dyn_semver_cmpbool :: "sv_cmpop \<Rightarrow> jsval list \<Rightarrow> jsval res" where
  "dyn_semver_cmpbool magic argv =
     map_sum id (\<lambda>c. JBool (case magic of CMP_GT \<Rightarrow> c > 0 | CMP_GTE \<Rightarrow> c \<ge> 0 | CMP_LT \<Rightarrow> c < 0
                           | CMP_LTE \<Rightarrow> c \<le> 0 | CMP_EQ \<Rightarrow> c = 0 | CMP_NEQ \<Rightarrow> c \<noteq> 0))
       (sv_two argv)"

section \<open>Arrays of versions\<close>

text \<open>What the engine answers about an array argument: whether it is an array, its length after
  \<open>JS_ToUint32\<close>, and its elements; each read may run user code and throw.\<close>

record arr_view =
  av_is_array :: "bool res"
  av_length :: "nat res"
  av_get :: "nat \<Rightarrow> jsval res"

definition sizeof_SemVer :: nat where
  "sizeof_SemVer = 3 * 8 + 2 * (8 + SEMVER_MAX_IDS * 24)"

fun sv_read_loop :: "(nat \<Rightarrow> jsval res) \<Rightarrow> nat \<Rightarrow> nat \<Rightarrow> (jsval \<times> semver) list res" where
  "sv_read_loop get i 0 = Inr []"
| "sv_read_loop get i (Suc k) =
     (case get i of
        Inl e \<Rightarrow> Inl e
      | Inr (JStr s) \<Rightarrow>
          (case semver_parse s of
             None \<Rightarrow> Inl (TypeError ''dyna:semver: invalid version in array'')
           | Some v \<Rightarrow> map_sum id (Cons (JStr s, v)) (sv_read_loop get (i + 1) k))
      | Inr _ \<Rightarrow> Inl (TypeError ''dyna:semver: every array element must be a string''))"

definition sv_read_versions :: "arr_view \<Rightarrow> bool \<Rightarrow> (jsval \<times> semver) list res" where
  "sv_read_versions a mem =
     (case av_is_array a of
        Inl e \<Rightarrow> Inl e
      | Inr isarr \<Rightarrow>
          if \<not> isarr then Inl (TypeError ''dyna:semver: expected an Array of versions'')
          else
            (case av_length a of
               Inl e \<Rightarrow> Inl e
             | Inr n \<Rightarrow>
                 (let len = u32 n
                  in if len > 0 \<and> len > (2 ^ 64 - 1) div sizeof_SemVer then
                       Inl (RangeError ''dyna:semver: array too large'')
                     else if len > 0 \<and> \<not> mem then Inl OutOfMemory
                     else sv_read_loop (av_get a) 0 len)))"

text \<open>\<open>None\<close> for the array: the argument is missing.\<close>

definition dyn_semver_sort :: "arr_view option \<Rightarrow> bool \<Rightarrow> bool \<Rightarrow> jsval res option" where
  "dyn_semver_sort arr mem1 mem2 =
     (case arr of
        None \<Rightarrow> Some (Inl (TypeError ''dyna:semver: sort expects an Array of versions''))
      | Some a \<Rightarrow>
          (case sv_read_versions a mem1 of
             Inl e \<Rightarrow> Some (Inl e)
           | Inr es \<Rightarrow>
               if length es = 0 then Some (Inr (JArr []))
               else if \<not> mem2 then Some (Inl OutOfMemory)
               else map_option (\<lambda>idx. Inr (JArr (map (\<lambda>i. fst (es ! i)) idx)))
                      (sv_sort_indices (map snd es) [0 ..< length es])))"

fun sv_best :: "bool \<Rightarrow> comp_set list \<Rightarrow> (jsval \<times> semver) option \<Rightarrow> (jsval \<times> semver) list \<Rightarrow>
    (jsval \<times> semver) option" where
  "sv_best want_max rg best [] = best"
| "sv_best want_max rg best (e # es) =
     (if \<not> range_test (snd e) rg then sv_best want_max rg best es
      else (case best of
              None \<Rightarrow> sv_best want_max rg (Some e) es
            | Some b \<Rightarrow>
                (let c = semver_compare (snd e) (snd b)
                 in sv_best want_max rg (Some (if (if want_max then c > 0 else c < 0) then e else b)) es)))"

definition dyn_semver_bestsat :: "bool \<Rightarrow> arr_view \<Rightarrow> jsval list \<Rightarrow> bool \<Rightarrow> bool \<Rightarrow> jsval res" where
  "dyn_semver_bestsat want_max a argv mem1 mem2 =
     (case argv of
        _ # JStr rs # _ \<Rightarrow>
          (case sv_read_versions a mem1 of
             Inl e \<Rightarrow> Inl e
           | Inr es \<Rightarrow>
               if \<not> mem2 then Inl OutOfMemory
               else (case parse_range rs of
                       None \<Rightarrow> Inl (TypeError ''dyna:semver: invalid range'')
                     | Some rg \<Rightarrow>
                         Inr (case sv_best want_max rg None es of None \<Rightarrow> JNull | Some e \<Rightarrow> fst e)))
      | _ \<Rightarrow> Inl (TypeError ''dyna:semver: expected (Array, rangeString)''))"

definition dyn_semver_satisfies :: "jsval list \<Rightarrow> bool \<Rightarrow> jsval res" where
  "dyn_semver_satisfies argv mem =
     (case argv of
        JStr vs # JStr rs # _ \<Rightarrow>
          (case semver_parse vs of
             None \<Rightarrow> Inl (TypeError ''dyna:semver: invalid version'')
           | Some v \<Rightarrow>
               if \<not> mem then Inl OutOfMemory
               else (case parse_range rs of
                       None \<Rightarrow> Inl (TypeError ''dyna:semver: invalid range'')
                     | Some rg \<Rightarrow> Inr (JBool (range_test v rg))))
      | _ \<Rightarrow> Inl (TypeError ''dyna:semver: satisfies(version, range) expects two strings''))"

section \<open>Increment\<close>

datatype inc_id = IncNum nat | IncStr string

record inc_ver =
  iv_major :: nat
  iv_minor :: nat
  iv_patch :: nat
  iv_pre :: "inc_id list"

datatype sv_rel = REL_MAJOR | REL_MINOR | REL_PATCH | REL_PREMAJOR | REL_PREMINOR | REL_PREPATCH | REL_PRERELEASE

definition inc_cmp_id0 :: "inc_id \<Rightarrow> string \<Rightarrow> int" where
  "inc_cmp_id0 a x =
     (let id_num = (length x > 0 \<and> list_all is_dig x)
      in case a of
           IncNum k \<Rightarrow> if id_num then sv_cmp_num (sv_u64toa k) x else -1
         | IncStr s \<Rightarrow>
             if id_num then 1
             else
               (let m = (if length s < length x then length s else length x); c = memcmp s x m
                in if c \<noteq> 0 then (if c < 0 then -1 else 1)
                   else if length s \<noteq> length x then (if length s < length x then -1 else 1)
                   else 0))"

fun inc_is_num :: "inc_id \<Rightarrow> bool" where
  "inc_is_num (IncNum _) = True"
| "inc_is_num (IncStr _) = False"

text \<open>Increment the last numeric identifier; \<open>None\<close> when there is none.\<close>

fun inc_bump_last :: "inc_id list \<Rightarrow> inc_id list option" where
  "inc_bump_last [] = None"
| "inc_bump_last (i # is) =
     (case inc_bump_last is of
        Some is' \<Rightarrow> Some (i # is')
      | None \<Rightarrow> (case i of IncNum k \<Rightarrow> Some (IncNum (u64 (k + 1)) # is) | IncStr _ \<Rightarrow> None))"

definition inc_pre_step :: "string option \<Rightarrow> inc_ver \<Rightarrow> inc_ver" where
  "inc_pre_step ident v =
     (let pre =
        (if iv_pre v = [] then [IncNum 0]
         else (case inc_bump_last (iv_pre v) of
                 Some pre' \<Rightarrow> pre'
               | None \<Rightarrow> if length (iv_pre v) < SEMVER_MAX_IDS + 2 then iv_pre v @ [IncNum 0] else iv_pre v))
      in case ident of
           None \<Rightarrow> v\<lparr>iv_pre := pre\<rparr>
         | Some x \<Rightarrow>
             if inc_cmp_id0 (pre ! 0) x = 0 \<and> length pre \<ge> 2 \<and> inc_is_num (pre ! 1) then v\<lparr>iv_pre := pre\<rparr>
             else v\<lparr>iv_pre := [IncStr x, IncNum 0]\<rparr>)"

definition inc_apply :: "sv_rel \<Rightarrow> string option \<Rightarrow> inc_ver \<Rightarrow> inc_ver" where
  "inc_apply rel ident v =
     (case rel of
        REL_MAJOR \<Rightarrow>
          v\<lparr>iv_major := (if iv_minor v \<noteq> 0 \<or> iv_patch v \<noteq> 0 \<or> iv_pre v = [] then u64 (iv_major v + 1) else iv_major v),
            iv_minor := 0, iv_patch := 0, iv_pre := []\<rparr>
      | REL_MINOR \<Rightarrow>
          v\<lparr>iv_minor := (if iv_patch v \<noteq> 0 \<or> iv_pre v = [] then u64 (iv_minor v + 1) else iv_minor v),
            iv_patch := 0, iv_pre := []\<rparr>
      | REL_PATCH \<Rightarrow>
          v\<lparr>iv_patch := (if iv_pre v = [] then u64 (iv_patch v + 1) else iv_patch v), iv_pre := []\<rparr>
      | REL_PREMAJOR \<Rightarrow>
          inc_pre_step ident (v\<lparr>iv_pre := [], iv_patch := 0, iv_minor := 0, iv_major := u64 (iv_major v + 1)\<rparr>)
      | REL_PREMINOR \<Rightarrow>
          inc_pre_step ident (v\<lparr>iv_pre := [], iv_patch := 0, iv_minor := u64 (iv_minor v + 1)\<rparr>)
      | REL_PREPATCH \<Rightarrow> inc_pre_step ident (v\<lparr>iv_pre := [], iv_patch := u64 (iv_patch v + 1)\<rparr>)
      | REL_PRERELEASE \<Rightarrow>
          inc_pre_step ident (if iv_pre v = [] then v\<lparr>iv_patch := u64 (iv_patch v + 1)\<rparr> else v))"

fun inc_id_text :: "inc_id \<Rightarrow> string" where
  "inc_id_text (IncNum k) = sv_u64toa k"
| "inc_id_text (IncStr s) = s"

fun inc_join :: "inc_id list \<Rightarrow> string" where
  "inc_join [] = []"
| "inc_join [i] = inc_id_text i"
| "inc_join (i # j # is) = inc_id_text i @ CHR ''.'' # inc_join (j # is)"

definition inc_format :: "inc_ver \<Rightarrow> string" where
  "inc_format v =
     sv_u64toa (iv_major v) @ CHR ''.'' # sv_u64toa (iv_minor v) @ CHR ''.'' # sv_u64toa (iv_patch v) @
     (if iv_pre v \<noteq> [] then CHR ''-'' # inc_join (iv_pre v) else [])"

definition inc_release_id :: "string \<Rightarrow> sv_rel option" where
  "inc_release_id s =
     map_of [(''major'', REL_MAJOR), (''minor'', REL_MINOR), (''patch'', REL_PATCH),
       (''premajor'', REL_PREMAJOR), (''preminor'', REL_PREMINOR), (''prepatch'', REL_PREPATCH),
       (''prerelease'', REL_PRERELEASE)] s"

text \<open>Numeric identifiers are read from at most their first 18 digits.\<close>

definition inc_of_id :: "semver_id \<Rightarrow> inc_id" where
  "inc_of_id i =
     (if id_numeric i then IncNum (foldl (\<lambda>x c. u64 (x * 10 + dig_val c)) 0 (take 18 (id_s i)))
      else IncStr (id_s i))"

definition inc_of_semver :: "semver \<Rightarrow> inc_ver" where
  "inc_of_semver v = \<lparr>iv_major = sv_major v, iv_minor = sv_minor v, iv_patch = sv_patch v,
     iv_pre = map inc_of_id (sv_pre v)\<rparr>"

definition dyn_semver_inc :: "jsval list \<Rightarrow> jsval res" where
  "dyn_semver_inc argv =
     (case argv of
        JStr vs # JStr rel_s # rest \<Rightarrow>
          (if rest \<noteq> [] \<and> hd rest \<noteq> JUndef \<and> \<not> is_jstr (hd rest) then
             Inl (TypeError ''dyna:semver: inc identifier must be a string'')
           else
             (let ident = (case rest of JStr x # _ \<Rightarrow> Some x | _ \<Rightarrow> None)
              in case inc_release_id rel_s of
                   None \<Rightarrow> Inl (TypeError ''dyna:semver: invalid release type'')
                 | Some rel \<Rightarrow>
                     (case semver_parse vs of
                        None \<Rightarrow> Inl (TypeError ''dyna:semver: invalid version'')
                      | Some v \<Rightarrow> Inr (JStr (inc_format (inc_apply rel ident (inc_of_semver v)))))))
      | _ \<Rightarrow> Inl (TypeError ''dyna:semver: inc(version, release[, identifier]) expects strings''))"

section \<open>Coercion\<close>

text \<open>A dot and a run of at most 16 digits at the start of the text, and what follows it.\<close>

definition coerce_part :: "string \<Rightarrow> (string \<times> string) option" where
  "coerce_part s =
     (case s of
        c # d # r \<Rightarrow>
          if c = CHR ''.'' \<and> is_dig d then
            (let run = takeWhile is_dig (d # r)
             in if length run \<le> 16 then Some (run, dropWhile is_dig (d # r)) else None)
          else None
      | _ \<Rightarrow> None)"

definition coerce_candidate :: "string \<Rightarrow> string \<Rightarrow> string" where
  "coerce_candidate run rest =
     (case coerce_part rest of
        None \<Rightarrow> run @ ''.0.0''
      | Some (mi, rest2) \<Rightarrow>
          (case coerce_part rest2 of
             None \<Rightarrow> run @ ''.'' @ mi @ ''.0''
           | Some (pa, _) \<Rightarrow> run @ ''.'' @ mi @ ''.'' @ pa))"

function coerce_scan :: "bool \<Rightarrow> string \<Rightarrow> string option" where
  "coerce_scan prev [] = None"
| "coerce_scan prev (c # cs) =
     (if \<not> is_dig c \<or> prev then coerce_scan (is_dig c) cs
      else
        (let run = takeWhile is_dig (c # cs); rest = dropWhile is_dig (c # cs)
         in if length run > 16 then coerce_scan True rest
            else Some (coerce_candidate run rest)))"
  by pat_completeness auto
termination
  by (relation "measure (\<lambda>(prev, s). length s)") (auto simp: le_imp_less_Suc length_dropWhile_le)

definition dyn_semver_coerce :: "jsval list \<Rightarrow> jsval res" where
  "dyn_semver_coerce argv =
     (case sv_arg_str argv of
        Inl e \<Rightarrow> Inl e
      | Inr s \<Rightarrow>
          Inr (case coerce_scan False s of
                 None \<Rightarrow> JNull
               | Some buf \<Rightarrow> if semver_parse buf \<noteq> None then JStr buf else JNull))"

section \<open>The best satisfying version\<close>

definition sv_better :: "bool \<Rightarrow> semver \<Rightarrow> semver \<Rightarrow> bool" where
  "sv_better want_max v w \<longleftrightarrow> (if want_max then sv_key w < sv_key v else sv_key v < sv_key w)"

lemma sv_better_compare:
  "sv_wf v \<Longrightarrow> sv_wf w \<Longrightarrow>
     (if want_max then semver_compare v w > 0 else semver_compare v w < 0) \<longleftrightarrow> sv_better want_max v w"
  using semver_compare_ord [of False v False w] by (auto simp: sv_wf_def sv_better_def ord_sign_def)

lemma sv_better_trans: "sv_better m u v \<Longrightarrow> sv_better m v w \<Longrightarrow> sv_better m u w"
  by (auto simp: sv_better_def split: if_splits)

lemma sv_better_not_trans: "sv_better m u v \<Longrightarrow> \<not> sv_better m w v \<Longrightarrow> sv_better m u w"
  by (auto simp: sv_better_def split: if_splits)

text \<open>\<open>e\<close> is the first of the best satisfying elements.\<close>

definition first_best :: "bool \<Rightarrow> comp_set list \<Rightarrow> (jsval \<times> semver) list \<Rightarrow> jsval \<times> semver \<Rightarrow> bool" where
  "first_best m rg es e \<longleftrightarrow>
     (\<exists>before after. es = before @ e # after \<and> range_test (snd e) rg \<and>
        (\<forall>x \<in> set before. range_test (snd x) rg \<longrightarrow> sv_better m (snd e) (snd x)) \<and>
        (\<forall>x \<in> set after. range_test (snd x) rg \<longrightarrow> \<not> sv_better m (snd x) (snd e)))"

lemma first_best_skip: "first_best m rg es e \<Longrightarrow> \<not> range_test (snd x) rg \<Longrightarrow> first_best m rg (x # es) e"
  unfolding first_best_def by (metis append_Cons set_ConsD)

lemma first_best_later:
  "first_best m rg es e \<Longrightarrow> sv_better m (snd e) (snd x) \<Longrightarrow> first_best m rg (x # es) e"
  unfolding first_best_def by (metis append_Cons set_ConsD)

lemma first_best_here:
  "range_test (snd e) rg \<Longrightarrow> \<forall>x \<in> set es. range_test (snd x) rg \<longrightarrow> \<not> sv_better m (snd x) (snd e) \<Longrightarrow>
     first_best m rg (e # es) e"
  unfolding first_best_def by (metis append_Nil empty_iff list.set(1))

lemma sv_best_Some:
  "sv_wf (snd b) \<Longrightarrow> \<forall>e \<in> set es. sv_wf (snd e) \<Longrightarrow>
     \<exists>r. sv_best m rg (Some b) es = Some r \<and>
       (r = b \<and> (\<forall>x \<in> set es. range_test (snd x) rg \<longrightarrow> \<not> sv_better m (snd x) (snd b)) \<or>
        first_best m rg es r \<and> sv_better m (snd r) (snd b))"
proof (induction es arbitrary: b)
  case (Cons e es)
  have wf: "sv_wf (snd e)" "\<forall>x \<in> set es. sv_wf (snd x)" using Cons.prems by auto
  show ?case
  proof (cases "range_test (snd e) rg")
    case False
    then show ?thesis using Cons.IH [OF Cons.prems(1) wf(2)] first_best_skip [of m rg es _ e] by auto
  next
    case True
    note step = sv_better_compare [OF wf(1) Cons.prems(1), of m]
    show ?thesis
    proof (cases "sv_better m (snd e) (snd b)")
      case better: True
      from Cons.IH [OF wf] obtain r where r: "sv_best m rg (Some e) es = Some r"
        and c: "r = e \<and> (\<forall>x \<in> set es. range_test (snd x) rg \<longrightarrow> \<not> sv_better m (snd x) (snd e)) \<or>
          first_best m rg es r \<and> sv_better m (snd r) (snd e)" by blast
      have "first_best m rg (e # es) r \<and> sv_better m (snd r) (snd b)"
        using c True better first_best_here first_best_later sv_better_trans by blast
      moreover have "sv_best m rg (Some b) (e # es) = Some r" using True better step r by (simp add: Let_def)
      ultimately show ?thesis by blast
    next
      case worse: False
      from Cons.IH [OF Cons.prems(1) wf(2)] obtain r where r: "sv_best m rg (Some b) es = Some r"
        and c: "r = b \<and> (\<forall>x \<in> set es. range_test (snd x) rg \<longrightarrow> \<not> sv_better m (snd x) (snd b)) \<or>
          first_best m rg es r \<and> sv_better m (snd r) (snd b)" by blast
      have "r = b \<and> (\<forall>x \<in> set (e # es). range_test (snd x) rg \<longrightarrow> \<not> sv_better m (snd x) (snd b)) \<or>
          first_best m rg (e # es) r \<and> sv_better m (snd r) (snd b)"
        using c worse first_best_later sv_better_not_trans by (metis set_ConsD)
      moreover have "sv_best m rg (Some b) (e # es) = Some r" using True worse step r by (simp add: Let_def)
      ultimately show ?thesis by blast
    qed
  qed
qed simp

lemma sv_best_None:
  "\<forall>e \<in> set es. sv_wf (snd e) \<Longrightarrow>
     (case sv_best m rg None es of
        None \<Rightarrow> \<forall>e \<in> set es. \<not> range_test (snd e) rg
      | Some e \<Rightarrow> first_best m rg es e)"
proof (induction es)
  case (Cons e es)
  show ?case
  proof (cases "range_test (snd e) rg")
    case True
    from sv_best_Some [of e es m rg] Cons.prems obtain r where r: "sv_best m rg (Some e) es = Some r"
      and c: "r = e \<and> (\<forall>x \<in> set es. range_test (snd x) rg \<longrightarrow> \<not> sv_better m (snd x) (snd e)) \<or>
        first_best m rg es r \<and> sv_better m (snd r) (snd e)" by auto
    have "first_best m rg (e # es) r" using c True first_best_here first_best_later by blast
    then show ?thesis using True r by simp
  next
    case False
    then show ?thesis using Cons first_best_skip [of m rg es _ e] by (auto split: option.splits)
  qed
qed simp

lemma sv_read_loop_wf: "sv_read_loop get i k = Inr es \<Longrightarrow> \<forall>e \<in> set es. sv_wf (snd e)"
proof (induction k arbitrary: i es)
  case (Suc k)
  then obtain s v es' where "semver_parse s = Some v" "sv_read_loop get (i + 1) k = Inr es'" "es = (JStr s, v) # es'"
    by (auto split: sum.splits jsval.splits option.splits simp: map_sum_def)
  then show ?case using Suc.IH semver_parse_sound by auto
qed simp

lemma sv_read_versions_wf: "sv_read_versions a mem = Inr es \<Longrightarrow> \<forall>e \<in> set es. sv_wf (snd e)"
  using sv_read_loop_wf by (auto simp: sv_read_versions_def Let_def split: sum.splits if_splits)

text \<open>
  C32. When the array holds valid versions, the range is valid and memory suffices,
  \<open>maxSatisfying\<close> (and \<open>minSatisfying\<close>) returns null exactly if no element satisfies the range, and
  otherwise the original value of the first among the satisfying elements of highest (lowest)
  precedence.
\<close>

theorem bestsat_first_best:
  assumes "sv_read_versions a mem = Inr es" "parse_range rs = Some rg"
  shows "\<exists>r. dyn_semver_bestsat want_max a (x # JStr rs # rest) mem True = Inr r \<and>
    (if \<forall>e \<in> set es. \<not> range_test (snd e) rg then r = JNull
     else \<exists>e. r = fst e \<and> first_best want_max rg es e)"
proof -
  have b: "case sv_best want_max rg None es of
        None \<Rightarrow> \<forall>e \<in> set es. \<not> range_test (snd e) rg
      | Some e \<Rightarrow> first_best want_max rg es e"
    using sv_best_None [OF sv_read_versions_wf [OF assms(1)]] .
  have "first_best want_max rg es e \<Longrightarrow> \<not> (\<forall>e \<in> set es. \<not> range_test (snd e) rg)" for e
    by (auto simp: first_best_def)
  with b show ?thesis using assms by (auto simp: dyn_semver_bestsat_def split: option.splits)
qed

definition arr_of :: "jsval list \<Rightarrow> arr_view" where
  "arr_of vs = \<lparr>av_is_array = Inr True, av_length = Inr (length vs), av_get = (\<lambda>i. Inr (vs ! i))\<rparr>"

lemma sv_read_arr_of:
  assumes "length vs < 2 ^ 32"
  shows "sv_read_versions (arr_of vs) True = sv_read_loop (\<lambda>i. Inr (vs ! i)) 0 (length vs)"
proof -
  have "\<not> length vs > (2 ^ 64 - 1) div sizeof_SemVer"
    using assms by (simp add: sizeof_SemVer_def SEMVER_MAX_IDS_def)
  then show ?thesis using assms by (simp add: sv_read_versions_def arr_of_def u32_def Let_def)
qed

theorem bestsat_first_best_witness:
  "\<exists>es rg r. sv_read_versions (arr_of [JStr ''1.2.0'', JStr ''2.0.0'']) True = Inr es \<and>
     parse_range ''^1.2'' = Some rg \<and>
     dyn_semver_bestsat True (arr_of [JStr ''1.2.0'', JStr ''2.0.0'']) [JNull, JStr ''^1.2''] True True = Inr r \<and>
     (if \<forall>e \<in> set es. \<not> range_test (snd e) rg then r = JNull else \<exists>e. r = fst e \<and> first_best True rg es e)"
proof -
  obtain es where es: "sv_read_versions (arr_of [JStr ''1.2.0'', JStr ''2.0.0'']) True = Inr es"
    using sv_read_arr_of [of "[JStr ''1.2.0'', JStr ''2.0.0'']"] by (simp add: sv_eval)
  obtain rg where rg: "parse_range ''^1.2'' = Some rg"
    using parse_range_token [of "''^''" OP_CARET "''1.2''"] by (simp add: range_eval sv_eval)
  from bestsat_first_best [OF es rg, of True JNull "[]"] es rg show ?thesis by auto
qed

section \<open>Defects of the boundary functions\<close>


text \<open>The numbers printed in the example below.\<close>

lemma inc_truncates:
  "dyn_semver_inc [JStr ''1.0.0-1234567890123456789'', JStr ''prerelease''] =
     Inr (JStr ''1.0.0-123456789012345679'')"
proof -
  have "dec_str 123456789012345679 = ''123456789012345679''"
    using dec_str_val [of "''123456789012345679''"]
    by (simp add: strict_num_def is_dig_def less_eq_char_def dec_val_def dig_val_def)
  moreover have "dec_str 1 = ''1''" "dec_str 0 = ''0''"
    using dec_str_val [of "''1''"] dec_str_val [of "''0''"]
    by (simp_all add: strict_num_def is_dig_def less_eq_char_def dec_val_def dig_val_def)
  ultimately show ?thesis
    by (simp add: dyn_semver_inc_def inc_release_id_def inc_apply_def inc_pre_step_def inc_of_semver_def
        inc_of_id_def inc_format_def sv_u64toa_dec_str sv_eval)
qed


end
