(* ===== verification/Dyna_SemverInc.thy ===== *)
theory Dyna_SemverInc
  imports Dyna_SemverApi
begin

text \<open>
  \<open>inc\<close> and \<open>coerce\<close> of \<^verbatim>\<open>src/src/dyna-semver.c\<close> against precedence: an incremented version
  parses and is higher, and a coerced text is a release version that \<open>coerce\<close> keeps.
\<close>

section \<open>Mutable versions as versions\<close>

fun inc_sem_id :: "inc_id \<Rightarrow> semver_id" where
  "inc_sem_id (IncNum k) = \<lparr>id_s = dec_str k, id_numeric = True\<rparr>"
| "inc_sem_id (IncStr s) = \<lparr>id_s = s, id_numeric = False\<rparr>"

definition inc_sem :: "inc_ver \<Rightarrow> semver" where
  "inc_sem v = \<lparr>sv_major = iv_major v, sv_minor = iv_minor v, sv_patch = iv_patch v,
     sv_pre = map inc_sem_id (iv_pre v), sv_build = []\<rparr>"

text \<open>Numbers stay below a bound that leaves room for one increment.\<close>

fun inc_id_ok :: "nat \<Rightarrow> inc_id \<Rightarrow> bool" where
  "inc_id_ok b (IncNum k) \<longleftrightarrow> k < b"
| "inc_id_ok b (IncStr s) \<longleftrightarrow> s \<noteq> [] \<and> sv_id_chars s \<and> \<not> list_all is_dig s"

lemma dec_str_id_chars: "sv_id_chars (dec_str k)"
  using dec_str_digits [of k] by (auto simp: sv_id_chars_def list_all_iff)

lemma inc_sem_id_ok: "inc_id_ok b i \<Longrightarrow> sv_id_ok False (inc_sem_id i)"
  by (cases i) (simp_all add: sv_id_ok_def dec_str_id_chars dec_str_digits strict_num_dec_str)

lemma inc_id_text_sem: "inc_id_text i = id_s (inc_sem_id i)"
  by (cases i) (simp_all add: sv_u64toa_dec_str)

lemma inc_join_sem: "inc_join is = sv_join (map inc_sem_id is)"
  by (induction "is" rule: inc_join.induct) (simp_all add: inc_id_text_sem)

lemma inc_format_sem: "inc_format v = sv_full (inc_sem v)"
  by (simp add: inc_format_def sv_full_def sv_build_version_def inc_sem_def inc_join_sem)

definition inc_ok :: "nat \<Rightarrow> inc_ver \<Rightarrow> bool" where
  "inc_ok b v \<longleftrightarrow> iv_major v \<le> SV_MAX_SAFE \<and> iv_minor v \<le> SV_MAX_SAFE \<and> iv_patch v \<le> SV_MAX_SAFE \<and>
     length (iv_pre v) \<le> SEMVER_MAX_IDS \<and> list_all (inc_id_ok b) (iv_pre v)"

lemma inc_format_parses: "inc_ok b v \<Longrightarrow> semver_parse (inc_format v) = Some (inc_sem v)"
  unfolding inc_format_sem
  by (rule semver_parse_complete)
    (auto simp: inc_ok_def inc_sem_def sv_wf_def sv_ids_ok_def list_all_iff inc_sem_id_ok)

section \<open>Reading a version\<close>

lemma foldl_u64_dec:
  "list_all is_dig s \<Longrightarrow> length s \<le> 19 \<Longrightarrow> foldl (\<lambda>x c. u64 (x * 10 + dig_val c)) 0 s = dec_val s"
proof (induction s rule: rev_induct)
  case (snoc c s)
  have "dec_val (s @ [c]) < 10 ^ length (s @ [c])" using snoc.prems dec_val_bound by blast
  also have "\<dots> \<le> (10 :: nat) ^ 19" using snoc.prems by (intro power_increasing) simp_all
  finally show ?case using snoc by (simp add: u64_def)
qed simp

definition short_numbers :: "semver \<Rightarrow> bool" where
  "short_numbers v \<longleftrightarrow> list_all (\<lambda>i. id_numeric i \<longrightarrow> length (id_s i) \<le> 18) (sv_pre v)"

lemma inc_of_id_sem:
  assumes "sv_id_ok False i" "id_numeric i \<longrightarrow> length (id_s i) \<le> 18"
  shows "inc_id_ok (10 ^ 18) (inc_of_id i) \<and> inc_sem_id (inc_of_id i) = i"
proof (cases "id_numeric i")
  case True
  then have d: "strict_num (id_s i)" "list_all is_dig (id_s i)" using assms by (auto simp: sv_id_ok_def)
  have "dec_val (id_s i) < 10 ^ length (id_s i)" using d dec_val_bound by blast
  also have "\<dots> \<le> (10 :: nat) ^ 18" using assms True by (intro power_increasing) simp_all
  finally show ?thesis using True assms d foldl_u64_dec [of "id_s i"]
    by (simp add: inc_of_id_def dec_str_val)
next
  case False
  then show ?thesis using assms by (simp add: inc_of_id_def sv_id_ok_def)
qed

section \<open>Prerelease steps\<close>

abbreviation ik :: "inc_id \<Rightarrow> bool \<times> nat \<times> string" where
  "ik i \<equiv> id_key (inc_sem_id i)"

lemma inc_bump_last_up:
  "list_all (inc_id_ok (10 ^ 18)) is \<Longrightarrow> inc_bump_last is = Some is' \<Longrightarrow>
     map ik is < map ik is' \<and> length is' = length is \<and> list_all (inc_id_ok (10 ^ 18 + 1)) is'"
proof (induction "is" arbitrary: is')
  case (Cons i "is")
  have weak: "inc_id_ok (10 ^ 18) j \<Longrightarrow> inc_id_ok (10 ^ 18 + 1) j" for j by (cases j) auto
  show ?case
  proof (cases "inc_bump_last is")
    case None
    then obtain k where "i = IncNum k" "is' = IncNum (u64 (k + 1)) # is"
      using Cons.prems by (auto split: inc_id.splits)
    then show ?thesis using Cons.prems weak
      by (auto simp: u64_def id_key_def list_all_iff)
  next
    case (Some is2)
    then show ?thesis using Cons weak by auto
  qed
qed simp

lemma list_less_append: "ys \<noteq> [] \<Longrightarrow> (xs :: 'a :: order list) < xs @ ys"
  by (induction xs) (simp_all add: neq_Nil_conv, auto)

lemma inc_pre_step_up:
  assumes "list_all (inc_id_ok (10 ^ 18)) (iv_pre v)" "iv_pre v \<noteq> []" "length (iv_pre v) < SEMVER_MAX_IDS"
  shows "\<exists>pre. inc_pre_step None v = v\<lparr>iv_pre := pre\<rparr> \<and> pre \<noteq> [] \<and> map ik (iv_pre v) < map ik pre \<and>
    length pre \<le> SEMVER_MAX_IDS \<and> list_all (inc_id_ok (10 ^ 18 + 1)) pre"
proof (cases "inc_bump_last (iv_pre v)")
  case None
  have "inc_id_ok (10 ^ 18) j \<Longrightarrow> inc_id_ok (10 ^ 18 + 1) j" for j by (cases j) auto
  then show ?thesis using None assms list_less_append [of "[ik (IncNum 0)]" "map ik (iv_pre v)"]
    by (intro exI [of _ "iv_pre v @ [IncNum 0]"]) (auto simp: inc_pre_step_def list_all_iff)
next
  case (Some pre)
  then show ?thesis using assms inc_bump_last_up [OF assms(1) Some] by (auto simp: inc_pre_step_def)
qed

section \<open>Increments go up\<close>

lemma sv_key_inc_sem:
  "sv_key (inc_sem v) = (iv_major v, iv_minor v, iv_patch v, iv_pre v = [], map ik (iv_pre v))"
  by (simp add: sv_key_def inc_sem_def)

definition inc_room :: "inc_ver \<Rightarrow> bool" where
  "inc_room v \<longleftrightarrow> iv_major v < SV_MAX_SAFE \<and> iv_minor v < SV_MAX_SAFE \<and> iv_patch v < SV_MAX_SAFE \<and>
     length (iv_pre v) < SEMVER_MAX_IDS \<and> list_all (inc_id_ok (10 ^ 18)) (iv_pre v)"

lemma max_safe_succ: "n < SV_MAX_SAFE \<Longrightarrow> u64 (n + 1) = n + 1 \<and> n + 1 \<le> SV_MAX_SAFE"
  by (simp add: u64_def SV_MAX_SAFE_def)

lemma inc_pre_step_fresh: "iv_pre v = [] \<Longrightarrow> inc_pre_step None v = v\<lparr>iv_pre := [IncNum 0]\<rparr>"
  by (simp add: inc_pre_step_def)

lemma inc_apply_up:
  assumes "inc_room v"
  shows "inc_ok (10 ^ 18 + 1) (inc_apply rel None v) \<and>
    sv_key (inc_sem v) < sv_key (inc_sem (inc_apply rel None v))"
proof (cases "rel = REL_PRERELEASE \<and> iv_pre v \<noteq> []")
  case True
  then obtain pre where "inc_pre_step None v = v\<lparr>iv_pre := pre\<rparr>" "pre \<noteq> []" "map ik (iv_pre v) < map ik pre"
    "length pre \<le> SEMVER_MAX_IDS" "list_all (inc_id_ok (10 ^ 18 + 1)) pre"
    using assms inc_pre_step_up [of v] by (auto simp: inc_room_def)
  then show ?thesis using True assms
    by (simp add: inc_apply_def sv_key_inc_sem inc_ok_def inc_room_def less_prod_def')
next
  case False
  note room = assms [unfolded inc_room_def]
  have succ: "u64 (iv_major v + 1) = iv_major v + 1" "u64 (iv_minor v + 1) = iv_minor v + 1"
    "u64 (iv_patch v + 1) = iv_patch v + 1" using room max_safe_succ by blast+
  have ids: "SEMVER_MAX_IDS \<ge> 1" by (simp add: SEMVER_MAX_IDS_def)
  show ?thesis using False room ids
    by (cases rel)
      (auto simp: inc_apply_def succ [simplified] inc_pre_step_fresh sv_key_inc_sem inc_ok_def less_prod_def' Suc_le_eq)
qed

lemma inc_of_semver_sem:
  assumes "sv_wf v" "short_numbers v"
  shows "list_all (inc_id_ok (10 ^ 18)) (iv_pre (inc_of_semver v)) \<and> sv_key (inc_sem (inc_of_semver v)) = sv_key v"
proof -
  have "\<forall>i \<in> set (sv_pre v). inc_id_ok (10 ^ 18) (inc_of_id i) \<and> inc_sem_id (inc_of_id i) = i"
    using assms inc_of_id_sem by (auto simp: sv_wf_def sv_ids_ok_def short_numbers_def list_all_iff)
  then show ?thesis by (auto simp: inc_of_semver_def inc_sem_def sv_key_def list_all_iff)
qed

text \<open>
  C33. \<open>inc\<close> without an identifier: for each of the seven release types, a version whose numbers
  are below the largest safe integer, with fewer than 24 prerelease identifiers whose numeric ones
  have at most 18 digits, is incremented to a text that parses as a version of strictly higher
  precedence.
\<close>

theorem inc_strictly_increases:
  assumes "semver_parse s = Some v" "inc_release_id r = Some rel"
    "sv_major v < SV_MAX_SAFE" "sv_minor v < SV_MAX_SAFE" "sv_patch v < SV_MAX_SAFE"
    "length (sv_pre v) < SEMVER_MAX_IDS" "short_numbers v"
  shows "\<exists>t w. dyn_semver_inc [JStr s, JStr r] = Inr (JStr t) \<and> semver_parse t = Some w \<and> semver_compare w v = 1"
proof -
  let ?i = "inc_of_semver v" let ?w = "inc_apply rel None ?i"
  have wf: "sv_wf v" using assms(1) semver_parse_sound by blast
  have k: "list_all (inc_id_ok (10 ^ 18)) (iv_pre ?i)" "sv_key (inc_sem ?i) = sv_key v"
    using inc_of_semver_sem [OF wf assms(7)] by auto
  have "inc_room ?i" using assms(3-6) k(1) by (simp add: inc_room_def inc_of_semver_def)
  then have up: "inc_ok (10 ^ 18 + 1) ?w" "sv_key v < sv_key (inc_sem ?w)" using inc_apply_up k(2) by metis+
  have p: "semver_parse (inc_format ?w) = Some (inc_sem ?w)" using inc_format_parses up(1) by blast
  then have "sv_wf (inc_sem ?w)" using semver_parse_sound by blast
  then have "semver_compare (inc_sem ?w) v = 1"
    using wf up(2) semver_compare_ord [of False "inc_sem ?w" False v] by (auto simp: sv_wf_def ord_sign_def)
  moreover have "dyn_semver_inc [JStr s, JStr r] = Inr (JStr (inc_format ?w))"
    using assms(1,2) by (simp add: dyn_semver_inc_def)
  ultimately show ?thesis using p by blast
qed

theorem inc_strictly_increases_witness:
  "\<exists>v t w. semver_parse ''1.2.3-rc.9'' = Some v \<and>
     dyn_semver_inc [JStr ''1.2.3-rc.9'', JStr ''prerelease''] = Inr (JStr t) \<and>
     semver_parse t = Some w \<and> semver_compare w v = 1"
proof -
  obtain v where v: "semver_parse ''1.2.3-rc.9'' = Some v"
    and b: "sv_major v < SV_MAX_SAFE" "sv_minor v < SV_MAX_SAFE" "sv_patch v < SV_MAX_SAFE"
      "length (sv_pre v) < SEMVER_MAX_IDS" "short_numbers v"
    by (simp add: sv_eval short_numbers_def)
  have "inc_release_id ''prerelease'' = Some REL_PRERELEASE" by (simp add: inc_release_id_def)
  from inc_strictly_increases [OF v this b] v show ?thesis by blast
qed

section \<open>Coercion\<close>

text \<open>A candidate is three runs of digits with dots between them, each of at most 16 digits.\<close>

definition digit_run :: "string \<Rightarrow> bool" where
  "digit_run r \<longleftrightarrow> r \<noteq> [] \<and> length r \<le> 16 \<and> list_all is_dig r"

lemma digit_run_0: "digit_run ''0''"
  by (simp add: digit_run_def is_dig_def less_eq_char_def)

lemma takeWhile_digits: "list_all is_dig (takeWhile is_dig s)"
  by (auto simp: list_all_iff dest: set_takeWhileD)

lemma coerce_part_run: "coerce_part s = Some (r, t) \<Longrightarrow> digit_run r"
  using takeWhile_digits
  by (fastforce simp: coerce_part_def digit_run_def Let_def split: list.splits if_splits)

definition dotted :: "string \<Rightarrow> string \<Rightarrow> string \<Rightarrow> string" where
  "dotted a b c = a @ CHR ''.'' # b @ CHR ''.'' # c"

lemma coerce_candidate_dotted:
  assumes "digit_run run"
  shows "\<exists>b c. digit_run b \<and> digit_run c \<and> coerce_candidate run rest = dotted run b c"
proof (cases "coerce_part rest")
  case None
  then show ?thesis using digit_run_0
    by (intro exI [of _ "''0''"]) (simp add: coerce_candidate_def dotted_def)
next
  case (Some x)
  then obtain b t where b: "coerce_part rest = Some (b, t)" by (cases x) simp
  note rb = coerce_part_run [OF b]
  show ?thesis
  proof (cases "coerce_part t")
    case None
    then show ?thesis using b rb digit_run_0
      by (intro exI [of _ b] exI [of _ "''0''"]) (simp add: coerce_candidate_def dotted_def)
  next
    case (Some y)
    then obtain c u where c: "coerce_part t = Some (c, u)" by (cases y) simp
    show ?thesis using b rb c coerce_part_run [OF c]
      by (intro exI [of _ b] exI [of _ c]) (simp add: coerce_candidate_def dotted_def)
  qed
qed

lemma coerce_scan_dotted:
  "coerce_scan prev s = Some t \<Longrightarrow> \<exists>a b c. digit_run a \<and> digit_run b \<and> digit_run c \<and> t = dotted a b c"
proof (induction prev s rule: coerce_scan.induct)
  case (2 prev c cs)
  show ?case
  proof (cases "\<not> is_dig c \<or> prev")
    case True
    then show ?thesis using 2 by simp
  next
    case False
    let ?run = "takeWhile is_dig (c # cs)"
    show ?thesis
    proof (cases "length ?run > 16")
      case True
      then show ?thesis using 2 False by (simp add: Let_def)
    next
      case short: False
      then have "digit_run ?run" using False takeWhile_digits [of "c # cs"] by (simp add: digit_run_def)
      then show ?thesis using 2(3) False short coerce_candidate_dotted [of ?run "dropWhile is_dig (c # cs)"]
        by (auto simp: Let_def)
    qed
  qed
qed simp

lemma coerce_part_dot:
  assumes "digit_run b" "t = [] \<or> \<not> is_dig (hd t)"
  shows "coerce_part (CHR ''.'' # b @ t) = Some (b, t)"
proof -
  obtain d r where b: "b = d # r" using assms(1) by (cases b) (auto simp: digit_run_def)
  have d: "\<forall>x \<in> set b. is_dig x" using assms(1) by (simp add: digit_run_def list_all_iff)
  have "takeWhile is_dig (b @ t) = b" "dropWhile is_dig (b @ t) = t"
    using d assms(2) by (cases t; simp add: takeWhile_append dropWhile_append)+
  then show ?thesis using b d assms(1) by (simp add: coerce_part_def digit_run_def)
qed

lemma not_dig_dot: "\<not> is_dig (CHR ''.'')"
  by (simp add: is_dig_def less_eq_char_def)

lemma coerce_scan_dotted_id:
  assumes "digit_run a" "digit_run b" "digit_run c"
  shows "coerce_scan False (dotted a b c) = Some (dotted a b c)"
proof -
  let ?t = "CHR ''.'' # b @ CHR ''.'' # c"
  obtain d r where a: "a = d # r" using assms(1) by (cases a) (auto simp: digit_run_def)
  have d: "\<forall>x \<in> set a. is_dig x" using assms(1) by (simp add: digit_run_def list_all_iff)
  have run: "takeWhile is_dig (a @ ?t) = a" "dropWhile is_dig (a @ ?t) = ?t"
    using d not_dig_dot by (simp_all add: takeWhile_append dropWhile_append)
  have "coerce_candidate a ?t = dotted a b c"
    using coerce_part_dot [OF assms(2), of "CHR ''.'' # c"] coerce_part_dot [OF assms(3), of "[]"] not_dig_dot
    by (simp add: coerce_candidate_def dotted_def)
  then show ?thesis using run a d assms(1) by (simp add: dotted_def digit_run_def)
qed

text \<open>
  \<open>coerce\<close> of a string returns null or a text that parses as a release (no prerelease and no
  build metadata), takes at most 50 bytes of its 64-byte buffer, and that \<open>coerce\<close> maps to itself.
\<close>

theorem coerce_release_idempotent:
  "\<exists>r. dyn_semver_coerce [JStr s] = Inr r \<and>
     (r = JNull \<or>
      (\<exists>t v. r = JStr t \<and> length t \<le> 50 \<and> semver_parse t = Some v \<and> sv_pre v = [] \<and> sv_build v = [] \<and>
         dyn_semver_coerce [JStr t] = Inr (JStr t)))"
proof (cases "coerce_scan False s")
  case None
  then show ?thesis by (simp add: dyn_semver_coerce_def sv_arg_str_def)
next
  case (Some t)
  then obtain a b c where abc: "digit_run a" "digit_run b" "digit_run c" and t: "t = dotted a b c"
    using coerce_scan_dotted by blast
  show ?thesis
  proof (cases "semver_parse t")
    case None
    then show ?thesis using Some by (simp add: dyn_semver_coerce_def sv_arg_str_def)
  next
    case v: (Some v)
    have "set t \<subseteq> {x. is_dig x} \<union> {CHR ''.''}" using abc t by (auto simp: dotted_def digit_run_def list_all_iff)
    then have "CHR ''-'' \<notin> set t" "CHR ''+'' \<notin> set t" by (auto simp: is_dig_def less_eq_char_def)
    moreover have "t = sv_full v" using semver_parse_sound [OF v] by blast
    ultimately have "sv_pre v = []" "sv_build v = []"
      by (auto simp: sv_full_def sv_build_version_def split: if_splits)
    moreover have "length t \<le> 50" using abc t by (simp add: dotted_def digit_run_def)
    moreover have "coerce_scan False t = Some t" using coerce_scan_dotted_id [OF abc] t by simp
    ultimately show ?thesis using Some v by (simp add: dyn_semver_coerce_def sv_arg_str_def)
  qed
qed

end
