(* ===== verification/Dyna_Netip.thy ===== *)
theory Dyna_Netip
  imports Dyna_Bytes
begin

unbundle bit_operations_syntax

text \<open>
  The module \<^verbatim>\<open>dyna:netip\<close> of \<^verbatim>\<open>src/src/dyna-netip.c\<close>: parsing and canonical printing of IPv4 and IPv6
  addresses, CIDR prefixes, ordering and classification.

  The output array of the IPv6 parser is the list of the bytes it has written, whose length is its
  index \<open>i\<close>. Its contents after a failure are not observable, since every caller drops them.
\<close>

record net_addr =
  is4 :: bool
  nb :: "8 word list"

section \<open>Parsing\<close>

fun v4_run :: "nat \<Rightarrow> nat \<Rightarrow> string \<Rightarrow> (nat \<times> nat \<times> string) option" where
  "v4_run val digits [] = Some (val, digits, [])"
| "v4_run val digits (c # cs) =
     (if is_dig c then
        (let val' = val * 10 + dig_val c; digits' = digits + 1
         in if digits' > 3 \<or> val' > 255 then None else v4_run val' digits' cs)
      else Some (val, digits, c # cs))"

definition v4_field :: "string \<Rightarrow> (8 word \<times> string) option" where
  "v4_field s =
     (case v4_run 0 0 s of
        None \<Rightarrow> None
      | Some (val, digits, r) \<Rightarrow>
          if digits = 0 then None
          else if digits > 1 \<and> hd s = CHR ''0'' then None
          else Some (word_of_nat val, r))"

text \<open>The fields that remain; all but the last consume the dot after them.\<close>

fun v4_fields :: "nat \<Rightarrow> string \<Rightarrow> (8 word list \<times> string) option" where
  "v4_fields 0 s = Some ([], s)"
| "v4_fields (Suc k) s =
     (case v4_field s of
        None \<Rightarrow> None
      | Some (b, r) \<Rightarrow>
          if k = 0 then Some ([b], r)
          else (case r of
                  [] \<Rightarrow> None
                | c # r' \<Rightarrow>
                    if c \<noteq> CHR ''.'' then None
                    else (case v4_fields k r' of None \<Rightarrow> None | Some (bs, t) \<Rightarrow> Some (b # bs, t))))"

definition parse_ipv4 :: "string \<Rightarrow> 8 word list option" where
  "parse_ipv4 s = (case v4_fields 4 s of None \<Rightarrow> None | Some (bs, r) \<Rightarrow> if r = [] then Some bs else None)"

definition hex_digit :: "char \<Rightarrow> nat option" where
  "hex_digit c =
     (if chr_between (CHR ''0'') (CHR ''9'') c then Some (of_char c - 48)
      else if chr_between (CHR ''a'') (CHR ''f'') c then Some (of_char c - 97 + 10)
      else if chr_between (CHR ''A'') (CHR ''F'') c then Some (of_char c - 65 + 10)
      else None)"

fun v6_run :: "nat \<Rightarrow> nat \<Rightarrow> string \<Rightarrow> (nat \<times> nat \<times> string) option" where
  "v6_run acc off [] = Some (acc, off, [])"
| "v6_run acc off (c # cs) =
     (case hex_digit c of
        None \<Rightarrow> Some (acc, off, c # cs)
      | Some d \<Rightarrow>
          (let acc' = u32 (acc * 16 + d); off' = off + 1
           in if off' > 4 then None else if acc' > 0xffff then None else v6_run acc' off' cs))"

function v6_loop :: "8 word list \<Rightarrow> nat option \<Rightarrow> string \<Rightarrow> (8 word list \<times> nat option \<times> string) option" where
  "v6_loop out ellipsis s =
     (if length out < 16 then
        (case v6_run 0 0 s of
           None \<Rightarrow> None
         | Some (acc, off, r) \<Rightarrow>
             if off = 0 then None
             else if r \<noteq> [] \<and> hd r = CHR ''.'' then
               (if ellipsis = None \<and> length out \<noteq> 12 then None
                else if length out + 4 > 16 then None
                else (case parse_ipv4 s of None \<Rightarrow> None | Some q \<Rightarrow> Some (out @ q, ellipsis, [])))
             else
               (let out' = out @ [word_of_nat (acc div 256), word_of_nat (acc mod 256)]
                in if r = [] then Some (out', ellipsis, [])
                   else if hd r \<noteq> CHR '':'' then None
                   else if length r = 1 then None
                   else if hd (tl r) = CHR '':'' then
                     (if ellipsis \<noteq> None then None
                      else if tl (tl r) = [] then Some (out', Some (length out'), [])
                      else v6_loop out' (Some (length out')) (tl (tl r)))
                   else v6_loop out' ellipsis (tl r)))
      else Some (out, ellipsis, s))"
  by pat_completeness auto
termination
  by (relation "measure (\<lambda>(out, e, s). 16 - length out)") auto

declare v6_loop.simps [simp del]

definition v6_expand :: "8 word list \<times> nat option \<times> string \<Rightarrow> 8 word list option" where
  "v6_expand x =
     (case x of (out, ellipsis, s) \<Rightarrow>
        if s \<noteq> [] then None
        else if length out < 16 then
          (case ellipsis of
             None \<Rightarrow> None
           | Some e \<Rightarrow> Some (take e out @ replicate (16 - length out) 0 @ drop e out))
        else if ellipsis \<noteq> None then None
        else Some out)"

definition parse_ipv6 :: "string \<Rightarrow> 8 word list option" where
  "parse_ipv6 s =
     (if take 2 s = ''::'' then
        (if drop 2 s = [] then Some (replicate 16 0)
         else Option.bind (v6_loop [] (Some 0) (drop 2 s)) v6_expand)
      else Option.bind (v6_loop [] None s) v6_expand)"

fun addr_kind :: "string \<Rightarrow> bool option" where
  "addr_kind [] = None"
| "addr_kind (c # cs) =
     (if c = CHR ''.'' then Some True
      else if c = CHR '':'' then Some False
      else if c = CHR ''%'' then None
      else addr_kind cs)"

definition parse_addr :: "string \<Rightarrow> net_addr option" where
  "parse_addr s =
     (case addr_kind s of
        None \<Rightarrow> None
      | Some True \<Rightarrow> map_option (\<lambda>q. \<lparr>is4 = True, nb = q @ replicate 12 0\<rparr>) (parse_ipv4 s)
      | Some False \<Rightarrow> map_option (\<lambda>bs. \<lparr>is4 = False, nb = bs\<rparr>) (parse_ipv6 s))"

text \<open>The parts before and after the last slash.\<close>

fun split_slash :: "string \<Rightarrow> (string \<times> string) option" where
  "split_slash [] = None"
| "split_slash (c # cs) =
     (case split_slash cs of
        Some (a, b) \<Rightarrow> Some (c # a, b)
      | None \<Rightarrow> if c = CHR ''/'' then Some ([], cs) else None)"

definition parse_prefix :: "string \<Rightarrow> (net_addr \<times> nat) option" where
  "parse_prefix s =
     (case split_slash s of
        None \<Rightarrow> None
      | Some (as, bs) \<Rightarrow>
          (case parse_addr as of
             None \<Rightarrow> None
           | Some a \<Rightarrow>
               if bs = [] \<or> length bs > 3 then None
               else if length bs > 1 \<and> \<not> chr_between (CHR ''1'') (CHR ''9'') (hd bs) then None
               else if \<not> list_all is_dig bs then None
               else
                 (let v = foldl (\<lambda>v c. v * 10 + dig_val c) 0 bs
                  in if v > (if is4 a then 32 else 128) then None else Some (a, v))))"

section \<open>Formatting\<close>

definition is_4in6 :: "net_addr \<Rightarrow> bool" where
  "is_4in6 a \<longleftrightarrow>
     \<not> is4 a \<and> list_all (\<lambda>i. nb a ! i = 0) [0 ..< 10] \<and> nb a ! 10 = 0xff \<and> nb a ! 11 = 0xff"

definition net_unmap :: "net_addr \<Rightarrow> net_addr" where
  "net_unmap a =
     (if is_4in6 a then
        \<lparr>is4 = True, nb = (replicate 16 0)[0 := nb a ! 12, 1 := nb a ! 13, 2 := nb a ! 14, 3 := nb a ! 15]\<rparr>
      else a)"

definition fmt_dec8 :: "nat \<Rightarrow> string" where
  "fmt_dec8 v =
     (if v \<ge> 100 then [dig_chr (v div 100), dig_chr (v mod 100 div 10), dig_chr (v mod 100 mod 10)]
      else if v \<ge> 10 then [dig_chr (v div 10), dig_chr (v mod 10)]
      else [dig_chr v])"

fun fmt_v4 :: "8 word list \<Rightarrow> string" where
  "fmt_v4 [] = []"
| "fmt_v4 [b] = fmt_dec8 (unat b)"
| "fmt_v4 (b # c # bs) = fmt_dec8 (unat b) @ CHR ''.'' # fmt_v4 (c # bs)"

fun hex16_digits :: "nat \<Rightarrow> string" where
  "hex16_digits v = (if v = 0 then [] else ''0123456789abcdef'' ! (v mod 16) # hex16_digits (v div 16))"

declare hex16_digits.simps [simp del]

definition fmt_hex16 :: "nat \<Rightarrow> string" where
  "fmt_hex16 v = (if v = 0 then ''0'' else rev (hex16_digits v))"

definition addr_groups :: "8 word list \<Rightarrow> nat list" where
  "addr_groups b = map (\<lambda>i. unat (b ! (2 * i)) * 256 + unat (b ! (2 * i + 1))) [0 ..< 8]"

function zero_run_end :: "nat list \<Rightarrow> nat \<Rightarrow> nat" where
  "zero_run_end g j = (if j < 8 \<and> g ! j = 0 then zero_run_end g (j + 1) else j)"
  by pat_completeness auto
termination
  by (relation "measure (\<lambda>(g, j). 8 - j)") auto

declare zero_run_end.simps [simp del]

lemma zero_run_end_ge: "j \<le> zero_run_end g j"
  by (induction g j rule: zero_run_end.induct) (subst zero_run_end.simps, auto)

lemma zero_run_end_gt: "j < 8 \<Longrightarrow> g ! j = 0 \<Longrightarrow> j < zero_run_end g j"
  using zero_run_end_ge [of "j + 1" g] by (subst zero_run_end.simps) simp

text \<open>\<open>best_start\<close> and \<open>best_len\<close>; the start is only used when the length is at least 2.\<close>

function best_run :: "nat list \<Rightarrow> nat \<Rightarrow> nat \<times> nat \<Rightarrow> nat \<times> nat" where
  "best_run g i best =
     (if i < 8 then
        (if g ! i = 0 then
           (let j = zero_run_end g i
            in best_run g j (if j - i > snd best then (i, j - i) else best))
         else best_run g (i + 1) best)
      else best)"
  by pat_completeness auto
termination
  by (relation "measure (\<lambda>(g, i, b). 8 - i)") (use zero_run_end_gt diff_less_mono2 in auto)

declare best_run.simps [simp del]

function fmt_groups :: "nat list \<Rightarrow> nat option \<Rightarrow> nat \<Rightarrow> nat \<Rightarrow> string" where
  "fmt_groups g start len i =
     (if i < 8 then
        (if start = Some i then
           (if i + len \<ge> 8 then ''::''
            else ''::'' @ fmt_hex16 (g ! (i + len)) @ fmt_groups g start len (i + len + 1))
         else (if i > 0 then '':'' else []) @ fmt_hex16 (g ! i) @ fmt_groups g start len (i + 1))
      else [])"
  by pat_completeness auto
termination
  by (relation "measure (\<lambda>(g, s, l, i). 8 - i)") auto

declare fmt_groups.simps [simp del]

definition format_addr :: "net_addr \<Rightarrow> string" where
  "format_addr a =
     (if is4 a then fmt_v4 (take 4 (nb a))
      else if is_4in6 a then ''::ffff:'' @ fmt_v4 (drop 12 (nb a))
      else
        (let g = addr_groups (nb a); (bs, bl) = best_run g 0 (0, 0)
         in fmt_groups g (if bl < 2 then None else Some bs) bl 0))"

section \<open>Classification\<close>

definition net_is_loopback :: "net_addr \<Rightarrow> bool" where
  "net_is_loopback a0 =
     (let a = net_unmap a0
      in if is4 a then nb a ! 0 = 127 else list_all (\<lambda>i. nb a ! i = 0) [0 ..< 15] \<and> nb a ! 15 = 1)"

definition net_is_private :: "net_addr \<Rightarrow> bool" where
  "net_is_private a0 =
     (let a = net_unmap a0
      in if is4 a then
           nb a ! 0 = 10 \<or> (nb a ! 0 = 172 \<and> (nb a ! 1) AND 0xf0 = 16) \<or> (nb a ! 0 = 192 \<and> nb a ! 1 = 168)
         else (nb a ! 0) AND 0xfe = 0xfc)"

definition net_is_multicast :: "net_addr \<Rightarrow> bool" where
  "net_is_multicast a0 =
     (let a = net_unmap a0 in if is4 a then (nb a ! 0) AND 0xf0 = 0xe0 else nb a ! 0 = 0xff)"

definition net_is_ll_unicast :: "net_addr \<Rightarrow> bool" where
  "net_is_ll_unicast a0 =
     (let a = net_unmap a0
      in if is4 a then nb a ! 0 = 169 \<and> nb a ! 1 = 254 else nb a ! 0 = 0xfe \<and> (nb a ! 1) AND 0xc0 = 0x80)"

definition net_is_ll_multicast :: "net_addr \<Rightarrow> bool" where
  "net_is_ll_multicast a0 =
     (let a = net_unmap a0
      in if is4 a then nb a ! 0 = 224 \<and> nb a ! 1 = 0 \<and> nb a ! 2 = 0
         else nb a ! 0 = 0xff \<and> (nb a ! 1) AND 0x0f = 0x02)"

definition net_is_unspecified :: "net_addr \<Rightarrow> bool" where
  "net_is_unspecified a0 =
     (if is4 a0 then nb a0 ! 0 = 0 \<and> nb a0 ! 1 = 0 \<and> nb a0 ! 2 = 0 \<and> nb a0 ! 3 = 0
      else list_all (\<lambda>i. nb a0 ! i = 0) [0 ..< 16])"

definition net_is_global_unicast :: "net_addr \<Rightarrow> bool" where
  "net_is_global_unicast a0 =
     (let a = net_unmap a0
      in if is4 a \<and> nb a ! 0 = 0 \<and> nb a ! 1 = 0 \<and> nb a ! 2 = 0 \<and> nb a ! 3 = 0 then False
         else if is4 a \<and> nb a ! 0 = 255 \<and> nb a ! 1 = 255 \<and> nb a ! 2 = 255 \<and> nb a ! 3 = 255 then False
         else if \<not> is4 a \<and> list_all (\<lambda>i. nb a ! i = 0) [0 ..< 16] then False
         else \<not> net_is_loopback a \<and> \<not> net_is_multicast a \<and> \<not> net_is_ll_unicast a)"

section \<open>Prefixes and order\<close>

definition byte_mask :: "nat \<Rightarrow> 8 word" where
  "byte_mask rem = push_bit (8 - rem) 0xff"

definition mask_addr :: "net_addr \<Rightarrow> nat \<Rightarrow> net_addr" where
  "mask_addr a bits =
     (let nbytes = (if is4 a then 4 else 16); full = bits div 8; rem = bits mod 8;
          b = (if rem \<noteq> 0 then (nb a)[full := (nb a ! full) AND byte_mask rem] else nb a);
          full' = (if rem \<noteq> 0 then full + 1 else full)
      in a\<lparr>nb := foldl (\<lambda>b i. b[i := 0]) b [full' ..< nbytes]\<rparr>)"

definition prefix_contains :: "net_addr \<Rightarrow> nat \<Rightarrow> net_addr \<Rightarrow> bool" where
  "prefix_contains p bits ip =
     (let full = bits div 8; rem = bits mod 8
      in if is4 p \<noteq> is4 ip then False
         else if \<not> list_all (\<lambda>i. nb p ! i = nb ip ! i) [0 ..< full] then False
         else if rem \<noteq> 0 \<and> (nb p ! full) AND byte_mask rem \<noteq> (nb ip ! full) AND byte_mask rem then False
         else True)"

fun memcmp8 :: "8 word list \<Rightarrow> 8 word list \<Rightarrow> nat \<Rightarrow> int" where
  "memcmp8 (x # xs) (y # ys) (Suc n) = (if x < y then -1 else if y < x then 1 else memcmp8 xs ys n)"
| "memcmp8 _ _ _ = 0"

definition net_compare :: "net_addr \<Rightarrow> net_addr \<Rightarrow> int" where
  "net_compare x y =
     (if is4 x \<noteq> is4 y then (if is4 x then -1 else 1)
      else (let c = memcmp8 (nb x) (nb y) (if is4 x then 4 else 16)
            in (if c > 0 then 1 else 0) - (if c < 0 then 1 else 0)))"

section \<open>The module functions\<close>

definition netip_arg_str :: "jsval list \<Rightarrow> string res" where
  "netip_arg_str argv =
     (case argv of JStr s # _ \<Rightarrow> Inr s | _ \<Rightarrow> Inl (TypeError ''dyna:netip: argument must be a string''))"

definition dyn_netip_parse_addr :: "jsval list \<Rightarrow> jsval res" where
  "dyn_netip_parse_addr argv =
     (case netip_arg_str argv of
        Inl e \<Rightarrow> Inl e
      | Inr s \<Rightarrow>
          (case parse_addr s of
             None \<Rightarrow> Inl (TypeError ''dyna:netip: invalid IP address'')
           | Some a \<Rightarrow>
               Inr (JObj [(''is4'', JBool (is4 a)), (''is6'', JBool (\<not> is4 a)),
                 (''bytes'', JBytes (take (if is4 a then 4 else 16) (nb a))),
                 (''string'', JStr (format_addr a))])))"

definition dyn_netip_parse_prefix :: "jsval list \<Rightarrow> jsval res" where
  "dyn_netip_parse_prefix argv =
     (case netip_arg_str argv of
        Inl e \<Rightarrow> Inl e
      | Inr s \<Rightarrow>
          (case parse_prefix s of
             None \<Rightarrow> Inl (TypeError ''dyna:netip: invalid CIDR prefix'')
           | Some (a, bits) \<Rightarrow> Inr (JObj [(''addr'', JStr (format_addr a)), (''bits'', js_nat bits)])))"

definition dyn_netip_contains :: "jsval list \<Rightarrow> jsval res" where
  "dyn_netip_contains argv =
     (case argv of
        JStr ps # JStr as # _ \<Rightarrow>
          (case (parse_prefix ps, parse_addr as) of
             (Some (p, bits), Some ip) \<Rightarrow> Inr (JBool (prefix_contains p bits ip))
           | _ \<Rightarrow> Inl (TypeError ''dyna:netip: invalid CIDR prefix or address''))
      | _ \<Rightarrow> Inl (TypeError ''dyna:netip: contains(prefix, addr) expects two strings''))"

definition dyn_netip_masked :: "jsval list \<Rightarrow> jsval res" where
  "dyn_netip_masked argv =
     (case netip_arg_str argv of
        Inl e \<Rightarrow> Inl e
      | Inr s \<Rightarrow>
          (case parse_prefix s of
             None \<Rightarrow> Inl (TypeError ''dyna:netip: invalid CIDR prefix'')
           | Some (a, bits) \<Rightarrow> Inr (JStr (format_addr (mask_addr a bits)))))"

definition dyn_netip_canonical :: "jsval list \<Rightarrow> jsval res" where
  "dyn_netip_canonical argv =
     (case netip_arg_str argv of
        Inl e \<Rightarrow> Inl e
      | Inr s \<Rightarrow>
          (case parse_addr s of
             None \<Rightarrow> Inl (TypeError ''dyna:netip: invalid IP address'')
           | Some a \<Rightarrow> Inr (JStr (format_addr a))))"

definition dyn_netip_is_valid :: "jsval list \<Rightarrow> jsval" where
  "dyn_netip_is_valid argv =
     (case argv of JStr s # _ \<Rightarrow> JBool (parse_addr s \<noteq> None) | _ \<Rightarrow> JBool False)"

definition dyn_netip_compare :: "jsval list \<Rightarrow> jsval res" where
  "dyn_netip_compare argv =
     (case argv of
        JStr as # JStr bs # _ \<Rightarrow>
          (case (parse_addr as, parse_addr bs) of
             (Some x, Some y) \<Rightarrow> Inr (js_int (net_compare x y))
           | _ \<Rightarrow> Inl (TypeError ''dyna:netip: invalid IP address''))
      | _ \<Rightarrow> Inl (TypeError ''dyna:netip: compareAddr(a, b) expects two strings''))"

datatype net_class = CLS_LOOPBACK | CLS_PRIVATE | CLS_MULTICAST | CLS_UNSPECIFIED | CLS_LL_UNICAST
  | CLS_GLOBAL_UNICAST | CLS_LL_MULTICAST

definition dyn_netip_classify :: "net_class \<Rightarrow> jsval list \<Rightarrow> jsval res" where
  "dyn_netip_classify magic argv =
     (case netip_arg_str argv of
        Inl e \<Rightarrow> Inl e
      | Inr s \<Rightarrow>
          (case parse_addr s of
             None \<Rightarrow> Inl (TypeError ''dyna:netip: invalid IP address'')
           | Some a \<Rightarrow>
               Inr (JBool (case magic of
                      CLS_LOOPBACK \<Rightarrow> net_is_loopback a
                    | CLS_PRIVATE \<Rightarrow> net_is_private a
                    | CLS_MULTICAST \<Rightarrow> net_is_multicast a
                    | CLS_UNSPECIFIED \<Rightarrow> net_is_unspecified a
                    | CLS_LL_UNICAST \<Rightarrow> net_is_ll_unicast a
                    | CLS_GLOBAL_UNICAST \<Rightarrow> net_is_global_unicast a
                    | CLS_LL_MULTICAST \<Rightarrow> net_is_ll_multicast a))))"

end
