(* ===== verification/Dyna_NetipPrefix.thy ===== *)
theory Dyna_NetipPrefix
  imports Dyna_Netip "HOL-Library.Product_Lexorder"
begin

unbundle bit_operations_syntax

text \<open>
  CIDR prefixes and the order of addresses in \<^verbatim>\<open>dyna:netip\<close>, against the address as one big-endian
  integer of 32 or 128 bits.
\<close>

section \<open>Addresses as integers\<close>

definition net_wf :: "net_addr \<Rightarrow> bool" where
  "net_wf a \<longleftrightarrow> length (nb a) = 16 \<and> (is4 a \<longrightarrow> drop 4 (nb a) = replicate 12 0)"

definition nbytes :: "net_addr \<Rightarrow> nat" where
  "nbytes a = (if is4 a then 4 else 16)"

definition addr_bytes :: "net_addr \<Rightarrow> 8 word list" where
  "addr_bytes a = take (nbytes a) (nb a)"

definition addr_val :: "net_addr \<Rightarrow> nat" where
  "addr_val a = be_val (addr_bytes a)"

text \<open>The first \<open>bits\<close> bits of a byte string as a number.\<close>

definition top_val :: "8 word list \<Rightarrow> nat \<Rightarrow> nat" where
  "top_val xs bits =
     (if bits mod 8 = 0 then be_val (take (bits div 8) xs)
      else be_val (take (bits div 8) xs) * 2 ^ (bits mod 8) + unat (xs ! (bits div 8)) div 2 ^ (8 - bits mod 8))"

lemma top_val_div:
  assumes "bits \<le> 8 * length xs"
  shows "be_val xs div 2 ^ (8 * length xs - bits) = top_val xs bits"
proof (cases "bits mod 8 = 0")
  case True
  then have "8 * length xs - bits = 8 * (length xs - bits div 8)" by (auto simp: diff_mult_distrib2)
  then have "be_val xs div 2 ^ (8 * length xs - bits) = be_val xs div 256 ^ (length xs - bits div 8)"
    by (simp only: pow_256)
  then show ?thesis using True assms be_val_split [of "bits div 8" xs] by (simp add: top_val_def)
next
  case False
  let ?f = "bits div 8" and ?r = "bits mod 8"
  have b: "bits = 8 * ?f + ?r" "?r < 8" "0 < ?r" using False by simp_all
  have f: "?f < length xs" using assms b by linarith
  have e: "8 * length xs - bits = 8 * (length xs - Suc ?f) + (8 - ?r)" using b f by linarith
  have "be_val xs div 2 ^ (8 * length xs - bits) = be_val xs div 256 ^ (length xs - Suc ?f) div 2 ^ (8 - ?r)"
    by (simp only: e power_add pow_256 div_mult2_eq)
  also have "\<dots> = (be_val (take ?f xs) * 256 + unat (xs ! ?f)) div 2 ^ (8 - ?r)"
    using f be_val_split [of "Suc ?f" xs] by (simp add: take_Suc_conv_app_nth)
  also have "(256 :: nat) = 2 ^ ?r * 2 ^ (8 - ?r)"
    using b(2) by (simp flip: power_add)
  also have "(be_val (take ?f xs) * (2 ^ ?r * 2 ^ (8 - ?r)) + unat (xs ! ?f)) div 2 ^ (8 - ?r) = top_val xs bits"
    using False by (simp add: top_val_def flip: mult.assoc)
  finally show ?thesis .
qed

section \<open>Masks\<close>

lemma and_byte_mask:
  assumes "r < 8"
  shows "unat (x AND byte_mask r) = unat x div 2 ^ (8 - r) * 2 ^ (8 - r)"
proof -
  have m: "(0xff :: 8 word) = mask 8" by (simp add: mask_eq_exp_minus_1)
  have "x AND byte_mask r = push_bit (8 - r) (drop_bit (8 - r) x)"
    by (rule bit_word_eqI) (auto simp: byte_mask_def m bit_simps)
  moreover have "unat x div 2 ^ (8 - r) * 2 ^ (8 - r) < 2 ^ 8"
    by (rule le_less_trans [OF div_times_less_eq_dividend]) (simp add: unat8_less)
  moreover have "unat (push_bit (8 - r) (drop_bit (8 - r) x)) =
      take_bit LENGTH(8) (push_bit (8 - r) (drop_bit (8 - r) (take_bit LENGTH(8) (unat x))))"
    by (simp only: unsigned_push_bit_eq unsigned_drop_bit_eq)
  ultimately show ?thesis
    by (simp only: push_bit_eq_mult drop_bit_eq_div take_bit_eq_mod) simp
qed

lemma byte_mask_eq_iff:
  "r < 8 \<Longrightarrow> x AND byte_mask r = y AND byte_mask r \<longleftrightarrow> unat x div 2 ^ (8 - r) = unat y div 2 ^ (8 - r)"
  by (simp add: word_unat_eq_iff and_byte_mask)

lemma zero_fill:
  "n \<le> length b \<Longrightarrow> f \<le> n \<Longrightarrow> foldl (\<lambda>b i. b[i := 0]) b [f ..< n] = take f b @ replicate (n - f) 0 @ drop n b"
proof (induction n)
  case (Suc n)
  show ?case
  proof (cases "f \<le> n")
    case True
    have d: "drop n b = b ! n # drop (Suc n) b" using Suc.prems by (simp add: Cons_nth_drop_Suc)
    have "(take f b @ replicate (n - f) 0 @ drop n b)[n := 0] = take f b @ replicate (n - f) 0 @ 0 # drop (Suc n) b"
      using True Suc.prems by (simp add: list_update_append d)
    then show ?thesis using Suc True by (simp add: Suc_diff_le replicate_app_Cons_same)
  next
    case False
    then show ?thesis using Suc.prems by (simp add: le_Suc_eq)
  qed
qed simp

text \<open>The masked bytes of an address.\<close>

definition mask_bytes :: "8 word list \<Rightarrow> nat \<Rightarrow> 8 word list" where
  "mask_bytes xs bits =
     (if bits mod 8 = 0 then take (bits div 8) xs @ replicate (length xs - bits div 8) 0
      else take (bits div 8) xs @ ((xs ! (bits div 8)) AND byte_mask (bits mod 8)) #
        replicate (length xs - Suc (bits div 8)) 0)"

lemma length_mask_bytes: "bits \<le> 8 * length xs \<Longrightarrow> length (mask_bytes xs bits) = length xs"
proof -
  assume "bits \<le> 8 * length xs"
  then have "bits div 8 \<le> length xs" "bits mod 8 \<noteq> 0 \<longrightarrow> bits div 8 < length xs" by presburger+
  then show ?thesis by (auto simp: mask_bytes_def min_def)
qed

lemma mask_addr_nb:
  assumes "net_wf a" "bits \<le> 8 * nbytes a"
  shows "nb (mask_addr a bits) = mask_bytes (addr_bytes a) bits @ drop (nbytes a) (nb a)"
proof -
  have l: "length (nb a) = 16" "nbytes a \<le> 16" using assms by (auto simp: net_wf_def nbytes_def)
  let ?f = "bits div 8"
  let ?b = "(nb a)[?f := (nb a ! ?f) AND byte_mask (bits mod 8)]"
  show ?thesis
  proof (cases "bits mod 8 = 0")
    case True
    then have f: "?f \<le> nbytes a" using assms by presburger
    then have "nb (mask_addr a bits) = take ?f (nb a) @ replicate (nbytes a - ?f) 0 @ drop (nbytes a) (nb a)"
      using True l zero_fill [of "nbytes a" "nb a" ?f] by (simp add: mask_addr_def nbytes_def Let_def)
    then show ?thesis using True f l by (simp add: mask_bytes_def addr_bytes_def min_def)
  next
    case False
    then have f: "?f < nbytes a" using assms by presburger
    then have "nb (mask_addr a bits) = take (Suc ?f) ?b @ replicate (nbytes a - Suc ?f) 0 @ drop (nbytes a) ?b"
      using False l zero_fill [of "nbytes a" ?b "Suc ?f"] by (simp add: mask_addr_def nbytes_def Let_def)
    moreover have "take (Suc ?f) ?b = take ?f (nb a) @ [(nb a ! ?f) AND byte_mask (bits mod 8)]"
      using f l by (simp add: take_Suc_conv_app_nth)
    moreover have "drop (nbytes a) ?b = drop (nbytes a) (nb a)" using f by (simp add: drop_update_cancel)
    ultimately show ?thesis using False f l by (simp add: mask_bytes_def addr_bytes_def min_def)
  qed
qed

lemma is4_mask [simp]: "is4 (mask_addr a bits) = is4 a"
  by (simp add: mask_addr_def Let_def)

lemma nbytes_mask [simp]: "nbytes (mask_addr a bits) = nbytes a"
  by (simp add: nbytes_def)

lemma length_addr_bytes: "net_wf a \<Longrightarrow> length (addr_bytes a) = nbytes a"
  by (simp add: addr_bytes_def net_wf_def nbytes_def)

lemma mask_addr_bytes:
  assumes "net_wf a" "bits \<le> 8 * nbytes a"
  shows "addr_bytes (mask_addr a bits) = mask_bytes (addr_bytes a) bits" "net_wf (mask_addr a bits)"
proof -
  have l: "length (mask_bytes (addr_bytes a) bits) = nbytes a"
    using assms length_mask_bytes [of bits "addr_bytes a"] by (simp add: length_addr_bytes)
  show "addr_bytes (mask_addr a bits) = mask_bytes (addr_bytes a) bits"
    using l by (simp add: addr_bytes_def [of "mask_addr a bits"] mask_addr_nb [OF assms])
  show "net_wf (mask_addr a bits)"
    using l assms by (auto simp: net_wf_def mask_addr_nb [OF assms] nbytes_def)
qed

lemma mask_bytes_val:
  assumes "bits \<le> 8 * length xs"
  shows "be_val (mask_bytes xs bits) = top_val xs bits * 2 ^ (8 * length xs - bits)"
proof (cases "bits mod 8 = 0")
  case True
  then have "8 * length xs - bits = 8 * (length xs - bits div 8)" by (auto simp: diff_mult_distrib2)
  then show ?thesis using True by (simp add: mask_bytes_def top_val_def be_val_append pow_256)
next
  case False
  let ?f = "bits div 8" and ?r = "bits mod 8"
  have b: "bits = 8 * ?f + ?r" "?r < 8" "0 < ?r" using False by simp_all
  have f: "?f < length xs" using assms b by linarith
  have e: "8 * length xs - bits = (8 - ?r) + 8 * (length xs - Suc ?f)" using b f by linarith
  have "be_val (mask_bytes xs bits) =
      (be_val (take ?f xs) * 256 + unat ((xs ! ?f) AND byte_mask ?r)) * 256 ^ (length xs - Suc ?f)"
    using False be_val_append [of "take ?f xs @ [(xs ! ?f) AND byte_mask ?r]" "replicate (length xs - Suc ?f) 0"]
    by (simp add: mask_bytes_def)
  also have "(256 :: nat) = 2 ^ ?r * 2 ^ (8 - ?r)" using b(2) by (simp flip: power_add)
  also have "be_val (take ?f xs) * (2 ^ ?r * 2 ^ (8 - ?r)) + unat ((xs ! ?f) AND byte_mask ?r) = top_val xs bits * 2 ^ (8 - ?r)"
    using False and_byte_mask [OF b(2), of "xs ! ?f"] by (simp add: top_val_def algebra_simps)
  also have "(2 ^ ?r * 2 ^ (8 - ?r)) ^ (length xs - Suc ?f) = (2 :: nat) ^ (8 * (length xs - Suc ?f))"
    using b(2) by (simp add: power_mult flip: power_add)
  finally show ?thesis by (simp only: e power_add mult.assoc)
qed

section \<open>Prefix properties\<close>

lemma parse_ipv4_length: "parse_ipv4 s = Some q \<Longrightarrow> length q = 4"
proof -
  have "v4_fields k s = Some (q, r) \<Longrightarrow> length q = k" for k s q r
    by (induction k s arbitrary: q r rule: v4_fields.induct) (auto split: option.splits if_splits list.splits)
  then show "parse_ipv4 s = Some q \<Longrightarrow> length q = 4"
    by (auto simp: parse_ipv4_def split: option.splits if_splits)
qed

lemma v6_loop_group:
  assumes "length out < 16" "v6_run 0 0 s = Some (acc, off, r)" "off \<noteq> 0" "\<not> (r \<noteq> [] \<and> hd r = CHR ''.'')"
    and "out' = out @ [word_of_nat (acc div 256), word_of_nat (acc mod 256)]"
  shows "v6_loop out e s =
    (if r = [] then Some (out', e, [])
     else if hd r \<noteq> CHR '':'' then None
     else if length r = 1 then None
     else if hd (tl r) = CHR '':'' then
       (if e \<noteq> None then None
        else if tl (tl r) = [] then Some (out', Some (length out'), [])
        else v6_loop out' (Some (length out')) (tl (tl r)))
     else v6_loop out' e (tl r))"
  using assms(1-4) unfolding assms(5) by (subst v6_loop.simps) (auto simp: Let_def)

lemma v6_loop_length:
  "v6_loop out e s = Some (out', e', r) \<Longrightarrow> length out \<le> 16 \<Longrightarrow> even (length out) \<Longrightarrow>
     (\<forall>k. e = Some k \<longrightarrow> k \<le> length out) \<Longrightarrow> length out' \<le> 16 \<and> (\<forall>k. e' = Some k \<longrightarrow> k \<le> length out')"
proof (induction out e s arbitrary: out' e' r rule: v6_loop.induct)
  case (1 out e s)
  show ?case
  proof (cases "length out < 16")
    case True
    then have l: "length out + 2 \<le> 16" using "1.prems"(3) by presburger
    obtain acc off t where run: "v6_run 0 0 s = Some (acc, off, t)" "off \<noteq> 0"
      using "1.prems"(1) True by (subst (asm) v6_loop.simps) (auto split: option.splits if_splits)
    show ?thesis
    proof (cases "t \<noteq> [] \<and> hd t = CHR ''.''")
      case dot: True
      then show ?thesis using "1.prems" True run parse_ipv4_length
        by (subst (asm) v6_loop.simps) (fastforce split: if_splits option.splits)
    next
      case nodot: False
      have le2: "\<forall>k. e = Some k \<longrightarrow> k \<le> Suc (Suc (length out))" using "1.prems"(4) by (auto intro: le_SucI)
      note IH = "1.IH" [OF True run(1) refl refl run(2) nodot refl]
      show ?thesis using "1.prems"(1) unfolding v6_loop_group [OF True run nodot refl]
        using "1.prems"(2-3) le2 l IH by (auto split: if_splits)
    qed
  next
    case False
    then show ?thesis using "1.prems" by (subst (asm) v6_loop.simps) auto
  qed
qed

lemma parse_ipv6_length: "parse_ipv6 s = Some bs \<Longrightarrow> length bs = 16"
proof -
  have "v6_expand (out, e, r) = Some bs \<Longrightarrow> length out \<le> 16 \<Longrightarrow> length bs = 16" for out e r
    by (auto simp: v6_expand_def split: if_splits option.splits)
  moreover have "v6_loop [] e t = Some (out, e', r) \<Longrightarrow> (\<forall>k. e = Some k \<longrightarrow> k \<le> 0) \<Longrightarrow> length out \<le> 16" for e t out e' r
    using v6_loop_length [of "[]" e t out e' r] by simp
  ultimately show "parse_ipv6 s = Some bs \<Longrightarrow> length bs = 16"
    by (auto simp: parse_ipv6_def bind_eq_Some_conv split: if_splits)
qed

lemma parse_addr_wf: "parse_addr s = Some a \<Longrightarrow> net_wf a"
  using parse_ipv4_length parse_ipv6_length
  by (auto simp: parse_addr_def net_wf_def split: option.splits bool.splits)

lemma parse_prefix_wf: "parse_prefix s = Some (a, bits) \<Longrightarrow> net_wf a \<and> bits \<le> 8 * nbytes a"
  using parse_addr_wf
  by (auto simp: parse_prefix_def nbytes_def Let_def split: option.splits if_splits)

lemma prefix_contains_top:
  assumes "net_wf p" "net_wf ip" "bits \<le> 8 * nbytes p"
  shows "prefix_contains p bits ip \<longleftrightarrow> is4 p = is4 ip \<and> top_val (addr_bytes p) bits = top_val (addr_bytes ip) bits"
proof (cases "is4 p = is4 ip")
  case True
  let ?f = "bits div 8" and ?r = "bits mod 8"
  let ?x = "addr_bytes p" and ?y = "addr_bytes ip"
  have n: "nbytes p = nbytes ip" using True by (simp add: nbytes_def)
  have l: "length ?x = nbytes p" "length ?y = nbytes p" using assms n by (simp_all add: length_addr_bytes)
  have f: "?f \<le> nbytes p" "?r \<noteq> 0 \<longrightarrow> ?f < nbytes p" using assms(3) by presburger+
  have eq: "list_all (\<lambda>i. nb p ! i = nb ip ! i) [0 ..< ?f] \<longleftrightarrow> be_val (take ?f ?x) = be_val (take ?f ?y)"
    using f(1) l n by (subst be_val_inj) (auto simp: list_all_iff list_eq_iff_nth_eq addr_bytes_def)
  show ?thesis
  proof (cases "?r = 0")
    case zero: True
    then show ?thesis using True eq by (simp add: prefix_contains_def top_val_def Let_def)
  next
    case False
    let ?u = "unat (?x ! ?f) div 2 ^ (8 - ?r)" and ?v = "unat (?y ! ?f) div 2 ^ (8 - ?r)"
    have nth: "nb p ! ?f = ?x ! ?f" "nb ip ! ?f = ?y ! ?f" using f False n by (simp_all add: addr_bytes_def)
    have small: "unat (w :: 8 word) div 2 ^ (8 - ?r) < 2 ^ ?r" for w
      by (rule less_mult_imp_div_less) (simp flip: power_add)
    have pair: "A * 2 ^ ?r + ?u = B * 2 ^ ?r + ?v \<longleftrightarrow> A = B \<and> ?u = ?v" for A B :: nat
    proof
      assume e: "A * 2 ^ ?r + ?u = B * 2 ^ ?r + ?v"
      have "A = B" using arg_cong [OF e, of "\<lambda>x. x div 2 ^ ?r"] small by simp
      then show "A = B \<and> ?u = ?v" using e by simp
    qed simp
    have "prefix_contains p bits ip \<longleftrightarrow> be_val (take ?f ?x) = be_val (take ?f ?y) \<and> ?u = ?v"
      using True False eq byte_mask_eq_iff [of ?r "?x ! ?f" "?y ! ?f"]
      by (simp add: prefix_contains_def nth Let_def)
    then show ?thesis using True False pair by (simp add: top_val_def)
  qed
qed (simp add: prefix_contains_def)

text \<open>
  C20. \<open>contains\<close> on a valid prefix and a valid address: it answers true exactly when both are of
  the same family and their values as 32- or 128-bit integers agree in the first \<open>bits\<close> bits.
\<close>

theorem contains_top_bits:
  assumes "parse_prefix ps = Some (p, bits)" "parse_addr as = Some ip"
  shows "dyn_netip_contains [JStr ps, JStr as] =
    Inr (JBool (is4 p = is4 ip \<and>
      addr_val p div 2 ^ (8 * nbytes p - bits) = addr_val ip div 2 ^ (8 * nbytes p - bits)))"
proof -
  have wf: "net_wf p" "bits \<le> 8 * nbytes p" "net_wf ip" using assms parse_prefix_wf parse_addr_wf by blast+
  have t: "addr_val p div 2 ^ (8 * nbytes p - bits) = top_val (addr_bytes p) bits"
    using wf top_val_div [of bits "addr_bytes p"] by (simp add: addr_val_def length_addr_bytes)
  have "is4 p = is4 ip \<Longrightarrow> addr_val ip div 2 ^ (8 * nbytes p - bits) = top_val (addr_bytes ip) bits"
    using wf top_val_div [of bits "addr_bytes ip"] by (simp add: addr_val_def length_addr_bytes nbytes_def)
  then show ?thesis using assms prefix_contains_top [OF wf(1,3,2)] t
    by (auto simp: dyn_netip_contains_def)
qed

lemmas netip_eval = parse_prefix_def parse_addr_def parse_ipv4_def v4_field_def is_dig_def dig_val_def
  less_eq_char_def Let_def numeral_eq_Suc

theorem contains_top_bits_witness:
  "\<exists>p ip. parse_prefix ''10.0.0.0/8'' = Some (p, 8) \<and> parse_addr ''10.1.2.3'' = Some ip \<and>
     dyn_netip_contains [JStr ''10.0.0.0/8'', JStr ''10.1.2.3''] =
       Inr (JBool (is4 p = is4 ip \<and> addr_val p div 2 ^ (8 * nbytes p - 8) = addr_val ip div 2 ^ (8 * nbytes p - 8)))"
proof -
  obtain p ip where p: "parse_prefix ''10.0.0.0/8'' = Some (p, 8)" "parse_addr ''10.1.2.3'' = Some ip"
    by (simp add: netip_eval)
  from contains_top_bits [OF p] p show ?thesis by blast
qed

text \<open>
  Masking an address with a prefix length of its family keeps the family and the shape of the
  byte array and rounds its integer value down to a multiple of the block size. The result is in
  the prefix, and masking it again changes nothing.
\<close>

theorem mask_rounds_down:
  assumes "net_wf a" "bits \<le> 8 * nbytes a"
  shows "net_wf (mask_addr a bits) \<and> is4 (mask_addr a bits) = is4 a \<and>
    addr_val (mask_addr a bits) = addr_val a div 2 ^ (8 * nbytes a - bits) * 2 ^ (8 * nbytes a - bits) \<and>
    prefix_contains a bits (mask_addr a bits) \<and> mask_addr (mask_addr a bits) bits = mask_addr a bits"
proof -
  let ?m = "mask_addr a bits" and ?k = "8 * nbytes a - bits"
  note mb = mask_addr_bytes [OF assms]
  have val: "addr_val b div 2 ^ (8 * nbytes b - bits) = top_val (addr_bytes b) bits"
    "addr_val (mask_addr b bits) = addr_val b div 2 ^ (8 * nbytes b - bits) * 2 ^ (8 * nbytes b - bits)"
    if "net_wf b" "bits \<le> 8 * nbytes b" for b
    using that top_val_div [of bits "addr_bytes b"] mask_bytes_val [of bits "addr_bytes b"] mask_addr_bytes [OF that]
    by (simp_all add: addr_val_def length_addr_bytes)
  have "top_val (addr_bytes ?m) bits = top_val (addr_bytes a) bits"
    using val [OF assms] val(1) [OF mb(2)] assms(2) by simp
  then have c: "prefix_contains a bits ?m" using prefix_contains_top [OF assms(1) mb(2) assms(2)] by simp
  have v: "addr_val (mask_addr ?m bits) = addr_val ?m" using val [OF assms] val(2) [OF mb(2)] assms(2) by simp
  have wf2: "net_wf (mask_addr ?m bits)" using mask_addr_bytes(2) [OF mb(2)] assms(2) by simp
  have "addr_bytes (mask_addr ?m bits) = addr_bytes ?m"
    using v be_val_inj [of "addr_bytes (mask_addr ?m bits)" "addr_bytes ?m"] mb(2) wf2
    by (simp add: addr_val_def length_addr_bytes)
  moreover have "drop (nbytes a) (nb (mask_addr ?m bits)) = drop (nbytes a) (nb ?m)"
    using mask_addr_nb [OF mb(2)] assms(2) length_mask_bytes [of bits "addr_bytes ?m"] mb(2)
    by (simp add: length_addr_bytes)
  ultimately have "nb (mask_addr ?m bits) = nb ?m"
    by (metis addr_bytes_def append_take_drop_id nbytes_mask)
  then have "mask_addr ?m bits = ?m" by (simp add: net_addr.equality)
  then show ?thesis using mb(2) val(2) [OF assms] c by simp
qed

theorem mask_rounds_down_witness:
  "addr_val (mask_addr \<lparr>is4 = True, nb = [10, 1, 2, 3] @ replicate 12 0\<rparr> 8) =
     addr_val \<lparr>is4 = True, nb = [10, 1, 2, 3] @ replicate 12 0\<rparr> div 2 ^ 24 * 2 ^ 24"
  using mask_rounds_down [of "\<lparr>is4 = True, nb = [10, 1, 2, 3] @ replicate 12 0\<rparr>" 8]
  by (simp add: net_wf_def nbytes_def)

section \<open>Order\<close>

definition net_key :: "net_addr \<Rightarrow> nat \<times> nat" where
  "net_key a = (nbytes a, addr_val a)"

lemma memcmp8_val:
  "length xs = n \<Longrightarrow> length ys = n \<Longrightarrow> memcmp8 (xs @ us) (ys @ vs) n = ord_sign (be_val xs) (be_val ys)"
proof (induction n arbitrary: xs ys)
  case (Suc n)
  then obtain x xs' y ys' where c: "xs = x # xs'" "ys = y # ys'" "length xs' = n" "length ys' = n"
    by (metis length_Suc_conv)
  have lead: "A < B \<Longrightarrow> r < K \<Longrightarrow> A * K + r < B * K + t" for A B K r t :: nat
  proof -
    assume a: "A < B" "r < K"
    have "A * K + r < (A + 1) * K" using a by simp
    also have "\<dots> \<le> B * K" using a by (intro mult_le_mono1) simp
    finally show ?thesis by simp
  qed
  have b: "be_val xs' < 256 ^ n" "be_val ys' < 256 ^ n" using be_val_less c by metis+
  consider "unat x < unat y" | "unat y < unat x" | "x = y" by (metis linorder_neqE_nat word_unat_eq_iff)
  then show ?case
  proof cases
    case 1
    then show ?thesis using c lead [OF 1 b(1), of "be_val ys'"]
      by (simp add: be_val_Cons ord_sign_def word_less_nat_alt)
  next
    case 2
    then show ?thesis using c lead [OF 2 b(2), of "be_val xs'"]
      by (simp add: be_val_Cons ord_sign_def word_less_nat_alt)
  next
    case 3
    then show ?thesis using c Suc.IH [of xs' ys'] by (simp add: be_val_Cons ord_sign_def)
  qed
qed (simp add: ord_sign_def)

lemma net_compare_key:
  assumes "net_wf x" "net_wf y"
  shows "net_compare x y = ord_sign (net_key x) (net_key y)"
proof (cases "is4 x = is4 y")
  case True
  then have n: "nbytes x = nbytes y" by (simp add: nbytes_def)
  have "memcmp8 (nb x) (nb y) (nbytes x) = ord_sign (addr_val x) (addr_val y)"
    using memcmp8_val [of "addr_bytes x" "nbytes x" "addr_bytes y" "drop (nbytes x) (nb x)" "drop (nbytes x) (nb y)"]
      assms n by (simp add: length_addr_bytes addr_val_def) (simp add: addr_bytes_def)
  then show ?thesis using True n by (auto simp: net_compare_def net_key_def nbytes_def ord_sign_def Let_def)
next
  case False
  then show ?thesis by (auto simp: net_compare_def net_key_def nbytes_def ord_sign_def)
qed

interpretation net_order: comparison net_compare net_wf net_key
  by unfold_locales (rule net_compare_key)

text \<open>
  \<open>compareAddr\<close> on valid addresses returns the sign of comparing first the families, IPv4
  before IPv6, and then the integer values. It is 0 only for the same address, and swapping the
  arguments negates it.
\<close>

theorem compare_addr_order:
  assumes "parse_addr s = Some x" "parse_addr t = Some y"
  shows "dyn_netip_compare [JStr s, JStr t] = Inr (js_int (ord_sign (net_key x) (net_key y))) \<and>
    net_compare x y = - net_compare y x \<and> (net_compare x y = 0 \<longleftrightarrow> x = y)"
proof -
  have wf: "net_wf x" "net_wf y" using assms parse_addr_wf by blast+
  have "net_key x = net_key y \<Longrightarrow> x = y"
  proof -
    assume k: "net_key x = net_key y"
    then have i: "is4 x = is4 y" by (auto simp: net_key_def nbytes_def split: if_splits)
    have "addr_bytes x = addr_bytes y"
      using k wf be_val_inj [of "addr_bytes x" "addr_bytes y"] by (simp add: net_key_def addr_val_def length_addr_bytes)
    moreover have "drop (nbytes x) (nb x) = drop (nbytes x) (nb y)" using wf i by (simp add: net_wf_def nbytes_def)
    ultimately have "nb x = nb y" using i by (metis addr_bytes_def append_take_drop_id nbytes_def)
    then show "x = y" using i by (simp add: net_addr.equality)
  qed
  then have "net_compare x y = 0 \<longleftrightarrow> x = y" using net_order.cmp_key [OF wf] by auto
  then show ?thesis using assms net_order.cmp_key [OF wf] net_order.cmp_antisym [OF wf]
    by (simp add: dyn_netip_compare_def)
qed

theorem compare_addr_order_witness:
  "\<exists>x y. parse_addr ''9.9.9.9'' = Some x \<and> parse_addr ''10.0.0.1'' = Some y \<and>
     dyn_netip_compare [JStr ''9.9.9.9'', JStr ''10.0.0.1''] = Inr (js_int (ord_sign (net_key x) (net_key y)))"
proof -
  obtain x y where p: "parse_addr ''9.9.9.9'' = Some x" "parse_addr ''10.0.0.1'' = Some y"
    by (simp add: netip_eval)
  from compare_addr_order [OF p] p show ?thesis by blast
qed

end
