(* ===== verification/Dyna_NetipText.thy ===== *)
theory Dyna_NetipText
  imports Dyna_NetipPrefix
begin

text \<open>
  Canonical text of addresses in \<^verbatim>\<open>dyna:netip\<close>: reading it back gives the address, it fits the
  buffers of its callers, and the compressed run of groups is the one RFC 5952 asks for.
\<close>

section \<open>Dotted quads\<close>

lemma dig_chr_not_0: "0 < d \<Longrightarrow> d < 10 \<Longrightarrow> dig_chr d \<noteq> CHR ''0''"
  by (metis dig_chr_0 dig_val_chr less_numeral_extra(3) zero_less_numeral)

lemma v4_run_stop: "r = [] \<or> \<not> is_dig (hd r) \<Longrightarrow> v4_run v d r = Some (v, d, r)"
  by (cases r) auto

lemma v4_field_digits:
  assumes "a < 10" "b < 10" "c < 10" "r = [] \<or> \<not> is_dig (hd r)"
  shows "v4_field (dig_chr c # r) = Some (word_of_nat c, r)"
    and "0 < b \<Longrightarrow> v4_field (dig_chr b # dig_chr c # r) = Some (word_of_nat (b * 10 + c), r)"
    and "0 < a \<Longrightarrow> (a * 10 + b) * 10 + c \<le> 255 \<Longrightarrow>
      v4_field (dig_chr a # dig_chr b # dig_chr c # r) = Some (word_of_nat ((a * 10 + b) * 10 + c), r)"
  using assms dig_chr_not_0 by (auto simp: v4_field_def v4_run_stop Let_def)

lemma v4_field_dec8:
  assumes "v < 256" "r = [] \<or> \<not> is_dig (hd r)"
  shows "v4_field (fmt_dec8 v @ r) = Some (word_of_nat v, r)"
proof -
  let ?w = "v mod 100"
  have v: "v = v div 100 * 100 + ?w" "?w = ?w div 10 * 10 + ?w mod 10" by (simp_all only: div_mult_mod_eq)
  have b: "?w < 100" "?w mod 10 < 10" by simp_all
  consider "v \<ge> 100" | "10 \<le> v" "v < 100" | "v < 10" by linarith
  then show ?thesis
  proof cases
    case 1
    have d: "0 < v div 100" "v div 100 < 10" "?w div 10 < 10"
      using 1 b assms(1) by (simp_all add: div_greater_zero_iff less_mult_imp_div_less)
    have "k = q * 100 + m \<Longrightarrow> m = d * 10 + e \<Longrightarrow> (q * 10 + d) * 10 + e = k" for k q m d e :: nat by simp
    from this [OF v] have e: "(v div 100 * 10 + ?w div 10) * 10 + ?w mod 10 = v" .
    then have "v4_field (dig_chr (v div 100) # dig_chr (?w div 10) # dig_chr (?w mod 10) # r) = Some (word_of_nat v, r)"
      using v4_field_digits(3) [of "v div 100" "?w div 10" "?w mod 10" r, unfolded e] assms b d by simp
    then show ?thesis using 1 by (simp add: fmt_dec8_def)
  next
    case 2
    then have w: "?w = v" by simp
    then have "0 < v div 10" "v div 10 < 10" using 2 by (simp_all add: div_greater_zero_iff less_mult_imp_div_less)
    then have "v4_field (dig_chr (v div 10) # dig_chr (v mod 10) # r) = Some (word_of_nat (v div 10 * 10 + v mod 10), r)"
      using v4_field_digits(2) [of 0 "v div 10" "v mod 10" r] assms by simp
    then show ?thesis using 2 by (simp add: fmt_dec8_def)
  next
    case 3
    then show ?thesis using v4_field_digits(1) [of 0 0 v r] assms by (simp add: fmt_dec8_def)
  qed
qed

lemma not_dig_sep: "\<not> is_dig (CHR ''.'')" "\<not> is_dig (CHR '':'')"
  by (simp_all add: is_dig_def less_eq_char_def)

lemma v4_field_byte: "r = [] \<or> \<not> is_dig (hd r) \<Longrightarrow> v4_field (fmt_dec8 (unat b) @ r) = Some (b, r)"
  using v4_field_dec8 [of "unat b" r] by simp

lemma parse_fmt_v4: "parse_ipv4 (fmt_v4 [a, b, c, d]) = Some [a, b, c, d]"
  using v4_field_byte [of "[]" d]
  by (simp add: parse_ipv4_def numeral_eq_Suc v4_field_byte not_dig_sep)

section \<open>Groups\<close>

definition hex_chr :: "nat \<Rightarrow> char" where
  "hex_chr d = ''0123456789abcdef'' ! d"

lemma hex_digit_table: "list_all (\<lambda>d. hex_digit (hex_chr d) = Some d) [0 ..< 16]"
  by code_simp

lemma hex_digit_chr: "d < 16 \<Longrightarrow> hex_digit (hex_chr d) = Some d"
  using hex_digit_table by (simp add: list_all_iff)

lemma hex_digit_sep: "hex_digit (CHR '':'') = None" "hex_digit (CHR ''.'') = None" "hex_digit (CHR ''%'') = None"
  by (simp_all add: hex_digit_def less_eq_char_def)

lemma fmt_hex16_cases:
  assumes "v < 65536"
  shows "fmt_hex16 v =
    (if v < 16 then [hex_chr v]
     else if v < 256 then [hex_chr (v div 16), hex_chr (v mod 16)]
     else if v < 4096 then [hex_chr (v div 256), hex_chr (v div 16 mod 16), hex_chr (v mod 16)]
     else [hex_chr (v div 4096), hex_chr (v div 256 mod 16), hex_chr (v div 16 mod 16), hex_chr (v mod 16)])"
proof -
  have d: "v div 16 div 16 = v div 256" "v div 256 div 16 = v div 4096" "v div 4096 div 16 = 0"
    using assms by (simp_all flip: div_mult2_eq)
  have z: "hex_chr 0 = CHR ''0''" by (simp add: hex_chr_def)
  show ?thesis using assms d
    by (simp add: z hex_chr_def [symmetric] fmt_hex16_def hex16_digits.simps [of v] hex16_digits.simps [of "v div 16"]
        hex16_digits.simps [of "v div 256"] hex16_digits.simps [of "v div 4096"] hex16_digits.simps [of 0]
        div_eq_0_iff)
qed

lemma v6_run_stop: "r = [] \<or> hex_digit (hd r) = None \<Longrightarrow> v6_run v d r = Some (v, d, r)"
  by (cases r) auto

lemma v6_run_digits:
  assumes "a < 16" "b < 16" "c < 16" "d < 16" "r = [] \<or> hex_digit (hd r) = None"
  shows "v6_run 0 0 (hex_chr d # r) = Some (d, 1, r)"
    and "v6_run 0 0 (hex_chr c # hex_chr d # r) = Some (c * 16 + d, 2, r)"
    and "v6_run 0 0 (hex_chr b # hex_chr c # hex_chr d # r) = Some ((b * 16 + c) * 16 + d, 3, r)"
    and "v6_run 0 0 (hex_chr a # hex_chr b # hex_chr c # hex_chr d # r) = Some (((a * 16 + b) * 16 + c) * 16 + d, 4, r)"
  using assms by (auto simp: hex_digit_chr v6_run_stop Let_def u32_def)

lemma hex_digits_of:
  assumes "v < (65536 :: nat)"
  shows "v div 16 * 16 + v mod 16 = v" "v div 256 * 16 + v div 16 mod 16 = v div 16"
    "v div 4096 * 16 + v div 256 mod 16 = v div 256" "v div 4096 < 16"
  using div_mult_mod_eq [of "v div 16" 16] div_mult_mod_eq [of "v div 256" 16] assms
  by (simp_all add: less_mult_imp_div_less flip: div_mult2_eq)

lemma v6_run_hex16:
  assumes "v < 65536" "r = [] \<or> hex_digit (hd r) = None"
  shows "\<exists>off. v6_run 0 0 (fmt_hex16 v @ r) = Some (v, off, r) \<and> off \<noteq> 0"
proof -
  note h = hex_digits_of [OF assms(1)]
  have l: "v < 256 \<Longrightarrow> v div 16 < 16" "v < 4096 \<Longrightarrow> v div 256 < 16" by (simp_all add: less_mult_imp_div_less)
  consider "v < 16" | "16 \<le> v" "v < 256" | "256 \<le> v" "v < 4096" | "4096 \<le> v" by linarith
  then show ?thesis
  proof cases
    case 1
    then show ?thesis using assms v6_run_digits(1) [of 0 0 0 v r] by (simp add: fmt_hex16_cases del: v6_run.simps)
  next
    case 2
    then show ?thesis using assms v6_run_digits(2) [of 0 0 "v div 16" "v mod 16" r] l h
      by (simp add: fmt_hex16_cases del: v6_run.simps)
  next
    case 3
    then show ?thesis using assms v6_run_digits(3) [of 0 "v div 256" "v div 16 mod 16" "v mod 16" r] l h
      by (simp add: fmt_hex16_cases del: v6_run.simps)
  next
    case 4
    then show ?thesis
      using assms v6_run_digits(4) [of "v div 4096" "v div 256 mod 16" "v div 16 mod 16" "v mod 16" r] h
      by (simp add: fmt_hex16_cases del: v6_run.simps)
  qed
qed

lemma fmt_hex16_hd:
  assumes "v < 65536"
  shows "fmt_hex16 v \<noteq> [] \<and> list_all (\<lambda>c. hex_digit c \<noteq> None) (fmt_hex16 v) \<and> length (fmt_hex16 v) \<le> 4"
proof -
  have q: "v div 16 mod 16 < 16" "v div 256 mod 16 < 16" "v mod 16 < 16" "v div 4096 < 16"
    "v < 256 \<longrightarrow> v div 16 < 16" "v < 4096 \<longrightarrow> v div 256 < 16"
    using assms by (simp_all add: less_mult_imp_div_less)
  then show ?thesis by (auto simp: fmt_hex16_cases [OF assms] hex_digit_chr)
qed

section \<open>Text of the groups\<close>

definition colon_text :: "nat list \<Rightarrow> string" where
  "colon_text gs = concat (map (\<lambda>v. CHR '':'' # fmt_hex16 v) gs)"

fun join_text :: "nat list \<Rightarrow> string" where
  "join_text [] = []"
| "join_text (v # gs) = fmt_hex16 v @ colon_text gs"

lemma colon_text_simps [simp]:
  "colon_text [] = []" "colon_text (v # gs) = CHR '':'' # fmt_hex16 v @ colon_text gs"
  by (simp_all add: colon_text_def)

lemma fmt_groups_tail:
  "length g = 8 \<Longrightarrow> 0 < i \<Longrightarrow> (\<forall>s. start = Some s \<longrightarrow> s < i) \<Longrightarrow> fmt_groups g start len i = colon_text (drop i g)"
proof (induction "8 - i" arbitrary: i)
  case 0
  then show ?case by (subst fmt_groups.simps) simp
next
  case (Suc k)
  then have "drop i g = g ! i # drop (Suc i) g" by (simp add: Cons_nth_drop_Suc)
  moreover have "fmt_groups g start len (Suc i) = colon_text (drop (Suc i) g)" using Suc by (auto intro!: Suc.hyps(1))
  ultimately show ?case using Suc by (subst fmt_groups.simps) auto
qed

lemma fmt_groups_plain: "length g = 8 \<Longrightarrow> fmt_groups g None len 0 = join_text g"
  using fmt_groups_tail [of g 1 None len] by (subst fmt_groups.simps) (cases g; simp)

text \<open>From group \<open>i\<close> on, before the compressed run.\<close>

lemma fmt_groups_head:
  "length g = 8 \<Longrightarrow> i \<le> s \<Longrightarrow> s < 8 \<Longrightarrow> fmt_groups g (Some s) len i =
     (if i = 0 then join_text (take s g) else colon_text (take (s - i) (drop i g))) @ ''::'' @ join_text (drop (s + len) g)"
proof (induction "s - i" arbitrary: i)
  case 0
  show ?case
  proof (cases "s + len \<ge> 8")
    case False
    then have "drop (s + len) g = g ! (s + len) # drop (Suc (s + len)) g" using 0 by (simp add: Cons_nth_drop_Suc)
    then show ?thesis using 0 False fmt_groups_tail [of g "Suc (s + len)" "Some s" len]
      by (subst fmt_groups.simps) auto
  qed (use 0 in \<open>subst fmt_groups.simps, auto\<close>)
next
  case (Suc k)
  have d: "drop i g = g ! i # drop (Suc i) g" using Suc by (simp add: Cons_nth_drop_Suc)
  have s: "s - i = Suc (s - Suc i)" using Suc by simp
  have IH: "fmt_groups g (Some s) len (Suc i) = colon_text (take (s - Suc i) (drop (Suc i) g)) @ ''::'' @ join_text (drop (s + len) g)"
    using Suc by (subst Suc.hyps(1)) auto
  have t: "take (s - i) (drop i g) = g ! i # take (s - Suc i) (drop (Suc i) g)" by (simp only: s d take_Suc_Cons)
  show ?case
  proof (cases "i = 0")
    case True
    then have "take s g = g ! 0 # take (s - Suc 0) (drop (Suc 0) g)" using t by simp
    then show ?thesis using True Suc IH by (subst fmt_groups.simps) simp
  next
    case False
    moreover have "s \<noteq> i" using Suc.hyps(2) by simp
    ultimately show ?thesis using Suc.prems IH t by (subst fmt_groups.simps) simp
  qed
qed

section \<open>Reading the groups\<close>

definition group_bytes :: "nat list \<Rightarrow> 8 word list" where
  "group_bytes gs = concat (map (\<lambda>v. [word_of_nat (v div 256), word_of_nat (v mod 256)]) gs)"

lemma group_bytes_simps [simp]:
  "group_bytes [] = []"
  "group_bytes (v # gs) = word_of_nat (v div 256) # word_of_nat (v mod 256) # group_bytes gs"
  "group_bytes (gs @ hs) = group_bytes gs @ group_bytes hs"
  by (simp_all add: group_bytes_def)

lemma length_group_bytes [simp]: "length (group_bytes gs) = 2 * length gs"
  by (induction gs) simp_all

lemma hex16_hd_not_sep:
  assumes "v < 65536"
  shows "hd (fmt_hex16 v @ r) \<noteq> CHR '':'' \<and> hd (fmt_hex16 v @ r) \<noteq> CHR ''.''"
  using fmt_hex16_hd [OF assms] hex_digit_sep by (cases "fmt_hex16 v") auto

lemma v6_loop_join:
  "gs \<noteq> [] \<Longrightarrow> \<forall>v \<in> set gs. v < 65536 \<Longrightarrow> length out + 2 * length gs \<le> 16 \<Longrightarrow>
     v6_loop out e (join_text gs) = Some (out @ group_bytes gs, e, [])"
proof (induction gs arbitrary: out)
  case (Cons v gs)
  have r: "colon_text gs = [] \<or> hex_digit (hd (colon_text gs)) = None" by (cases gs) (auto simp: hex_digit_sep)
  obtain off where run: "v6_run 0 0 (fmt_hex16 v @ colon_text gs) = Some (v, off, colon_text gs)" "off \<noteq> 0"
    using v6_run_hex16 [OF _ r, of v] Cons.prems by auto
  have nodot: "\<not> (colon_text gs \<noteq> [] \<and> hd (colon_text gs) = CHR ''.'')" by (cases gs) auto
  have l: "length out < 16" using Cons.prems by simp
  note step = v6_loop_group [OF l run nodot refl, of e]
  show ?case
  proof (cases gs)
    case Nil
    then show ?thesis using step by simp
  next
    case (Cons w hs)
    have w: "w < 65536" using Cons Cons.prems by simp
    have t: "fmt_hex16 w \<noteq> []" using fmt_hex16_hd [OF w] by simp
    have "v6_loop (out @ [word_of_nat (v div 256), word_of_nat (v mod 256)]) e (join_text gs) =
        Some ((out @ [word_of_nat (v div 256), word_of_nat (v mod 256)]) @ group_bytes gs, e, [])"
      using Cons.prems Cons by (intro Cons.IH) auto
    then show ?thesis using step Cons hex16_hd_not_sep [OF w, of "colon_text hs"] t by simp
  qed
qed simp

lemma v6_loop_ellipsis:
  "gs \<noteq> [] \<Longrightarrow> \<forall>v \<in> set gs. v < 65536 \<Longrightarrow> length out + 2 * length gs \<le> 16 \<Longrightarrow>
     v6_loop out None (join_text gs @ ''::'' @ t) =
       (if t = [] then Some (out @ group_bytes gs, Some (length out + 2 * length gs), [])
        else v6_loop (out @ group_bytes gs) (Some (length out + 2 * length gs)) t)"
proof (induction gs arbitrary: out)
  case (Cons v gs)
  let ?r = "colon_text gs @ ''::'' @ t"
  have r: "?r = [] \<or> hex_digit (hd ?r) = None" by (cases gs) (auto simp: hex_digit_sep)
  obtain off where run: "v6_run 0 0 (fmt_hex16 v @ ?r) = Some (v, off, ?r)" "off \<noteq> 0"
    using v6_run_hex16 [OF _ r, of v] Cons.prems by auto
  have nodot: "\<not> (?r \<noteq> [] \<and> hd ?r = CHR ''.'')" by (cases gs) auto
  have l: "length out < 16" using Cons.prems by simp
  note step = v6_loop_group [OF l run nodot refl, of None]
  show ?case
  proof (cases gs)
    case Nil
    then show ?thesis using step by simp
  next
    case (Cons w hs)
    have w: "w < 65536" using Cons Cons.prems by simp
    have t: "fmt_hex16 w \<noteq> []" using fmt_hex16_hd [OF w] by simp
    let ?o = "out @ [word_of_nat (v div 256), word_of_nat (v mod 256)]"
    have "v6_loop ?o None (join_text gs @ ''::'' @ t) =
        (if t = [] then Some (?o @ group_bytes gs, Some (length ?o + 2 * length gs), [])
         else v6_loop (?o @ group_bytes gs) (Some (length ?o + 2 * length gs)) t)"
      using Cons.prems Cons by (intro Cons.IH) auto
    then show ?thesis using step Cons hex16_hd_not_sep [OF w, of "colon_text hs @ ''::'' @ t"] t by simp
  qed
qed simp

section \<open>The compressed run\<close>

lemma zero_run_end_zeros: "\<forall>k. j \<le> k \<and> k < zero_run_end g j \<longrightarrow> g ! k = 0"
proof (induction g j rule: zero_run_end.induct)
  case (1 g j)
  show ?case
  proof (cases "j < 8 \<and> g ! j = 0")
    case True
    then show ?thesis using 1 by (subst zero_run_end.simps) (metis Suc_eq_plus1 Suc_leI le_neq_implies_less)
  qed (subst zero_run_end.simps, auto)
qed

lemma zero_run_end_le: "j \<le> 8 \<Longrightarrow> zero_run_end g j \<le> 8"
  by (induction g j rule: zero_run_end.induct) (subst zero_run_end.simps, auto)

lemma zero_run_end_stop: "zero_run_end g j < 8 \<Longrightarrow> g ! zero_run_end g j \<noteq> 0"
proof (induction g j rule: zero_run_end.induct)
  case (1 g j)
  then show ?case by (auto simp: zero_run_end.simps [of g j] split: if_splits)
qed

text \<open>A run of zero groups.\<close>

definition zero_run :: "nat list \<Rightarrow> nat \<times> nat \<Rightarrow> bool" where
  "zero_run g r \<longleftrightarrow> fst r + snd r \<le> 8 \<and> (\<forall>k. fst r \<le> k \<and> k < fst r + snd r \<longrightarrow> g ! k = 0)"

lemma zero_run_end_run: "i < 8 \<Longrightarrow> g ! i = 0 \<Longrightarrow> zero_run g (i, zero_run_end g i - i)"
  using zero_run_end_zeros [of i g] zero_run_end_le [of i g] zero_run_end_ge [of i g] by (auto simp: zero_run_def)

lemma best_run_zero: "zero_run g best \<Longrightarrow> zero_run g (best_run g i best)"
proof (induction g i best rule: best_run.induct)
  case (1 g i best)
  show ?case
  proof (cases "i < 8")
    case True
    then show ?thesis using 1 zero_run_end_run [of i g]
      by (subst best_run.simps) (auto simp: Let_def)
  next
    case False
    then show ?thesis using 1 by (subst best_run.simps) simp
  qed
qed

text \<open>Among the runs that start before \<open>i\<close>, \<open>best\<close> is a longest one and the first of these.\<close>

definition best_before :: "nat list \<Rightarrow> nat \<Rightarrow> nat \<times> nat \<Rightarrow> bool" where
  "best_before g i best \<longleftrightarrow> fst best \<le> i \<and>
     (\<forall>s l. 0 < l \<and> s < i \<and> zero_run g (s, l) \<longrightarrow> l \<le> snd best \<and> (l = snd best \<longrightarrow> fst best \<le> s))"

lemma zero_run_within:
  assumes "zero_run g (s, l)" "i \<le> s" "s < zero_run_end g i" "0 < l"
  shows "s + l \<le> zero_run_end g i"
proof (rule ccontr)
  assume "\<not> s + l \<le> zero_run_end g i"
  then have "g ! zero_run_end g i = 0" "zero_run_end g i < 8" using assms by (auto simp: zero_run_def)
  then show False using zero_run_end_stop by blast
qed

lemma best_before_step:
  assumes "best_before g i best" "i < 8" "g ! i = 0"
  shows "best_before g (zero_run_end g i) (if zero_run_end g i - i > snd best then (i, zero_run_end g i - i) else best)"
proof -
  let ?j = "zero_run_end g i"
  have j: "i < ?j" using assms zero_run_end_gt by blast
  have late: "l \<le> ?j - i \<and> (l = ?j - i \<longrightarrow> s = i)" if "0 < l" "i \<le> s" "s < ?j" "zero_run g (s, l)" for s l
    using zero_run_within [OF that(4,2,3,1)] that by linarith
  have early: "l \<le> snd best \<and> (l = snd best \<longrightarrow> fst best \<le> s)" if "0 < l" "s < i" "zero_run g (s, l)" for s l
    using assms(1) that by (auto simp: best_before_def)
  have f: "fst best \<le> i" using assms(1) by (simp add: best_before_def)
  show ?thesis
  proof (cases "?j - i > snd best")
    case True
    have "l \<le> ?j - i \<and> (l = ?j - i \<longrightarrow> i \<le> s)" if "0 < l" "s < ?j" "zero_run g (s, l)" for s l
      using early [of l s] late [of l s] that True by (cases "s < i") auto
    then show ?thesis using True j by (auto simp: best_before_def)
  next
    case False
    have "l \<le> snd best \<and> (l = snd best \<longrightarrow> fst best \<le> s)" if "0 < l" "s < ?j" "zero_run g (s, l)" for s l
      using early [of l s] late [of l s] that False f by (cases "s < i") auto
    then show ?thesis using False f j by (auto simp: best_before_def)
  qed
qed

lemma best_before_skip: "best_before g i best \<Longrightarrow> g ! i \<noteq> 0 \<Longrightarrow> best_before g (Suc i) best"
  by (auto simp: best_before_def zero_run_def less_Suc_eq)

lemma best_run_best: "best_before g i best \<Longrightarrow> i \<le> 8 \<Longrightarrow> best_before g 8 (best_run g i best)"
proof (induction g i best rule: best_run.induct)
  case (1 g i best)
  show ?case
  proof (cases "i < 8")
    case True
    then show ?thesis using 1 best_before_step [of g i best] best_before_skip [of g i best] zero_run_end_le [of i g]
      by (subst best_run.simps) (auto simp: Let_def)
  next
    case False
    then show ?thesis using 1 by (subst best_run.simps) simp
  qed
qed

definition longest_run :: "nat list \<Rightarrow> nat \<times> nat \<Rightarrow> bool" where
  "longest_run g r \<longleftrightarrow> zero_run g r \<and>
     (\<forall>s l. 0 < l \<and> zero_run g (s, l) \<longrightarrow> l \<le> snd r \<and> (l = snd r \<longrightarrow> fst r \<le> s))"

lemma best_run_longest: "longest_run g (best_run g 0 (0, 0))"
proof -
  have "zero_run g (0, 0)" "best_before g 0 (0, 0)" by (auto simp: zero_run_def best_before_def)
  then have "zero_run g (best_run g 0 (0, 0))" "best_before g 8 (best_run g 0 (0, 0))"
    using best_run_zero best_run_best by blast+
  moreover have "0 < l \<Longrightarrow> zero_run g (s, l) \<Longrightarrow> s < 8" for s l by (auto simp: zero_run_def)
  ultimately show ?thesis by (auto simp: longest_run_def best_before_def)
qed

lemma format_v6:
  assumes "\<not> is4 a" "\<not> is_4in6 a" "g = addr_groups (nb a)"
  obtains s l where "longest_run g (s, l)"
    "format_addr a = (if l < 2 then join_text g else join_text (take s g) @ ''::'' @ join_text (drop (s + l) g))"
proof -
  obtain s l where r: "best_run g 0 (0, 0) = (s, l)" by fastforce
  have run: "longest_run g (s, l)" using best_run_longest [of g] r by simp
  have len: "length g = 8" using assms by (simp add: addr_groups_def)
  have "l \<ge> 2 \<Longrightarrow> s < 8" using run by (auto simp: longest_run_def zero_run_def)
  then have "format_addr a = (if l < 2 then join_text g else join_text (take s g) @ ''::'' @ join_text (drop (s + l) g))"
    using assms r len fmt_groups_plain [of g l] fmt_groups_head [of g 0 s l] by (auto simp: format_addr_def Let_def)
  with run show ?thesis using that by blast
qed

section \<open>Round trip\<close>

lemma addr_groups_less: "v \<in> set (addr_groups b) \<Longrightarrow> v < 65536"
proof -
  have "unat x * 256 + unat y < 65536" for x y :: "8 word"
    using unat8_less [of x] unat8_less [of y] by linarith
  then show "v \<in> set (addr_groups b) \<Longrightarrow> v < 65536" by (auto simp: addr_groups_def)
qed

lemma group_bytes_groups:
  assumes "length b = 16"
  shows "group_bytes (addr_groups b) = b"
proof -
  have d: "word_of_nat ((unat x * 256 + unat y) div 256) = x" "word_of_nat ((unat x * 256 + unat y) mod 256) = y"
    for x y :: "8 word" by simp_all
  have "group_bytes (addr_groups b) = concat (map (\<lambda>i. [b ! (2 * i), b ! (2 * i + 1)]) [0 ..< 8])"
    by (simp only: group_bytes_def addr_groups_def map_map o_def d)
  also have "\<dots> = map ((!) b) [0 ..< 16]" by (simp add: upt_rec numeral_eq_Suc)
  also have "\<dots> = b" using assms by (metis map_nth)
  finally show ?thesis .
qed

lemma group_bytes_zeros [simp]: "group_bytes (replicate k 0) = replicate (2 * k) 0"
  by (induction k) simp_all

lemma addr_kind_skip:
  "list_all (\<lambda>c. c \<noteq> CHR ''.'' \<and> c \<noteq> CHR '':'' \<and> c \<noteq> CHR ''%'') h \<Longrightarrow> addr_kind (h @ t) = addr_kind t"
  by (induction h) auto

lemma hex16_skip: "v < 65536 \<Longrightarrow> addr_kind (fmt_hex16 v @ t) = addr_kind t"
  using fmt_hex16_hd [of v] hex_digit_sep by (intro addr_kind_skip) (auto simp: list_all_iff)

lemma dec8_digits: "v < 256 \<Longrightarrow> list_all is_dig (fmt_dec8 v) \<and> fmt_dec8 v \<noteq> [] \<and> length (fmt_dec8 v) \<le> 3"
  by (auto simp: fmt_dec8_def less_mult_imp_div_less)

lemma dec8_skip: "v < 256 \<Longrightarrow> addr_kind (fmt_dec8 v @ t) = addr_kind t"
  using dec8_digits [of v] not_dig_sep by (intro addr_kind_skip) (auto simp: list_all_iff is_dig_def less_eq_char_def)

lemma list_4: "length q = 4 \<Longrightarrow> \<exists>a b c d. q = [a, b, c, d]"
  by (auto simp: numeral_eq_Suc length_Suc_conv)

lemma round_trip_v4:
  assumes "net_wf a" "is4 a"
  shows "parse_addr (format_addr a) = Some a"
proof -
  obtain w x y z where q: "take 4 (nb a) = [w, x, y, z]" using assms list_4 [of "take 4 (nb a)"] by (auto simp: net_wf_def)
  have "nb a = [w, x, y, z] @ replicate 12 0" using assms q by (metis append_take_drop_id net_wf_def)
  moreover have "addr_kind (fmt_v4 [w, x, y, z]) = Some True" using dec8_skip [of "unat w"] by simp
  ultimately show ?thesis using assms q parse_fmt_v4 [of w x y z]
    by (simp add: parse_addr_def format_addr_def del: fmt_v4.simps)
qed

lemma is_dig_hex: "is_dig c \<Longrightarrow> hex_digit c = Some (dig_val c)"
  by (simp add: hex_digit_def is_dig_def dig_val_def)

lemma v6_run_dec8:
  assumes "v < 256"
  shows "\<exists>acc off. v6_run 0 0 (fmt_dec8 v @ CHR ''.'' # t) = Some (acc, off, CHR ''.'' # t) \<and> off \<noteq> 0"
proof -
  have "v div 100 < 10" "v mod 100 div 10 < 10" "v mod 100 mod 10 < 10" "v mod 10 < 10"
    using assms by (simp_all add: less_mult_imp_div_less)
  moreover have "v < 100 \<Longrightarrow> v div 10 < 10" by (simp add: less_mult_imp_div_less)
  ultimately show ?thesis
    by (auto simp: fmt_dec8_def is_dig_hex u32_def hex_digit_sep Let_def)
qed

lemma round_trip_4in6:
  assumes "net_wf a" "is_4in6 a"
  shows "parse_addr (format_addr a) = Some a"
proof -
  have l: "length (nb a) = 16" and n: "\<not> is4 a" using assms by (auto simp: net_wf_def is_4in6_def)
  obtain w x y z where q: "drop 12 (nb a) = [w, x, y, z]" using l list_4 [of "drop 12 (nb a)"] by auto
  let ?t = "fmt_v4 [w, x, y, z]"
  have "take 10 (nb a) = replicate 10 0" using assms(2) l by (auto simp: is_4in6_def list_all_iff list_eq_iff_nth_eq)
  moreover have "take 12 (nb a) = take 10 (nb a) @ [nb a ! 10, nb a ! 11]"
    using l take_Suc_conv_app_nth [of 10 "nb a"] take_Suc_conv_app_nth [of 11 "nb a"] by simp
  ultimately have nb: "nb a = replicate 10 0 @ [0xff, 0xff] @ [w, x, y, z]"
    using assms(2) q append_take_drop_id [of 12 "nb a"] by (simp add: is_4in6_def)
  obtain acc off t where run: "v6_run 0 0 ?t = Some (acc, off, CHR ''.'' # t)" "off \<noteq> 0"
    using v6_run_dec8 [of "unat w"] by fastforce
  have tail: "v6_loop [0xff, 0xff] (Some 0) ?t = Some ([0xff, 0xff, w, x, y, z], Some 0, [])"
    using run parse_fmt_v4 [of w x y z] by (subst v6_loop.simps) (simp del: fmt_v4.simps)
  have hd: "?t \<noteq> []" "hd ?t \<noteq> CHR '':''"
    using dec8_digits [of "unat w"] not_dig_sep by (cases "fmt_dec8 (unat w)"; auto)+
  have f: "v6_run 0 0 (''ffff'' @ CHR '':'' # ?t) = Some (65535, 4, CHR '':'' # ?t)"
    using v6_run_digits(4) [of 15 15 15 15 "CHR '':'' # ?t"] hex_digit_sep by (simp add: hex_chr_def del: fmt_v4.simps)
  have "v6_loop [] (Some 0) (''ffff'' @ CHR '':'' # ?t) = v6_loop [0xff, 0xff] (Some 0) ?t"
    using v6_loop_group [OF _ f _ _ refl, of "[]" "Some 0"] hd by (simp del: fmt_v4.simps)
  then have "parse_ipv6 (''::ffff:'' @ ?t) = Some (nb a)"
    using tail nb by (simp add: parse_ipv6_def v6_expand_def numeral_eq_Suc del: fmt_v4.simps)
  then show ?thesis using n assms(2) q by (simp add: parse_addr_def format_addr_def del: fmt_v4.simps)
qed

lemma addr_kind_join:
  "gs \<noteq> [] \<Longrightarrow> \<forall>v \<in> set gs. v < 65536 \<Longrightarrow> length gs > 1 \<or> t \<noteq> [] \<and> hd t = CHR '':'' \<Longrightarrow>
     addr_kind (join_text gs @ t) = Some False"
proof -
  assume a: "gs \<noteq> []" "\<forall>v \<in> set gs. v < 65536" "length gs > 1 \<or> t \<noteq> [] \<and> hd t = CHR '':''"
  then obtain v hs where g: "gs = v # hs" by (cases gs) auto
  then show ?thesis using a hex16_skip [of v "colon_text hs @ t"] by (cases hs; cases t) auto
qed

lemma parse_compressed:
  assumes "g = gs @ replicate k 0 @ hs" "length g = 8" "0 < k" "\<forall>v \<in> set g. v < 65536"
  shows "parse_ipv6 (join_text gs @ ''::'' @ join_text hs) = Some (group_bytes g) \<and>
    addr_kind (join_text gs @ ''::'' @ join_text hs) = Some False"
proof -
  have len: "length gs + k + length hs = 8" using assms by simp
  have small: "\<forall>v \<in> set gs. v < 65536" "\<forall>v \<in> set hs. v < 65536" using assms by auto
  have ne: "hs \<noteq> [] \<Longrightarrow> join_text hs \<noteq> []" using small(2) fmt_hex16_hd by (cases hs) auto
  show ?thesis
  proof (cases "gs = []")
    case True
    show ?thesis
    proof (cases "hs = []")
      case empty: True
      then have "group_bytes g = replicate 16 0" using assms(1) True len by simp
      then show ?thesis using True empty by (simp add: parse_ipv6_def)
    next
      case False
      have "v6_loop [] (Some 0) (join_text hs) = Some (group_bytes hs, Some 0, [])"
        using v6_loop_join [OF False small(2), of "[]"] len by simp
      then show ?thesis using True False ne assms(1,3) len
        by (simp add: parse_ipv6_def v6_expand_def numeral_2_eq_2)
    qed
  next
    case gs: False
    have "take 2 (join_text gs @ ''::'' @ join_text hs) \<noteq> ''::''"
    proof -
      obtain v us where g: "gs = v # us" using gs by (cases gs) auto
      then have "hd (fmt_hex16 v @ colon_text us @ ''::'' @ join_text hs) \<noteq> CHR '':''"
        using small(1) hex16_hd_not_sep by auto
      then show ?thesis using g by (metis append.assoc hd_take join_text.simps(2) list.sel(1) zero_less_numeral)
    qed
    moreover have "v6_loop [] None (join_text gs @ ''::'' @ join_text hs) =
        Some (group_bytes gs @ group_bytes hs, Some (2 * length gs), [])"
    proof (cases "hs = []")
      case True
      then show ?thesis using v6_loop_ellipsis [OF gs small(1), of "[]" "[]"] len by simp
    next
      case False
      then show ?thesis
        using v6_loop_ellipsis [OF gs small(1), of "[]" "join_text hs"] ne len
          v6_loop_join [OF False small(2), of "group_bytes gs" "Some (2 * length gs)"] by simp
    qed
    moreover have "16 - (2 * length gs + 2 * length hs) = 2 * k" "2 * length gs + 2 * length hs < 16"
      using len assms(3) by linarith+
    ultimately show ?thesis using assms(1) addr_kind_join [OF gs small(1), of "''::'' @ join_text hs"]
      by (simp add: parse_ipv6_def v6_expand_def)
  qed
qed

lemma zero_run_split:
  assumes "zero_run g (s, l)" "length g = 8"
  shows "g = take s g @ replicate l 0 @ drop (s + l) g"
proof -
  have "take l (drop s g) = replicate l 0" using assms by (auto simp: zero_run_def list_eq_iff_nth_eq)
  then show ?thesis by (metis add.commute append_take_drop_id drop_drop)
qed

lemma round_trip_v6:
  assumes "net_wf a" "\<not> is4 a" "\<not> is_4in6 a"
  shows "parse_addr (format_addr a) = Some a"
proof -
  let ?g = "addr_groups (nb a)"
  have len: "length ?g = 8" by (simp add: addr_groups_def)
  have small: "\<forall>v \<in> set ?g. v < 65536" using addr_groups_less by blast
  have b: "group_bytes ?g = nb a" using assms group_bytes_groups by (simp add: net_wf_def)
  obtain s l where r: "longest_run ?g (s, l)" and
    f: "format_addr a = (if l < 2 then join_text ?g else join_text (take s ?g) @ ''::'' @ join_text (drop (s + l) ?g))"
    using format_v6 [OF assms(2,3) refl] by blast
  have "parse_ipv6 (format_addr a) = Some (nb a) \<and> addr_kind (format_addr a) = Some False"
  proof (cases "l < 2")
    case True
    have ne: "?g \<noteq> []" using len by auto
    have k: "addr_kind (join_text ?g) = Some False" using addr_kind_join [OF ne small, of "[]"] len by simp
    have lp: "v6_loop [] None (join_text ?g) = Some (nb a, None, [])"
      using v6_loop_join [OF ne small, of "[]" None] len b by simp
    obtain v us where g: "?g = v # us" using ne by (cases ?g) auto
    have "hd (join_text ?g) \<noteq> CHR '':''" using g small hex16_hd_not_sep [of v] by simp
    then have "take 2 (join_text ?g) \<noteq> ''::''" by (metis hd_take list.sel(1) zero_less_numeral)
    then show ?thesis using True f k lp assms(1) by (simp add: parse_ipv6_def v6_expand_def net_wf_def)
  next
    case False
    have "?g = take s ?g @ replicate l 0 @ drop (s + l) ?g" using r len zero_run_split by (simp add: longest_run_def)
    from parse_compressed [OF this len _ small] show ?thesis using False f b by simp
  qed
  then show ?thesis using assms(2) by (simp add: parse_addr_def)
qed

lemma parse_format: "net_wf a \<Longrightarrow> parse_addr (format_addr a) = Some a"
  using round_trip_v4 round_trip_4in6 round_trip_v6 by blast

text \<open>
  C9. The canonical text of a parsed address parses to the same address, so \<open>canonical\<close> loses
  nothing, two addresses have the same canonical text only if they are equal, and \<open>canonical\<close> of a
  canonical text is that text.
\<close>

theorem canonical_round_trip:
  assumes "parse_addr s = Some a"
  shows "\<exists>t. dyn_netip_canonical [JStr s] = Inr (JStr t) \<and> parse_addr t = Some a \<and>
    dyn_netip_canonical [JStr t] = Inr (JStr t)"
  using assms parse_format [OF parse_addr_wf [OF assms]]
  by (auto simp: dyn_netip_canonical_def netip_arg_str_def)

theorem canonical_round_trip_witness:
  "\<exists>a t. parse_addr ''192.168.0.1'' = Some a \<and> dyn_netip_canonical [JStr ''192.168.0.1''] = Inr (JStr t) \<and>
     parse_addr t = Some a \<and> dyn_netip_canonical [JStr t] = Inr (JStr t)"
proof -
  obtain a where a: "parse_addr ''192.168.0.1'' = Some a" by (simp add: netip_eval)
  from canonical_round_trip [OF a] a show ?thesis by blast
qed

text \<open>
  C27. The text of an IPv6 address that is not IPv4-mapped follows RFC 5952, section 4.2: with the
  first of the longest runs of zero groups, the text is the groups with colons between them if that
  run is shorter than two groups, and otherwise \<open>::\<close> stands for exactly that run.
\<close>

theorem format_rfc5952:
  assumes "\<not> is4 a" "\<not> is_4in6 a"
  shows "\<exists>s l. longest_run (addr_groups (nb a)) (s, l) \<and>
    format_addr a =
      (if l < 2 then join_text (addr_groups (nb a))
       else join_text (take s (addr_groups (nb a))) @ ''::'' @ join_text (drop (s + l) (addr_groups (nb a))))"
  using format_v6 [OF assms refl] by metis

theorem format_rfc5952_witness:
  "\<exists>s l. longest_run (addr_groups (replicate 15 0 @ [1])) (s, l) \<and>
    format_addr \<lparr>is4 = False, nb = replicate 15 0 @ [1]\<rparr> =
      (if l < 2 then join_text (addr_groups (replicate 15 0 @ [1]))
       else join_text (take s (addr_groups (replicate 15 0 @ [1]))) @ ''::'' @
         join_text (drop (s + l) (addr_groups (replicate 15 0 @ [1]))))"
proof -
  have "\<not> is4 \<lparr>is4 = False, nb = replicate 15 0 @ [1]\<rparr>" "\<not> is_4in6 \<lparr>is4 = False, nb = replicate 15 0 @ [1]\<rparr>"
    by (simp_all add: is_4in6_def nth_append)
  from format_rfc5952 [OF this] show ?thesis by (simp only: net_addr.simps)
qed

lemma colon_text_length: "\<forall>v \<in> set gs. v < 65536 \<Longrightarrow> length (colon_text gs) \<le> 5 * length gs"
proof (induction gs)
  case (Cons v gs)
  then show ?case using fmt_hex16_hd [of v] by simp
qed simp

lemma join_text_length: "\<forall>v \<in> set gs. v < 65536 \<Longrightarrow> length (join_text gs) \<le> 5 * length gs - 1"
  using colon_text_length [of "tl gs"] fmt_hex16_hd [of "hd gs"] by (cases gs) auto

lemma fmt_v4_length: "length (fmt_v4 [a, b, c, d]) \<le> 15"
  using dec8_digits [of "unat a"] dec8_digits [of "unat b"] dec8_digits [of "unat c"] dec8_digits [of "unat d"] by simp

text \<open>
  The formatter writes at most 39 bytes, so the 48-byte buffers of its callers never overflow.
\<close>

theorem format_fits:
  assumes "net_wf a"
  shows "length (format_addr a) \<le> 39"
proof -
  have l: "length (nb a) = 16" using assms by (simp add: net_wf_def)
  consider "is4 a" | "\<not> is4 a" "is_4in6 a" | "\<not> is4 a" "\<not> is_4in6 a" by blast
  then show ?thesis
  proof cases
    case 1
    obtain w x y z where "take 4 (nb a) = [w, x, y, z]" using l list_4 [of "take 4 (nb a)"] by auto
    then show ?thesis using 1 fmt_v4_length [of w x y z] by (simp add: format_addr_def del: fmt_v4.simps)
  next
    case 2
    obtain w x y z where "drop 12 (nb a) = [w, x, y, z]" using l list_4 [of "drop 12 (nb a)"] by auto
    then show ?thesis using 2 fmt_v4_length [of w x y z] by (simp add: format_addr_def del: fmt_v4.simps)
  next
    case 3
    let ?g = "addr_groups (nb a)"
    have len: "length ?g = 8" by (simp add: addr_groups_def)
    have small: "\<forall>v \<in> set ?g. v < 65536" using addr_groups_less by blast
    obtain s l where r: "longest_run ?g (s, l)" and
      f: "format_addr a = (if l < 2 then join_text ?g else join_text (take s ?g) @ ''::'' @ join_text (drop (s + l) ?g))"
      using format_v6 [OF 3 refl] by blast
    have "length (join_text (take s ?g)) \<le> 5 * length (take s ?g) - 1"
      "length (join_text (drop (s + l) ?g)) \<le> 5 * length (drop (s + l) ?g) - 1"
      by (rule join_text_length; use small in_set_takeD in_set_dropD in metis)+
    moreover have "s + l \<le> 8" using r by (simp add: longest_run_def zero_run_def)
    ultimately show ?thesis using f join_text_length [OF small] len by auto
  qed
qed

theorem format_fits_witness: "length (format_addr \<lparr>is4 = False, nb = replicate 16 255\<rparr>) \<le> 39"
  using format_fits [of "\<lparr>is4 = False, nb = replicate 16 255\<rparr>"] by (simp add: net_wf_def)

end
