(* ===== verification/Dyna_Encoding.thy ===== *)
theory Dyna_Encoding
  imports Dyna_Bytes
begin

unbundle bit_operations_syntax

text \<open>
  The module \<^verbatim>\<open>dyna:encoding\<close> of \<^verbatim>\<open>src/src/dyna-encoding.c\<close>, with the scalar hex and base64 kernels of
  \<^verbatim>\<open>src/src/dyna-simd-scalar.c\<close> in the kernel table. The functions are declared with one parameter, so
  the engine supplies \<open>argv[0]\<close> in every call.

  A decoder's result \<open>SIZE_MAX\<close> is \<^term>\<open>None\<close>. What the engine answers about an argument (the
  conversion of a string or number, which may run user code, and the backing store of a view) is
  an argument of the functions, as is the success of each \<open>malloc\<close>.
\<close>

section \<open>Buffer arguments\<close>

text \<open>The answers of \<open>JS_GetArrayBuffer\<close> on the value, of \<open>JS_GetTypedArrayBuffer\<close> (offset, length
  and bytes per element), and of \<open>JS_GetArrayBuffer\<close> on that view's buffer.\<close>

record buf_query =
  bq_direct :: "8 word list option"
  bq_typed :: "(nat \<times> nat \<times> nat) res"
  bq_base :: "8 word list res"

definition dyn_enc_view :: "buf_query \<Rightarrow> 8 word list res" where
  "dyn_enc_view q =
     (case bq_direct q of
        Some bs \<Rightarrow> Inr bs
      | None \<Rightarrow>
          (case bq_typed q of
             Inl e \<Rightarrow> Inl e
           | Inr (off, len, bpe) \<Rightarrow>
               if bpe \<noteq> 1 then Inl (TypeError ''expected a Uint8Array or ArrayBuffer'')
               else
                 (case bq_base q of
                    Inl e \<Rightarrow> Inl e
                  | Inr ab \<Rightarrow>
                      if off > length ab \<or> len > length ab - off then Inl (RangeError ''typed array out of bounds'')
                      else Inr (take len (drop off ab)))))"

datatype enc_arg = EncStr "string res" | EncView buf_query

abbreviation chr_byte :: "char \<Rightarrow> 8 word" where
  "chr_byte c \<equiv> of_char c"

definition dyn_enc_bytes :: "enc_arg \<Rightarrow> 8 word list res" where
  "dyn_enc_bytes v = (case v of EncStr s \<Rightarrow> map_sum id (map chr_byte) s | EncView q \<Rightarrow> dyn_enc_view q)"

section \<open>Hex\<close>

definition simd_hex_lut :: string where
  "simd_hex_lut = ''0123456789abcdef''"

definition simd_hex_val :: "char \<Rightarrow> nat option" where
  "simd_hex_val c =
     (if chr_between (CHR ''0'') (CHR ''9'') c then Some (of_char c - 48)
      else if chr_between (CHR ''a'') (CHR ''f'') c then Some (of_char c - 97 + 10)
      else if chr_between (CHR ''A'') (CHR ''F'') c then Some (of_char c - 65 + 10)
      else None)"

fun simd_scalar_hex_encode :: "8 word list \<Rightarrow> string" where
  "simd_scalar_hex_encode [] = []"
| "simd_scalar_hex_encode (b # bs) =
     simd_hex_lut ! (unat b div 16) # simd_hex_lut ! (unat b mod 16) # simd_scalar_hex_encode bs"

fun hex_pairs :: "string \<Rightarrow> 8 word list option" where
  "hex_pairs (h # l # s) =
     (case (simd_hex_val h, simd_hex_val l) of
        (Some hi, Some lo) \<Rightarrow> map_option (Cons (word_of_nat (push_bit 4 hi OR lo))) (hex_pairs s)
      | _ \<Rightarrow> None)"
| "hex_pairs _ = Some []"

definition simd_scalar_hex_decode :: "string \<Rightarrow> 8 word list option" where
  "simd_scalar_hex_decode s = (if odd (length s) then None else hex_pairs s)"

definition dyn_enc_hex_encode :: "enc_arg \<Rightarrow> bool \<Rightarrow> jsval res" where
  "dyn_enc_hex_encode v mem =
     (case dyn_enc_bytes v of
        Inl e \<Rightarrow> Inl e
      | Inr bs \<Rightarrow> if \<not> mem then Inl OutOfMemory else Inr (JStr (simd_scalar_hex_encode bs)))"

definition dyn_enc_hex_decode :: "string res \<Rightarrow> bool \<Rightarrow> jsval res" where
  "dyn_enc_hex_decode v mem =
     (case v of
        Inl e \<Rightarrow> Inl e
      | Inr s \<Rightarrow>
          if odd (length s) then Inl (SyntaxError ''hexDecode: odd-length hex string'')
          else if \<not> mem then Inl OutOfMemory
          else (case simd_scalar_hex_decode s of
                  None \<Rightarrow> Inl (SyntaxError ''hexDecode: invalid hex digit'')
                | Some bs \<Rightarrow> Inr (JBytes bs)))"

section \<open>Base64\<close>

definition simd_b64_alphabet :: string where
  "simd_b64_alphabet = ''ABCDEFGHIJKLMNOPQRSTUVWXYZabcdefghijklmnopqrstuvwxyz0123456789+/''"

text \<open>The table of digit values the decoders build: \<open>-1\<close> (here \<^term>\<open>None\<close>) outside the alphabet.\<close>

definition rev_table :: "string \<Rightarrow> char \<Rightarrow> nat option" where
  "rev_table alpha = foldl (\<lambda>rev k. rev(alpha ! k := Some k)) (\<lambda>_. None) [0 ..< length alpha]"

abbreviation b64_char :: "nat \<Rightarrow> nat \<Rightarrow> char" where
  "b64_char x k \<equiv> simd_b64_alphabet ! (drop_bit k x AND 0x3F)"

fun simd_scalar_base64_encode :: "8 word list \<Rightarrow> string" where
  "simd_scalar_base64_encode (a # b # c # r) =
     (let x = push_bit 16 (unat a) OR push_bit 8 (unat b) OR unat c
      in [b64_char x 18, b64_char x 12, b64_char x 6, b64_char x 0] @ simd_scalar_base64_encode r)"
| "simd_scalar_base64_encode [a, b] =
     (let x = push_bit 16 (unat a) OR push_bit 8 (unat b)
      in [b64_char x 18, b64_char x 12, b64_char x 6, CHR ''=''])"
| "simd_scalar_base64_encode [a] =
     (let x = push_bit 16 (unat a) in [b64_char x 18, b64_char x 12, CHR ''='', CHR ''=''])"
| "simd_scalar_base64_encode [] = []"

text \<open>The last two digits of a block and the number of padding characters.\<close>

definition b64_tail :: "bool \<Rightarrow> char \<Rightarrow> char \<Rightarrow> (nat \<times> nat \<times> nat) option" where
  "b64_tail last_block c2 c3 =
     (if c2 = CHR ''='' then (if \<not> last_block \<or> c3 \<noteq> CHR ''='' then None else Some (0, 0, 2))
      else
        (case rev_table simd_b64_alphabet c2 of
           None \<Rightarrow> None
         | Some v2 \<Rightarrow>
             if c3 = CHR ''='' then (if \<not> last_block then None else Some (v2, 0, 1))
             else map_option (\<lambda>v3. (v2, v3, 0)) (rev_table simd_b64_alphabet c3)))"

fun b64_blocks :: "string \<Rightarrow> 8 word list option" where
  "b64_blocks (c0 # c1 # c2 # c3 # r) =
     (case (rev_table simd_b64_alphabet c0, rev_table simd_b64_alphabet c1) of
        (Some v0, Some v1) \<Rightarrow>
          (case b64_tail (r = []) c2 c3 of
             None \<Rightarrow> None
           | Some (v2, v3, pad) \<Rightarrow>
               (let x = push_bit 18 v0 OR push_bit 12 v1 OR push_bit 6 v2 OR v3
                in map_option ((@) ([word_of_nat (drop_bit 16 x AND 0xFF)] @
                     (if pad < 2 then [word_of_nat (drop_bit 8 x AND 0xFF)] else []) @
                     (if pad < 1 then [word_of_nat (x AND 0xFF)] else []))) (b64_blocks r)))
      | _ \<Rightarrow> None)"
| "b64_blocks _ = Some []"

definition simd_scalar_base64_decode :: "string \<Rightarrow> 8 word list option" where
  "simd_scalar_base64_decode s =
     (if length s mod 4 \<noteq> 0 then None else if s = [] then Some [] else b64_blocks s)"

definition dyn_enc_base64_encode :: "enc_arg \<Rightarrow> bool \<Rightarrow> jsval res" where
  "dyn_enc_base64_encode v mem =
     (case dyn_enc_bytes v of
        Inl e \<Rightarrow> Inl e
      | Inr bs \<Rightarrow> if \<not> mem then Inl OutOfMemory else Inr (JStr (simd_scalar_base64_encode bs)))"

definition dyn_enc_base64_decode :: "string res \<Rightarrow> bool \<Rightarrow> jsval res" where
  "dyn_enc_base64_decode v mem =
     (case v of
        Inl e \<Rightarrow> Inl e
      | Inr s \<Rightarrow>
          if \<not> mem then Inl OutOfMemory
          else (case simd_scalar_base64_decode s of
                  None \<Rightarrow> Inl (SyntaxError ''base64Decode: invalid base64 string'')
                | Some bs \<Rightarrow> Inr (JBytes bs)))"

fun url_translate :: "string \<Rightarrow> string" where
  "url_translate [] = []"
| "url_translate (c # cs) =
     (if c = CHR ''='' then []
      else (if c = CHR ''+'' then CHR ''-'' else if c = CHR ''/'' then CHR ''_'' else c) # url_translate cs)"

definition dyn_enc_base64url_encode :: "enc_arg \<Rightarrow> bool \<Rightarrow> jsval res" where
  "dyn_enc_base64url_encode v mem =
     (case dyn_enc_bytes v of
        Inl e \<Rightarrow> Inl e
      | Inr bs \<Rightarrow>
          if \<not> mem then Inl OutOfMemory else Inr (JStr (url_translate (simd_scalar_base64_encode bs))))"

fun url_restore :: "string \<Rightarrow> string option" where
  "url_restore [] = Some []"
| "url_restore (c # cs) =
     (if c = CHR ''-'' then map_option (Cons (CHR ''+'')) (url_restore cs)
      else if c = CHR ''_'' then map_option (Cons (CHR ''/'')) (url_restore cs)
      else if c = CHR ''+'' \<or> c = CHR ''/'' then None
      else map_option (Cons c) (url_restore cs))"

definition dyn_enc_base64url_decode :: "string res \<Rightarrow> bool \<Rightarrow> bool \<Rightarrow> jsval res" where
  "dyn_enc_base64url_decode v mem1 mem2 =
     (case v of
        Inl e \<Rightarrow> Inl e
      | Inr s \<Rightarrow>
          (let rem = length s mod 4; padlen = (if rem \<noteq> 0 then 4 - rem else 0)
           in if rem = 1 then Inl (SyntaxError ''base64UrlDecode: invalid length'')
              else if \<not> mem1 then Inl OutOfMemory
              else
                (case url_restore s of
                   None \<Rightarrow> Inl (SyntaxError ''base64UrlDecode: invalid character'')
                 | Some t \<Rightarrow>
                     if \<not> mem2 then Inl OutOfMemory
                     else (case simd_scalar_base64_decode (t @ replicate padlen (CHR ''='')) of
                             None \<Rightarrow> Inl (SyntaxError ''base64UrlDecode: invalid base64url string'')
                           | Some bs \<Rightarrow> Inr (JBytes bs)))))"

section \<open>Base32\<close>

datatype b32_kind = DYN_B32_STD | DYN_B32_HEX

definition dyn_b32_alpha :: "b32_kind \<Rightarrow> string" where
  "dyn_b32_alpha magic =
     (if magic = DYN_B32_HEX then ''0123456789ABCDEFGHIJKLMNOPQRSTUV'' else ''ABCDEFGHIJKLMNOPQRSTUVWXYZ234567'')"

definition nchars_tab :: "nat list" where
  "nchars_tab = [0, 2, 4, 5, 7, 8]"

function dyn_enc_b32_encode :: "string \<Rightarrow> 8 word list \<Rightarrow> string" where
  "dyn_enc_b32_encode alpha data =
     (if data = [] then []
      else
        (let nb = min (length data) 5;
             chunk = take nb data @ replicate (5 - nb) 0;
             v = push_bit 32 (unat (chunk ! 0)) OR push_bit 24 (unat (chunk ! 1)) OR
                 push_bit 16 (unat (chunk ! 2)) OR push_bit 8 (unat (chunk ! 3)) OR unat (chunk ! 4);
             nc = nchars_tab ! nb
         in map (\<lambda>j. alpha ! (drop_bit (35 - 5 * j) v AND 0x1F)) [0 ..< nc] @ replicate (8 - nc) (CHR ''='') @
            dyn_enc_b32_encode alpha (drop 5 data)))"
  by pat_completeness auto
termination
  by (relation "measure (\<lambda>(alpha, data). length data)") auto

declare dyn_enc_b32_encode.simps [simp del]

definition nbytes_tab :: "nat option list" where
  "nbytes_tab = [None, None, Some 1, None, Some 2, Some 3, None, Some 4, Some 5]"

text \<open>All digit values of a list of characters.\<close>

fun digit_values :: "(char \<Rightarrow> nat option) \<Rightarrow> string \<Rightarrow> nat list option" where
  "digit_values tab [] = Some []"
| "digit_values tab (c # cs) =
     (case tab c of None \<Rightarrow> None | Some v \<Rightarrow> map_option (Cons v) (digit_values tab cs))"

definition b32_block :: "(char \<Rightarrow> nat option) \<Rightarrow> bool \<Rightarrow> string \<Rightarrow> 8 word list option" where
  "b32_block rev_tab last_group blk =
     (let pad = length (takeWhile (\<lambda>c. c = CHR ''='') (rev blk)); nreal = 8 - pad
      in if pad > 0 \<and> \<not> last_group then None
         else
           (case nbytes_tab ! nreal of
              None \<Rightarrow> None
            | Some nbytes \<Rightarrow>
                (case digit_values rev_tab (take nreal blk) of
                   None \<Rightarrow> None
                 | Some ds \<Rightarrow>
                     (let v = foldl (\<lambda>v c. u64 (push_bit 5 v) OR c) 0 (ds @ replicate (8 - nreal) 0);
                          bytes = map (\<lambda>k. word_of_nat (drop_bit k v) :: 8 word) [32, 24, 16, 8, 0]
                      in Some (take nbytes bytes)))))"

function b32_blocks :: "(char \<Rightarrow> nat option) \<Rightarrow> string \<Rightarrow> 8 word list option" where
  "b32_blocks rev_tab s =
     (if s = [] then Some []
      else
        (case b32_block rev_tab (length s = 8) (take 8 s) of
           None \<Rightarrow> None
         | Some bs \<Rightarrow> map_option ((@) bs) (b32_blocks rev_tab (drop 8 s))))"
  by pat_completeness auto
termination
  by (relation "measure (\<lambda>(rev_tab, s). length s)") auto

declare b32_blocks.simps [simp del]

definition dyn_enc_b32_decode :: "string \<Rightarrow> string \<Rightarrow> 8 word list option" where
  "dyn_enc_b32_decode alpha s = (if length s mod 8 \<noteq> 0 then None else b32_blocks (rev_table alpha) s)"

definition dyn_enc_base32_encode :: "b32_kind \<Rightarrow> enc_arg \<Rightarrow> bool \<Rightarrow> jsval res" where
  "dyn_enc_base32_encode magic v mem =
     (case dyn_enc_bytes v of
        Inl e \<Rightarrow> Inl e
      | Inr bs \<Rightarrow> if \<not> mem then Inl OutOfMemory else Inr (JStr (dyn_enc_b32_encode (dyn_b32_alpha magic) bs)))"

definition dyn_enc_base32_decode :: "b32_kind \<Rightarrow> string res \<Rightarrow> bool \<Rightarrow> jsval res" where
  "dyn_enc_base32_decode magic v mem =
     (case v of
        Inl e \<Rightarrow> Inl e
      | Inr s \<Rightarrow>
          if \<not> mem then Inl OutOfMemory
          else (case dyn_enc_b32_decode (dyn_b32_alpha magic) s of
                  None \<Rightarrow>
                    Inl (SyntaxError (if magic = DYN_B32_HEX then ''base32HexDecode: invalid base32hex string''
                                      else ''base32Decode: invalid base32 string''))
                | Some bs \<Rightarrow> Inr (JBytes bs)))"

section \<open>Variable-length integers\<close>

definition DYN_ENC_MAX_SAFE_INT :: nat where
  "DYN_ENC_MAX_SAFE_INT = 2 ^ 53 - 1"

definition DYN_ENC_MAX_VARINT_LEN :: nat where
  "DYN_ENC_MAX_VARINT_LEN = 10"

function dyn_enc_put_uvarint :: "nat \<Rightarrow> 8 word list" where
  "dyn_enc_put_uvarint x =
     (if x \<ge> 0x80 then word_of_nat (x OR 0x80) # dyn_enc_put_uvarint (drop_bit 7 x) else [word_of_nat x])"
  by pat_completeness auto
termination
  by (relation "measure id") (auto simp: drop_bit_eq_div)

declare dyn_enc_put_uvarint.simps [simp del]

text \<open>The result of the C function and the value it stores.\<close>

fun uvarint_loop :: "nat \<Rightarrow> nat \<Rightarrow> nat \<Rightarrow> 8 word list \<Rightarrow> int \<times> nat" where
  "uvarint_loop i s x [] = (0, 0)"
| "uvarint_loop i s x (b # bs) =
     (if i = DYN_ENC_MAX_VARINT_LEN then (- int (i + 1), 0)
      else if b < 0x80 then
        (if i = DYN_ENC_MAX_VARINT_LEN - 1 \<and> b > 1 then (- int (i + 1), 0)
         else (int (i + 1), x OR u64 (push_bit s (unat b))))
      else uvarint_loop (i + 1) (s + 7) (x OR u64 (push_bit s (unat (b AND 0x7f)))) bs)"

definition dyn_enc_uvarint :: "8 word list \<Rightarrow> int \<times> nat" where
  "dyn_enc_uvarint buf = uvarint_loop 0 0 0 buf"

text \<open>Zigzag over a 64-bit two's complement integer.\<close>

definition dyn_enc_put_varint :: "int \<Rightarrow> 8 word list" where
  "dyn_enc_put_varint x =
     (let ux = nat ((x * 2) mod 2 ^ 64)
      in dyn_enc_put_uvarint (if x < 0 then 2 ^ 64 - 1 - ux else ux))"

definition dyn_enc_varint :: "8 word list \<Rightarrow> int \<times> int" where
  "dyn_enc_varint buf =
     (case dyn_enc_uvarint buf of
        (nb, ux) \<Rightarrow>
          if nb \<le> 0 then (nb, 0)
          else (let x = int (drop_bit 1 ux) in (nb, if odd ux then - x - 1 else x)))"

text \<open>A BigInt, or the number the value converts to.\<close>

datatype num_arg = NumBig int | NumConv "jsnum res"

definition js_is_integer :: "rat \<Rightarrow> bool" where
  "js_is_integer r \<longleftrightarrow> rat_of_int \<lfloor>r\<rfloor> = r"

definition dyn_enc_to_u64 :: "num_arg \<Rightarrow> nat res" where
  "dyn_enc_to_u64 v =
     (case v of
        NumBig i \<Rightarrow> Inr (nat (i mod 2 ^ 64))
      | NumConv (Inl e) \<Rightarrow> Inl e
      | NumConv (Inr d) \<Rightarrow>
          (let err = Inl (RangeError ''putUvarint: value must be a non-negative safe integer or a BigInt'')
           in case d of
                JsFin r \<Rightarrow>
                  if r \<ge> 0 \<and> r \<le> of_nat DYN_ENC_MAX_SAFE_INT \<and> js_is_integer r then Inr (nat \<lfloor>r\<rfloor>) else err
              | _ \<Rightarrow> err))"

definition int64_wrap :: "int \<Rightarrow> int" where
  "int64_wrap i = (i + 2 ^ 63) mod 2 ^ 64 - 2 ^ 63"

definition dyn_enc_to_i64 :: "num_arg \<Rightarrow> int res" where
  "dyn_enc_to_i64 v =
     (case v of
        NumBig i \<Rightarrow> Inr (int64_wrap i)
      | NumConv (Inl e) \<Rightarrow> Inl e
      | NumConv (Inr d) \<Rightarrow>
          (let err = Inl (RangeError ''putVarint: value must be a safe integer or a BigInt'')
           in case d of
                JsFin r \<Rightarrow>
                  if r \<ge> - of_nat DYN_ENC_MAX_SAFE_INT \<and> r \<le> of_nat DYN_ENC_MAX_SAFE_INT \<and> js_is_integer r
                  then Inr \<lfloor>r\<rfloor> else err
              | _ \<Rightarrow> err))"

definition dyn_enc_u64_to_js :: "nat \<Rightarrow> jsval" where
  "dyn_enc_u64_to_js v = (if v \<le> DYN_ENC_MAX_SAFE_INT then js_nat v else JBigInt (int v))"

definition dyn_enc_i64_to_js :: "int \<Rightarrow> jsval" where
  "dyn_enc_i64_to_js v =
     (if v \<ge> - int DYN_ENC_MAX_SAFE_INT \<and> v \<le> int DYN_ENC_MAX_SAFE_INT then js_int v else JBigInt v)"

definition dyn_enc_pair :: "jsval \<Rightarrow> int \<Rightarrow> jsval" where
  "dyn_enc_pair value n = JArr [value, js_int n]"

definition dyn_enc_put_uvarint_js :: "num_arg \<Rightarrow> jsval res" where
  "dyn_enc_put_uvarint_js v = map_sum id (\<lambda>x. JBytes (dyn_enc_put_uvarint x)) (dyn_enc_to_u64 v)"

definition dyn_enc_put_varint_js :: "num_arg \<Rightarrow> jsval res" where
  "dyn_enc_put_varint_js v = map_sum id (\<lambda>x. JBytes (dyn_enc_put_varint x)) (dyn_enc_to_i64 v)"

definition dyn_enc_uvarint_js :: "buf_query \<Rightarrow> jsval res" where
  "dyn_enc_uvarint_js q =
     map_sum id (\<lambda>buf. case dyn_enc_uvarint buf of
        (nb, v) \<Rightarrow> dyn_enc_pair (if nb > 0 then dyn_enc_u64_to_js v else js_int 0) nb) (dyn_enc_view q)"

definition dyn_enc_varint_js :: "buf_query \<Rightarrow> jsval res" where
  "dyn_enc_varint_js q =
     map_sum id (\<lambda>buf. case dyn_enc_varint buf of
        (nb, v) \<Rightarrow> dyn_enc_pair (if nb > 0 then dyn_enc_i64_to_js v else js_int 0) nb) (dyn_enc_view q)"

section \<open>Base85\<close>

definition dyn_enc_is_ascii85_space :: "char \<Rightarrow> bool" where
  "dyn_enc_is_ascii85_space c \<longleftrightarrow>
     c = CHR '' '' \<or> c = CHR 0x09 \<or> c = CHR 0x0A \<or> c = CHR 0x0B \<or> c = CHR 0x0C \<or> c = CHR 0x0D"

text \<open>\<open>c[4 - j] = '!' + v % 85; v /= 85\<close> for the last \<open>n\<close> of the five digits.\<close>

fun b85_digits :: "nat \<Rightarrow> nat \<Rightarrow> string" where
  "b85_digits 0 v = []"
| "b85_digits (Suc n) v = b85_digits n (v div 85) @ [char_of (33 + v mod 85)]"

function dyn_enc_b85_encode :: "8 word list \<Rightarrow> string" where
  "dyn_enc_b85_encode data =
     (if data = [] then []
      else
        (let nb = min (length data) 4;
             v = foldl (\<lambda>v j. v OR push_bit (24 - 8 * j) (unat (data ! j))) 0 [0 ..< nb];
             m = (if nb < 4 then nb + 1 else 5)
         in (if nb = 4 \<and> v = 0 then ''z'' else take m (b85_digits 5 v)) @ dyn_enc_b85_encode (drop 4 data)))"
  by pat_completeness auto
termination
  by (relation "measure length") auto

declare dyn_enc_b85_encode.simps [simp del]

fun b85_loop :: "nat \<Rightarrow> nat \<Rightarrow> 8 word list \<Rightarrow> string \<Rightarrow> (nat \<times> nat \<times> 8 word list) option" where
  "b85_loop v nb out [] = Some (v, nb, out)"
| "b85_loop v nb out (b # s) =
     (if dyn_enc_is_ascii85_space b then b85_loop v nb out s
      else if b = CHR ''z'' \<and> nb = 0 then b85_loop v nb (out @ [0, 0, 0, 0]) s
      else if \<not> chr_between (CHR ''!'') (CHR ''u'') b then None
      else
        (let v' = u32 (v * 85 + (of_char b - 33))
         in if nb + 1 = 5 then
              b85_loop 0 0 (out @ map (\<lambda>k. word_of_nat (drop_bit k v')) [24, 16, 8, 0]) s
            else b85_loop v' (nb + 1) out s))"

definition dyn_enc_b85_decode :: "string \<Rightarrow> 8 word list option" where
  "dyn_enc_b85_decode s =
     (case b85_loop 0 0 [] s of
        None \<Rightarrow> None
      | Some (v, nb, out) \<Rightarrow>
          if nb = 1 then None
          else if nb > 1 then
            (let v' = ((\<lambda>v. u32 (v * 85 + 84)) ^^ (5 - nb)) v
             in Some (out @ map (\<lambda>k. word_of_nat (drop_bit (24 - 8 * k) v')) [0 ..< nb - 1]))
          else Some out)"

definition dyn_enc_base85_encode :: "enc_arg \<Rightarrow> bool \<Rightarrow> jsval res" where
  "dyn_enc_base85_encode v mem =
     (case dyn_enc_bytes v of
        Inl e \<Rightarrow> Inl e
      | Inr bs \<Rightarrow> if \<not> mem then Inl OutOfMemory else Inr (JStr (dyn_enc_b85_encode bs)))"

definition dyn_enc_base85_decode :: "string res \<Rightarrow> bool \<Rightarrow> jsval res" where
  "dyn_enc_base85_decode v mem =
     (case v of
        Inl e \<Rightarrow> Inl e
      | Inr s \<Rightarrow>
          if \<not> mem then Inl OutOfMemory
          else (case dyn_enc_b85_decode s of
                  None \<Rightarrow> Inl (SyntaxError ''base85Decode: invalid ascii85 string'')
                | Some bs \<Rightarrow> Inr (JBytes bs)))"

end
