(* ===== verification/Dyna_Codec.thy ===== *)
theory Dyna_Codec
  imports Dyna_Encoding
begin

unbundle bit_operations_syntax

text \<open>
  Decoding inverts encoding for every codec of \<^verbatim>\<open>dyna:encoding\<close>. The contract is a locale; each pair of
  the module's functions is an interpretation of it.
\<close>

locale codec =
  fixes enc :: "'a \<Rightarrow> 'b" and dec :: "'b \<Rightarrow> 'a option" and dom_ok :: "'a \<Rightarrow> bool"
  assumes dec_enc: "dom_ok x \<Longrightarrow> dec (enc x) = Some x"
begin

lemma enc_inj: "dom_ok x \<Longrightarrow> dom_ok y \<Longrightarrow> enc x = enc y \<longleftrightarrow> x = y"
  using dec_enc by (metis option.inject)

lemma dec_onto: "dom_ok x \<Longrightarrow> \<exists>y. dec y = Some x"
  using dec_enc by blast

end

section \<open>Alphabets\<close>

lemma rev_table_prefix:
  "n \<le> length alpha \<Longrightarrow> distinct alpha \<Longrightarrow> k < n \<Longrightarrow>
     foldl (\<lambda>rev k. rev(alpha ! k := Some k)) (\<lambda>_. None) [0 ..< n] (alpha ! k) = Some k"
proof (induction n)
  case (Suc n)
  then show ?case by (cases "k = n") (auto simp: nth_eq_iff_index_eq)
qed simp

lemma rev_table_nth: "distinct alpha \<Longrightarrow> k < length alpha \<Longrightarrow> rev_table alpha (alpha ! k) = Some k"
  by (simp add: rev_table_def rev_table_prefix)

section \<open>Hex\<close>

lemma hex_lut_table: "list_all (\<lambda>d. simd_hex_val (simd_hex_lut ! d) = Some d) [0 ..< 16]"
  by code_simp

lemma hex_lut_val: "d < 16 \<Longrightarrow> simd_hex_val (simd_hex_lut ! d) = Some d"
  using hex_lut_table by (simp add: list_all_iff)

lemma hex_nibbles:
  fixes b :: "8 word"
  shows "unat b div 16 < 16" "unat b mod 16 < 16" "word_of_nat (push_bit 4 (unat b div 16) OR unat b mod 16) = b"
proof -
  show d: "unat b div 16 < 16" using unat8_less [of b] by (simp add: less_mult_imp_div_less)
  show "unat b mod 16 < 16" by simp
  have "push_bit 4 (unat b div 16) OR unat b mod 16 = unat b" by (subst or_shift) simp_all
  then show "word_of_nat (push_bit 4 (unat b div 16) OR unat b mod 16) = b" by simp
qed

lemma hex_pairs_encode: "hex_pairs (simd_scalar_hex_encode bs) = Some bs"
  by (induction bs) (simp_all add: hex_lut_val hex_nibbles)

lemma hex_encode_length: "length (simd_scalar_hex_encode bs) = 2 * length bs"
  by (induction bs) simp_all

interpretation hex: codec simd_scalar_hex_encode simd_scalar_hex_decode "\<lambda>_. True"
  by unfold_locales (simp add: simd_scalar_hex_decode_def hex_encode_length hex_pairs_encode)

section \<open>Base64\<close>

lemma b64_alphabet: "distinct simd_b64_alphabet" "length simd_b64_alphabet = 64"
  by (simp_all add: simd_b64_alphabet_def)

lemma b64_no_special: "CHR ''='' \<notin> set simd_b64_alphabet" "CHR ''-'' \<notin> set simd_b64_alphabet" "CHR ''_'' \<notin> set simd_b64_alphabet"
  by (simp_all add: simd_b64_alphabet_def)

lemma b64_nth: "k < 64 \<Longrightarrow> rev_table simd_b64_alphabet (simd_b64_alphabet ! k) = Some k \<and> simd_b64_alphabet ! k \<noteq> CHR ''=''"
  using rev_table_nth b64_alphabet b64_no_special by (metis nth_mem)

lemma and_3F: "x AND 0x3F = x mod (64 :: nat)"
  using take_bit_eq_mask [of 6 x] by (simp add: take_bit_eq_mod mask_eq_exp_minus_1)

lemma and_FF: "x AND 0xFF = x mod (256 :: nat)"
  using take_bit_eq_mask [of 8 x] by (simp add: take_bit_eq_mod mask_eq_exp_minus_1)

text \<open>Three bytes as a 24-bit number, and four digits as one.\<close>

lemma bytes24:
  fixes a b c :: nat
  assumes "b < 256" "c < 256"
  shows "push_bit 16 a OR push_bit 8 b OR c = (a * 256 + b) * 256 + c"
proof -
  have "push_bit 16 a OR push_bit 8 b OR c = push_bit 8 (push_bit 8 a OR b) OR c" by (simp add: push_bit_or or.assoc)
  then show ?thesis using assms or_shift [of c 8] or_shift [of b 8] by simp
qed

lemma digits24:
  fixes p q r s :: nat
  assumes "q < 64" "r < 64" "s < 64"
  shows "push_bit 18 p OR push_bit 12 q OR push_bit 6 r OR s = ((p * 64 + q) * 64 + r) * 64 + s"
proof -
  have "push_bit 18 p OR push_bit 12 q OR push_bit 6 r OR s = push_bit 6 (push_bit 6 (push_bit 6 p OR q) OR r) OR s"
    by (simp add: push_bit_or or.assoc)
  then show ?thesis using assms or_shift [of s 6] or_shift [of r 6] or_shift [of q 6] by simp
qed

lemma split24:
  fixes x :: nat
  assumes "x < 2 ^ 24"
  shows "((x div 2 ^ 18 mod 64 * 64 + x div 2 ^ 12 mod 64) * 64 + x div 2 ^ 6 mod 64) * 64 + x mod 64 = x"
proof -
  have "x div 2 ^ 18 < 64" using assms by (simp add: less_mult_imp_div_less)
  moreover have "x div 2 ^ 18 = x div 64 div 64 div 64" "x div 2 ^ 12 = x div 64 div 64" "x div 2 ^ 6 = x div 64"
    by (simp_all flip: div_mult2_eq)
  ultimately show ?thesis by simp
qed

lemma digits24_split:
  fixes x :: nat
  assumes "x < 2 ^ 24"
  shows "push_bit 18 (x div 2 ^ 18 mod 64) OR push_bit 12 (x div 2 ^ 12 mod 64) OR push_bit 6 (x div 2 ^ 6 mod 64) OR
    x mod 64 = x"
  by (rule trans [OF digits24 split24 [OF assms]]) simp_all

lemma bytes_of_24:
  fixes a b c :: "8 word"
  defines "x \<equiv> (unat a * 256 + unat b) * 256 + unat c"
  shows "x < 2 ^ 24" "word_of_nat (drop_bit 16 x AND 0xFF) = a" "word_of_nat (drop_bit 8 x AND 0xFF) = b"
    "word_of_nat (x AND 0xFF) = c"
proof -
  have l: "unat a < 256" "unat b < 256" "unat c < 256" by simp_all
  have k: "n < 256 \<Longrightarrow> m < 256 \<Longrightarrow> n * 256 + m < 65536" for n m :: nat by linarith
  have "n < 65536 \<Longrightarrow> m < 256 \<Longrightarrow> n * 256 + m < 16777216" for n m :: nat by linarith
  from this [OF k [OF l(1,2)] l(3)] show "x < 2 ^ 24" by (simp add: x_def)
  have q: "m < 256 \<Longrightarrow> (n * 256 + m) div 256 = n" for n m :: nat by simp
  have "m < 256 \<Longrightarrow> (n * 256 + m) mod 256 = m" for n m :: nat by simp
  then have r: "x mod 256 = unat c" unfolding x_def using l(3) by blast
  have e: "x div 256 = unat a * 256 + unat b" unfolding x_def by (rule q [OF l(3)])
  then have d: "x div 65536 = unat a" "x div 256 = unat a * 256 + unat b"
    using q [OF l(2), of "unat a"] div_mult2_eq [of x 256 256] by simp_all
  show "word_of_nat (drop_bit 16 x AND 0xFF) = a" "word_of_nat (drop_bit 8 x AND 0xFF) = b" "word_of_nat (x AND 0xFF) = c"
    using d l r by (simp_all add: and_FF drop_bit_eq_div)
qed

lemma b64_chars:
  assumes "x < 2 ^ 24"
  shows "rev_table simd_b64_alphabet (b64_char x k) = Some (x div 2 ^ k mod 64)" "b64_char x k \<noteq> CHR ''=''"
  using b64_nth [of "x div 2 ^ k mod 64"] by (simp_all add: and_3F drop_bit_eq_div)

lemma b64_blocks_step:
  assumes "rev_table simd_b64_alphabet c0 = Some v" "rev_table simd_b64_alphabet c1 = Some w"
    "b64_tail (r = []) c2 c3 = Some (y, z, pad)" "push_bit 18 v OR push_bit 12 w OR push_bit 6 y OR z = x"
  shows "b64_blocks (c0 # c1 # c2 # c3 # r) =
    map_option ((@) ([word_of_nat (drop_bit 16 x AND 0xFF)] @
      (if pad < 2 then [word_of_nat (drop_bit 8 x AND 0xFF)] else []) @
      (if pad < 1 then [word_of_nat (x AND 0xFF)] else []))) (b64_blocks r)"
  unfolding assms(4) [symmetric] using assms(1-3) by (simp add: Let_def)

text \<open>Decoding the block of three, two or one bytes; the absent bytes are zero.\<close>

lemma b64_block_3:
  "b64_blocks ([b64_char x 18, b64_char x 12, b64_char x 6, b64_char x 0] @ r) = map_option (\<lambda>bs. a # b # c # bs) (b64_blocks r)"
  if x: "x = (unat a * 256 + unat b) * 256 + unat c"
proof -
  note v = bytes_of_24 [of a b c, folded x]
  have e: "push_bit 18 (x div 2 ^ 18 mod 64) OR push_bit 12 (x div 2 ^ 12 mod 64) OR push_bit 6 (x div 2 ^ 6 mod 64) OR x mod 64 = x"
    by (rule digits24_split [OF v(1)])
  have "b64_tail (r = []) (b64_char x 6) (b64_char x 0) = Some (x div 2 ^ 6 mod 64, x mod 64, 0)"
    using b64_chars [OF v(1), of 6] b64_chars [OF v(1), of 0] by (simp add: b64_tail_def)
  from b64_blocks_step [OF b64_chars(1) [OF v(1)] b64_chars(1) [OF v(1)] this e] show ?thesis
    using v(2-4) by (simp add: map_option_case split: option.split)
qed

lemma b64_block_2:
  "b64_blocks [b64_char x 18, b64_char x 12, b64_char x 6, CHR ''=''] = Some [a, b]"
  if x: "x = (unat a * 256 + unat b) * 256 + unat (0 :: 8 word)"
proof -
  note v = bytes_of_24 [of a b 0, folded x]
  have "x = (unat a * 256 + unat b) * 4 * 64" using x by simp
  then have z: "x mod 64 = 0" by (simp only: mod_mult_self2_is_0)
  have e: "push_bit 18 (x div 2 ^ 18 mod 64) OR push_bit 12 (x div 2 ^ 12 mod 64) OR push_bit 6 (x div 2 ^ 6 mod 64) OR 0 = x"
    using digits24_split [OF v(1)] by (simp only: z)
  have "b64_tail True (b64_char x 6) (CHR ''='') = Some (x div 2 ^ 6 mod 64, 0, 1)"
    using b64_chars [OF v(1), of 6] by (simp add: b64_tail_def)
  from b64_blocks_step [where r = "[]", OF b64_chars(1) [OF v(1)] b64_chars(1) [OF v(1)] _ e, of _ _ 1] this show ?thesis
    using v(2-4) by simp
qed

lemma b64_block_1:
  "b64_blocks [b64_char x 18, b64_char x 12, CHR ''='', CHR ''=''] = Some [a]"
  if x: "x = (unat a * 256 + unat (0 :: 8 word)) * 256 + unat (0 :: 8 word)"
proof -
  note v = bytes_of_24 [of a 0 0, folded x]
  have "x = unat a * 16 * 64 * 64" using x by simp
  then have z: "x mod 64 = 0" "x div 2 ^ 6 mod 64 = 0" by simp_all
  have e: "push_bit 18 (x div 2 ^ 18 mod 64) OR push_bit 12 (x div 2 ^ 12 mod 64) OR push_bit 6 0 OR 0 = x"
    using digits24_split [OF v(1)] by (simp only: z)
  have "b64_tail True (CHR ''='') (CHR ''='') = Some (0, 0, 2)" by (simp add: b64_tail_def)
  from b64_blocks_step [where r = "[]", OF b64_chars(1) [OF v(1)] b64_chars(1) [OF v(1)] _ e, of _ _ 2] this show ?thesis
    using v(2-4) by simp
qed

lemma b64_encode_3:
  "simd_scalar_base64_encode (a # b # c # r) =
     (let x = (unat a * 256 + unat b) * 256 + unat c
      in [b64_char x 18, b64_char x 12, b64_char x 6, b64_char x 0] @ simd_scalar_base64_encode r)"
  using bytes24 [of "unat b" "unat c" "unat a"] by (simp only: simd_scalar_base64_encode.simps unat8_less)

lemma b64_encode_2:
  "simd_scalar_base64_encode [a, b] =
     (let x = (unat a * 256 + unat b) * 256 + unat (0 :: 8 word)
      in [b64_char x 18, b64_char x 12, b64_char x 6, CHR ''=''])"
  using bytes24 [of "unat b" 0 "unat a"] by (simp add: unat8_less)

lemma b64_encode_1:
  "simd_scalar_base64_encode [a] =
     (let x = (unat a * 256 + unat (0 :: 8 word)) * 256 + unat (0 :: 8 word)
      in [b64_char x 18, b64_char x 12, CHR ''='', CHR ''=''])"
  using bytes24 [of 0 0 "unat a"] by simp

lemma b64_encode_blocks: "b64_blocks (simd_scalar_base64_encode bs) = Some bs"
proof (induction bs rule: simd_scalar_base64_encode.induct)
  case (1 a b c r)
  then show ?case using b64_block_3 [OF refl, of a b c "simd_scalar_base64_encode r"] by (simp only: b64_encode_3 Let_def) simp
next
  case (2 a b)
  then show ?case using b64_block_2 [OF refl, of a b] by (simp only: b64_encode_2 Let_def)
next
  case (3 a)
  then show ?case using b64_block_1 [OF refl, of a] by (simp only: b64_encode_1 Let_def)
qed simp

lemma b64_encode_length: "length (simd_scalar_base64_encode bs) = 4 * ((length bs + 2) div 3)"
proof (induction bs rule: simd_scalar_base64_encode.induct)
  case (1 a b c r)
  have "(length (a # b # c # r) + 2) div 3 = (length r + 2) div 3 + 1" by simp
  then show ?case using 1 by (simp add: Let_def)
qed (simp_all add: Let_def)

interpretation b64: codec simd_scalar_base64_encode simd_scalar_base64_decode "\<lambda>_. True"
  by unfold_locales (auto simp: simd_scalar_base64_decode_def b64_encode_length b64_encode_blocks
      dest: arg_cong [where f = b64_blocks])

section \<open>Base64 for URLs\<close>

definition url_chr :: "char \<Rightarrow> char" where
  "url_chr c = (if c = CHR ''+'' then CHR ''-'' else if c = CHR ''/'' then CHR ''_'' else c)"

lemma b64_char_mem: "simd_b64_alphabet ! (n AND 0x3F) \<in> set simd_b64_alphabet"
  using b64_alphabet(2) by (intro nth_mem) (simp add: and_3F)

lemma b64_shape:
  "\<exists>body p. simd_scalar_base64_encode bs = body @ replicate p (CHR ''='') \<and> set body \<subseteq> set simd_b64_alphabet \<and> p < 3"
proof (induction bs rule: simd_scalar_base64_encode.induct)
  case (1 a b c r)
  then obtain body p where "simd_scalar_base64_encode r = body @ replicate p (CHR ''='')" "set body \<subseteq> set simd_b64_alphabet" "p < 3"
    by blast
  then show ?case using b64_char_mem unfolding simd_scalar_base64_encode.simps Let_def
    by (intro exI [of _ "[b64_char (push_bit 16 (unat a) OR push_bit 8 (unat b) OR unat c) 18,
        b64_char (push_bit 16 (unat a) OR push_bit 8 (unat b) OR unat c) 12,
        b64_char (push_bit 16 (unat a) OR push_bit 8 (unat b) OR unat c) 6,
        b64_char (push_bit 16 (unat a) OR push_bit 8 (unat b) OR unat c) 0] @ body"] exI [of _ p]) (simp only: append.assoc, simp)
next
  case (2 a b)
  let ?x = "push_bit 16 (unat a) OR push_bit 8 (unat b)"
  show ?case using b64_char_mem unfolding simd_scalar_base64_encode.simps Let_def
    by (intro exI [of _ "[b64_char ?x 18, b64_char ?x 12, b64_char ?x 6]"] exI [of _ 1]) simp
next
  case (3 a)
  let ?x = "push_bit 16 (unat a)"
  show ?case using b64_char_mem unfolding simd_scalar_base64_encode.simps Let_def
    by (intro exI [of _ "[b64_char ?x 18, b64_char ?x 12]"] exI [of _ 2]) (simp add: numeral_2_eq_2)
next
  case 4
  show ?case by (intro exI [of _ "[]"] exI [of _ 0]) simp
qed

lemma url_translate_body:
  "CHR ''='' \<notin> set body \<Longrightarrow> url_translate (body @ replicate p (CHR ''='')) = map url_chr body"
  by (induction body) (cases p; auto simp: url_chr_def)+

lemma url_restore_body:
  "CHR ''-'' \<notin> set body \<Longrightarrow> CHR ''_'' \<notin> set body \<Longrightarrow> url_restore (map url_chr body) = Some body"
  by (induction body) (auto simp: url_chr_def)

definition b64url_encode :: "8 word list \<Rightarrow> string" where
  "b64url_encode bs = url_translate (simd_scalar_base64_encode bs)"

definition b64url_decode :: "string \<Rightarrow> 8 word list option" where
  "b64url_decode s = (case dyn_enc_base64url_decode (Inr s) True True of Inr (JBytes bs) \<Rightarrow> Some bs | _ \<Rightarrow> None)"

lemma b64url_round_trip: "dyn_enc_base64url_decode (Inr (b64url_encode bs)) True True = Inr (JBytes bs)"
proof -
  obtain body p where e: "simd_scalar_base64_encode bs = body @ replicate p (CHR ''='')"
    and b: "set body \<subseteq> set simd_b64_alphabet" and p: "p < 3" using b64_shape by blast
  have n: "CHR ''='' \<notin> set body" "CHR ''-'' \<notin> set body" "CHR ''_'' \<notin> set body" using b b64_no_special by blast+
  have t: "b64url_encode bs = map url_chr body" using url_translate_body [OF n(1)] e by (simp add: b64url_encode_def)
  have "length body + p = 4 * ((length bs + 2) div 3)" using b64_encode_length [of bs] e by simp
  then have "(length body + p) mod 4 = 0" by simp
  then have m: "length body mod 4 \<noteq> 1" "(if length body mod 4 \<noteq> 0 then 4 - length body mod 4 else 0) = p"
    using p by presburger+
  show ?thesis using m url_restore_body [OF n(2,3)] b64.dec_enc [of bs] e
    by (simp add: dyn_enc_base64url_decode_def t Let_def split: if_splits)
qed

interpretation b64url: codec b64url_encode b64url_decode "\<lambda>_. True"
  by unfold_locales (simp add: b64url_decode_def b64url_round_trip)

end
