(* ===== verification/Dyna_Radix.thy ===== *)
theory Dyna_Radix
  imports Dyna_Codec
begin

unbundle bit_operations_syntax

text \<open>
  Base32 and base85 of \<^verbatim>\<open>dyna:encoding\<close>: a group of bytes is a number, its text the leading digits of
  that number in radix 32 or 85.
\<close>

section \<open>Groups of bytes\<close>

lemma be_val_byte:
  assumes "i < length xs"
  shows "word_of_nat (be_val xs div 256 ^ (length xs - Suc i)) = xs ! i"
proof -
  have "be_val xs div 256 ^ (length xs - Suc i) = be_val (take i xs) * 256 + unat (xs ! i)"
    using assms be_val_split [of "Suc i" xs] by (simp add: take_Suc_conv_app_nth)
  moreover have "word_of_nat (n * 256 + unat b) = b" for n and b :: "8 word"
  proof -
    have "unat (word_of_nat (n * 256 + unat b) :: 8 word) = (n * 256 + unat b) mod 2 ^ LENGTH(8)"
      by (simp only: unsigned_of_nat take_bit_eq_mod of_nat_id)
    also have "\<dots> = unat b" using unat8_less [of b] by simp
    finally show ?thesis by (simp only: word_unat_eq_iff)
  qed
  ultimately show ?thesis by (simp only:)
qed

lemma bytes40:
  fixes a b c d e :: nat
  assumes "b < 256" "c < 256" "d < 256" "e < 256"
  shows "push_bit 32 a OR push_bit 24 b OR push_bit 16 c OR push_bit 8 d OR e = (((a * 256 + b) * 256 + c) * 256 + d) * 256 + e"
proof -
  have "push_bit 32 a OR push_bit 24 b OR push_bit 16 c OR push_bit 8 d OR e =
      push_bit 8 (push_bit 8 (push_bit 8 (push_bit 8 a OR b) OR c) OR d) OR e"
    by (simp add: push_bit_or or.assoc)
  then show ?thesis using assms or_shift [of e 8] or_shift [of d 8] or_shift [of c 8] or_shift [of b 8] by simp
qed

lemma list_5: "length xs = 5 \<Longrightarrow> xs = [xs ! 0, xs ! 1, xs ! 2, xs ! 3, xs ! 4]"
  by (auto simp: numeral_eq_Suc length_Suc_conv)

lemma be_val_5:
  assumes "length xs = 5"
  shows "push_bit 32 (unat (xs ! 0)) OR push_bit 24 (unat (xs ! 1)) OR push_bit 16 (unat (xs ! 2)) OR
    push_bit 8 (unat (xs ! 3)) OR unat (xs ! 4) = be_val xs"
proof -
  have "be_val xs = (((unat (xs ! 0) * 256 + unat (xs ! 1)) * 256 + unat (xs ! 2)) * 256 + unat (xs ! 3)) * 256 + unat (xs ! 4)"
    using arg_cong [OF list_5 [OF assms], of be_val] by (simp add: be_val_def)
  then show ?thesis using bytes40 by simp
qed

section \<open>Leading digits\<close>

lemma radix_digits_nth: "j < n \<Longrightarrow> radix_digits b n v ! j = v div b ^ (n - Suc j) mod b"
proof (induction n arbitrary: v)
  case (Suc n)
  show ?case
  proof (cases "j = n")
    case False
    then have "n - j = Suc (n - Suc j)" using Suc.prems by simp
    then have "b ^ (n - j) = b * b ^ (n - Suc j)" by (simp only: power_Suc)
    then show ?thesis using Suc False by (simp add: nth_append div_mult2_eq)
  qed (simp add: nth_append)
qed simp

lemma radix_val_zeros: "radix_val b (ds @ replicate k 0) = radix_val b ds * b ^ k"
proof (induction k)
  case (Suc k)
  have "ds @ replicate (Suc k) 0 = (ds @ replicate k 0) @ [0]" by (simp add: replicate_append_same)
  then show ?case using Suc by (simp only: radix_val_snoc) simp
qed simp

text \<open>When the dropped digits are zero, padding the leading ones with zeros restores the number.\<close>

lemma leading_digits_pad:
  assumes "v < b ^ n" "m \<le> n" "b ^ (n - m) dvd v"
  shows "radix_val b (take m (radix_digits b n v) @ replicate (n - m) 0) = v"
proof -
  have "b ^ n = b ^ m * b ^ (n - m)" using assms(2) by (simp flip: power_add)
  then have "v div b ^ (n - m) < b ^ m" using assms(1) by (simp add: less_mult_imp_div_less)
  then show ?thesis using assms by (simp add: radix_val_zeros take_radix_digits radix_val_digits)
qed

section \<open>Base32\<close>

lemma b32_alpha: "distinct (dyn_b32_alpha k)" "length (dyn_b32_alpha k) = 32" "CHR ''='' \<notin> set (dyn_b32_alpha k)"
  by (simp_all add: dyn_b32_alpha_def)

lemma and_1F: "x AND 0x1F = x mod (32 :: nat)"
  using take_bit_eq_mask [of 5 x] by (simp add: take_bit_eq_mod mask_eq_exp_minus_1)

lemma b32_chars:
  assumes "nc \<le> 8"
  shows "map (\<lambda>j. alpha ! (drop_bit (35 - 5 * j) v AND 0x1F)) [0 ..< nc] = map ((!) alpha) (take nc (radix_digits 32 8 v))"
proof (rule nth_equalityI)
  fix j assume "j < length (map (\<lambda>j. alpha ! (drop_bit (35 - 5 * j) v AND 0x1F)) [0 ..< nc])"
  then have j: "j < nc" by simp
  have "(2 :: nat) ^ (35 - 5 * j) = 32 ^ (8 - Suc j)"
  proof -
    have "35 - 5 * j = 5 * (8 - Suc j)" by simp
    then show ?thesis by (simp only: power_mult) simp
  qed
  then show "map (\<lambda>j. alpha ! (drop_bit (35 - 5 * j) v AND 0x1F)) [0 ..< nc] ! j =
      map ((!) alpha) (take nc (radix_digits 32 8 v)) ! j"
    using j assms by (simp add: and_1F drop_bit_eq_div radix_digits_nth)
qed (use assms in simp)

lemma b32_fold:
  "\<forall>d \<in> set ds. d < 32 \<Longrightarrow> length ds \<le> 12 \<Longrightarrow> foldl (\<lambda>v c. u64 (push_bit 5 v) OR c) 0 ds = radix_val 32 ds \<and> radix_val 32 ds < 32 ^ length ds"
proof (induction ds rule: rev_induct)
  case (snoc d ds)
  let ?v = "radix_val 32 ds"
  have IH: "foldl (\<lambda>v c. u64 (push_bit 5 v) OR c) 0 ds = ?v" "?v < 32 ^ length ds" using snoc by auto
  have "n < k \<Longrightarrow> m < 32 \<Longrightarrow> n * 32 + m < 32 * k" for n m k :: nat by linarith
  from this [OF IH(2), of d] have b: "?v * 32 + d < 32 ^ length (ds @ [d])" using snoc.prems by simp
  also have "(32 :: nat) ^ length (ds @ [d]) \<le> 32 ^ 12" using snoc.prems by (intro power_increasing) simp_all
  finally have "u64 (push_bit 5 ?v) = push_bit 5 ?v" by (simp add: u64_def push_bit_eq_mult)
  moreover have "push_bit 5 ?v OR d = ?v * 32 + d" using snoc.prems or_shift [of d 5 ?v] by simp
  ultimately show ?case using IH b by simp
qed (simp add: radix_val_def)

lemma digit_values_alpha:
  "distinct alpha \<Longrightarrow> \<forall>d \<in> set ds. d < length alpha \<Longrightarrow> digit_values (rev_table alpha) (map ((!) alpha) ds) = Some ds"
  by (induction ds) (simp_all add: rev_table_nth)

text \<open>One group: \<open>nb\<close> bytes make \<open>nc\<close> characters.\<close>

lemma b32_group_tab:
  assumes "0 < nb" "nb \<le> 5" "nc = nchars_tab ! nb"
  shows "0 < nc" "nc \<le> 8" "nbytes_tab ! nc = Some nb" "8 * nb \<le> 5 * nc"
proof -
  have "nb \<in> {1, 2, 3, 4, 5}" using assms by auto
  then show "0 < nc" "nc \<le> 8" "nbytes_tab ! nc = Some nb" "8 * nb \<le> 5 * nc"
    using assms(3) by (auto simp: nchars_tab_def nbytes_tab_def)
qed

lemma padding_count:
  assumes "xs \<noteq> []" "last xs \<noteq> c"
  shows "length (takeWhile (\<lambda>x. x = c) (rev (xs @ replicate k c))) = k"
proof -
  have "takeWhile (\<lambda>x. x = c) (rev xs) = []" using assms by (cases xs rule: rev_cases) auto
  then have "takeWhile (\<lambda>x. x = c) (replicate k c @ rev xs) = replicate k c" by (subst takeWhile_append2) auto
  then show ?thesis by (simp only: rev_append rev_replicate length_replicate)
qed

lemma bytes_of_40:
  assumes "length c = 5"
  shows "map (\<lambda>k. word_of_nat (drop_bit k (be_val c)) :: 8 word) [32, 24, 16, 8, 0] = c"
proof -
  obtain p q r s t where c: "c = [p, q, r, s, t]" using list_5 [OF assms] by blast
  have b: "word_of_nat (be_val c div 256 ^ (4 - i)) = c ! i" if "i < 5" for i
    using be_val_byte [of i c] that assms by simp
  have "word_of_nat (be_val c div 4294967296) = p" "word_of_nat (be_val c div 16777216) = q"
    "word_of_nat (be_val c div 65536) = r" "word_of_nat (be_val c div 256) = s" "word_of_nat (be_val c) = t"
    using b [of 0] b [of 1] b [of 2] b [of 3] b [of 4] unfolding c by simp_all
  then show ?thesis unfolding c by (simp add: drop_bit_eq_div)
qed

text \<open>The leading digits of a group determine it: the rest of the number is zero.\<close>

lemma b32_group_value:
  assumes nb: "0 < length xs" "length xs \<le> 5" and nc: "nc = nchars_tab ! length xs"
    and v: "v = be_val (xs @ replicate (5 - length xs) 0)"
  shows "radix_val 32 (take nc (radix_digits 32 8 v) @ replicate (8 - nc) 0) = v"
proof (rule leading_digits_pad)
  note t = b32_group_tab [OF nb nc]
  have "v < 256 ^ 5" using be_val_less [of "xs @ replicate (5 - length xs) 0"] nb(2) v by simp
  then show "v < 32 ^ 8" by simp
  show "nc \<le> 8" by (rule t(2))
  have "5 * (8 - nc) \<le> 8 * (5 - length xs)" using t(4) by linarith
  then have "(2 :: nat) ^ (5 * (8 - nc)) dvd 2 ^ (8 * (5 - length xs))" by (rule le_imp_power_dvd)
  moreover have "(2 :: nat) ^ (5 * (8 - nc)) = 32 ^ (8 - nc)" by (simp add: power_mult)
  moreover have "256 ^ (5 - length xs) dvd v" unfolding v by (rule be_val_dvd)
  ultimately show "32 ^ (8 - nc) dvd v" by (metis dvd_trans pow_256)
qed

lemma leading_digits_less: "0 < b \<Longrightarrow> \<forall>d \<in> set (take m (radix_digits b n v)). d < b"
  by (meson in_set_takeD radix_digits_less)

lemma b32_digits_fold:
  assumes "nc \<le> 8" "ds = take nc (radix_digits 32 8 v)" "radix_val 32 (ds @ replicate (8 - nc) 0) = v"
  shows "foldl (\<lambda>v c. u64 (push_bit 5 v) OR c) 0 (ds @ replicate (8 - nc) 0) = v"
proof -
  have "\<forall>d \<in> set ds. d < 32" unfolding assms(2) by (rule leading_digits_less) simp
  then have "\<forall>d \<in> set (ds @ replicate (8 - nc) 0). d < 32" by (auto simp: set_replicate_conv_if)
  moreover have "length (ds @ replicate (8 - nc) 0) \<le> 12" using assms by simp
  ultimately have "foldl (\<lambda>v c. u64 (push_bit 5 v) OR c) 0 (ds @ replicate (8 - nc) 0) = radix_val 32 (ds @ replicate (8 - nc) 0)"
    using b32_fold by blast
  then show ?thesis by (simp only: assms(3))
qed

lemma b32_block_eval:
  assumes "ds \<noteq> []" "length ds = nc" "nc \<le> 8" "\<forall>d \<in> set ds. d < length alpha" "distinct alpha" "CHR ''='' \<notin> set alpha"
    "nc < 8 \<Longrightarrow> l" "nbytes_tab ! nc = Some nb"
  shows "b32_block (rev_table alpha) l (map ((!) alpha) ds @ replicate (8 - nc) (CHR ''='')) =
    Some (take nb (map (\<lambda>k. word_of_nat (drop_bit k (foldl (\<lambda>v c. u64 (push_bit 5 v) OR c) 0 (ds @ replicate (8 - nc) 0))))
      [32, 24, 16, 8, 0]))"
proof -
  have ne: "map ((!) alpha) ds \<noteq> []" using assms(1) by simp
  have "set (map ((!) alpha) ds) \<subseteq> set alpha" using assms(4) by auto
  with last_in_set [OF ne] have "last (map ((!) alpha) ds) \<in> set alpha" by (rule subsetD [rotated])
  then have "last (map ((!) alpha) ds) \<noteq> CHR ''=''" using assms(6) by metis
  note pad = padding_count [OF ne this, of "8 - nc"]
  have n8: "8 - (8 - nc) = nc" using assms(3) by simp
  have tk: "take nc (map ((!) alpha) ds @ replicate (8 - nc) (CHR ''='')) = map ((!) alpha) ds" using assms(2) by simp
  have g: "(8 - nc > 0 \<and> \<not> l) = False" using assms(7) by (cases "nc < 8") simp_all
  show ?thesis
    unfolding b32_block_def Let_def pad n8 tk digit_values_alpha [OF assms(5,4)] assms(8) g if_False option.case ..
qed

lemma b32_block_group:
  assumes nb: "0 < length xs" "length xs \<le> 5" and nc: "nc = nchars_tab ! length xs" and last: "length xs < 5 \<longrightarrow> l"
    and v: "v = be_val (xs @ replicate (5 - length xs) 0)" and al: "distinct alpha" "length alpha = 32" "CHR ''='' \<notin> set alpha"
  shows "b32_block (rev_table alpha) l (map ((!) alpha) (take nc (radix_digits 32 8 v)) @ replicate (8 - nc) (CHR ''='')) = Some xs"
proof -
  let ?ds = "take nc (radix_digits 32 8 v)"
  note t = b32_group_tab [OF nb nc]
  have ld: "length ?ds = nc" using t(2) by (simp only: length_take length_radix_digits min_absorb2)
  then have ne: "?ds \<noteq> []" using t(1) by (metis length_greater_0_conv)
  have ds: "\<forall>d \<in> set ?ds. d < length alpha" unfolding al(2) by (rule leading_digits_less) simp
  have full: "nc < 8 \<Longrightarrow> l" using last nb nc by (cases "length xs = 5") (auto simp: nchars_tab_def)
  have l5: "length (xs @ replicate (5 - length xs) 0) = 5" using nb(2) by simp
  have b: "map (\<lambda>k. word_of_nat (drop_bit k v) :: 8 word) [32, 24, 16, 8, 0] = xs @ replicate (5 - length xs) 0"
    unfolding v by (rule bytes_of_40 [OF l5])
  have f: "foldl (\<lambda>v c. u64 (push_bit 5 v) OR c) 0 (?ds @ replicate (8 - nc) 0) = v"
    by (rule b32_digits_fold [OF t(2) refl b32_group_value [OF nb nc v]])
  have "b32_block (rev_table alpha) l (map ((!) alpha) ?ds @ replicate (8 - nc) (CHR ''='')) =
      Some (take (length xs) (map (\<lambda>k. word_of_nat (drop_bit k v)) [32, 24, 16, 8, 0]))"
    using b32_block_eval [OF ne ld t(2) ds al(1,3) full t(3)] unfolding f .
  also have "\<dots> = Some xs" unfolding b by simp
  finally show ?thesis .
qed

text \<open>The text of one group, and the encoder as the sequence of groups.\<close>

definition b32_text :: "string \<Rightarrow> 8 word list \<Rightarrow> string" where
  "b32_text alpha xs =
     (let nc = nchars_tab ! length xs
      in map ((!) alpha) (take nc (radix_digits 32 8 (be_val (xs @ replicate (5 - length xs) 0)))) @
         replicate (8 - nc) (CHR ''=''))"

lemma b32_encode_step:
  assumes "data \<noteq> []"
  shows "dyn_enc_b32_encode alpha data = b32_text alpha (take 5 data) @ dyn_enc_b32_encode alpha (drop 5 data)"
proof -
  let ?nb = "min (length data) 5"
  let ?c = "take 5 data @ replicate (5 - ?nb) (0 :: 8 word)"
  have t: "take ?nb data = take 5 data" "length (take 5 data) = ?nb" by (simp_all add: min_def)
  have l: "length ?c = 5" by simp
  have "0 < ?nb" "?nb \<le> 5" using assms by auto
  note nc = b32_group_tab(2) [OF this refl]
  show ?thesis using assms
    by (subst dyn_enc_b32_encode.simps)
      (simp only: Let_def be_val_5 [OF l] b32_chars [OF nc] b32_text_def t append.assoc if_False)
qed

lemma b32_text_length: "xs \<noteq> [] \<Longrightarrow> length xs \<le> 5 \<Longrightarrow> length (b32_text alpha xs) = 8"
  using b32_group_tab(2) [of "length xs"] by (simp add: b32_text_def Let_def)

lemma b32_Nil: "dyn_enc_b32_encode alpha [] = []" "b32_blocks tab [] = Some []"
  by (subst dyn_enc_b32_encode.simps, simp) (subst b32_blocks.simps, simp)

lemma div_5_step: "0 < n \<Longrightarrow> (n + 4) div 5 = (n - 5 + 4) div 5 + (1 :: nat)"
proof (cases "5 \<le> n")
  case True
  then obtain m where "n = m + 5" by (metis add.commute le_Suc_ex)
  then show ?thesis by simp
next
  case False
  moreover assume "0 < n"
  ultimately have "(n + 4) div 5 = 1" by (intro div_nat_eqI) auto
  then show ?thesis using False by simp
qed

lemma b32_encode_length: "length (dyn_enc_b32_encode alpha data) = 8 * ((length data + 4) div 5)"
proof (induction data rule: chunk5_induct)
  case (Chunk data)
  have "length (b32_text alpha (take 5 data)) = 8" using Chunk.hyps by (intro b32_text_length) auto
  then show ?case unfolding b32_encode_step [OF Chunk.hyps(1)]
    using Chunk div_5_step [of "length data"] by simp
qed (simp_all add: b32_Nil)

lemma b32_blocks_append:
  assumes "length blk = 8" "b32_block tab (length (blk @ s) = 8) blk = Some xs" "b32_blocks tab s = Some ys"
  shows "b32_blocks tab (blk @ s) = Some (xs @ ys)"
proof -
  have "blk @ s \<noteq> []" "take 8 (blk @ s) = blk" "drop 8 (blk @ s) = s" using assms(1) by auto
  then show ?thesis using assms(2,3) by (subst b32_blocks.simps) (simp only: if_False option.case option.map)
qed

lemma b32_encode_blocks:
  assumes "distinct alpha" "length alpha = 32" "CHR ''='' \<notin> set alpha"
  shows "b32_blocks (rev_table alpha) (dyn_enc_b32_encode alpha data) = Some data"
proof (induction data rule: chunk5_induct)
  case (Chunk data)
  let ?x = "take 5 data" and ?e = "dyn_enc_b32_encode alpha (drop 5 data)"
  have x: "0 < length ?x" "length ?x \<le> 5" using Chunk.hyps by auto
  have l: "length (b32_text alpha ?x) = 8" using x by (intro b32_text_length) auto
  have "length ?x < 5 \<longrightarrow> ?e = []" by (auto simp: b32_Nil)
  then have "length ?x < 5 \<longrightarrow> length (b32_text alpha ?x @ ?e) = 8" using l by (metis append_Nil2)
  from b32_block_group [OF x refl this refl assms]
  have "b32_block (rev_table alpha) (length (b32_text alpha ?x @ ?e) = 8) (b32_text alpha ?x) = Some ?x"
    by (simp only: b32_text_def Let_def)
  from b32_blocks_append [OF l this Chunk.IH] show ?case
    unfolding b32_encode_step [OF Chunk.hyps(1)] by (simp only: append_take_drop_id)
qed (simp_all add: b32_Nil)

interpretation b32: codec "dyn_enc_b32_encode (dyn_b32_alpha k)" "dyn_enc_b32_decode (dyn_b32_alpha k)" "\<lambda>_. True" for k
  by unfold_locales (simp add: dyn_enc_b32_decode_def b32_encode_length b32_encode_blocks b32_alpha)

end
