(* ===== verification/Dyna_Ascii85.thy ===== *)
theory Dyna_Ascii85
  imports Dyna_Radix
begin

unbundle bit_operations_syntax

text \<open>
  Base85 of \<^verbatim>\<open>dyna:encoding\<close>: four bytes are five digits in radix 85. A short final group keeps its leading
  digits, and the decoder fills the missing ones with the largest digit.
\<close>

section \<open>Digits\<close>

definition b85_chr :: "nat \<Rightarrow> char" where
  "b85_chr d = char_of (33 + d)"

lemma b85_chr_val: "d < 85 \<Longrightarrow> (of_char (b85_chr d) :: nat) = 33 + d"
  by (simp add: b85_chr_def)

lemma b85_chr_ok:
  assumes "d < 85"
  shows "\<not> dyn_enc_is_ascii85_space (b85_chr d)" "b85_chr d \<noteq> CHR ''z''"
    "chr_between (CHR ''!'') (CHR ''u'') (b85_chr d)" "(of_char (b85_chr d) :: nat) - 33 = d"
proof -
  have neq: "b85_chr d \<noteq> c" if "(of_char c :: nat) < 33 \<or> (of_char c :: nat) > 117" for c
    using b85_chr_val [OF assms] assms that by auto
  show "b85_chr d \<noteq> CHR ''z''" by (rule neq) simp
  have "b85_chr d \<noteq> CHR '' ''" "b85_chr d \<noteq> CHR 0x09" "b85_chr d \<noteq> CHR 0x0A" "b85_chr d \<noteq> CHR 0x0B"
    "b85_chr d \<noteq> CHR 0x0C" "b85_chr d \<noteq> CHR 0x0D" by (rule neq, simp)+
  then show "\<not> dyn_enc_is_ascii85_space (b85_chr d)" by (simp add: dyn_enc_is_ascii85_space_def)
  show "chr_between (CHR ''!'') (CHR ''u'') (b85_chr d)" "(of_char (b85_chr d) :: nat) - 33 = d"
    using b85_chr_val [OF assms] assms by (simp_all add: less_eq_char_def)
qed

lemma b85_digits_radix: "b85_digits n v = map b85_chr (radix_digits 85 n v)"
  by (induction n arbitrary: v) (simp_all add: b85_chr_def)

lemma b85_loop_digit:
  assumes "d < 85" "v * 85 + d < 2 ^ 32" "nb < 4"
  shows "b85_loop v nb out (b85_chr d # s) = b85_loop (v * 85 + d) (nb + 1) out s"
  using b85_chr_ok [OF assms(1)] assms(2,3) by (simp add: Let_def u32_def)

lemma b85_loop_last:
  assumes "d < 85" "v * 85 + d < 2 ^ 32"
  shows "b85_loop v 4 out (b85_chr d # s) =
    b85_loop 0 0 (out @ map (\<lambda>k. word_of_nat (drop_bit k (v * 85 + d))) [24, 16, 8, 0]) s"
  using b85_chr_ok [OF assms(1)] assms(2) by (simp add: Let_def u32_def)

abbreviation b85_acc :: "nat \<Rightarrow> nat list \<Rightarrow> nat" where
  "b85_acc \<equiv> foldl (\<lambda>v d. v * 85 + d)"

lemma b85_acc_ge: "v \<le> b85_acc v ds"
proof (induction ds arbitrary: v)
  case (Cons d ds)
  have "v \<le> v * 85 + d" by simp
  also have "\<dots> \<le> b85_acc (v * 85 + d) ds" by (rule Cons.IH)
  finally show ?case by simp
qed simp

lemma b85_loop_digits:
  "\<forall>d \<in> set ds. d < 85 \<Longrightarrow> nb + length ds \<le> 4 \<Longrightarrow> b85_acc v ds < 2 ^ 32 \<Longrightarrow>
     b85_loop v nb out (map b85_chr ds @ s) = b85_loop (b85_acc v ds) (nb + length ds) out s"
proof (induction ds arbitrary: v nb)
  case (Cons d ds)
  have acc: "b85_acc (v * 85 + d) ds < 2 ^ 32" using Cons.prems(3) by simp
  then have "v * 85 + d < 2 ^ 32" using b85_acc_ge le_less_trans by blast
  then have "b85_loop v nb out (b85_chr d # map b85_chr ds @ s) = b85_loop (v * 85 + d) (nb + 1) out (map b85_chr ds @ s)"
    using Cons.prems by (intro b85_loop_digit) auto
  also have "\<dots> = b85_loop (b85_acc (v * 85 + d) ds) (nb + 1 + length ds) out s"
    using Cons.prems acc by (intro Cons.IH) auto
  finally show ?case by simp
qed simp

section \<open>Full groups\<close>

lemma bytes32:
  fixes a b c d :: nat
  assumes "b < 256" "c < 256" "d < 256"
  shows "push_bit 24 a OR push_bit 16 b OR push_bit 8 c OR d = ((a * 256 + b) * 256 + c) * 256 + d"
proof -
  have "push_bit 24 a OR push_bit 16 b OR push_bit 8 c OR d = push_bit 8 (push_bit 8 (push_bit 8 a OR b) OR c) OR d"
    by (simp add: push_bit_or or.assoc)
  then show ?thesis using assms or_shift [of d 8] or_shift [of c 8] or_shift [of b 8] by simp
qed

definition b85_val :: "8 word list \<Rightarrow> nat" where
  "b85_val xs = be_val (xs @ replicate (4 - length xs) 0)"

lemma b85_val_cases:
  "b85_val [a] = ((unat a * 256 + 0) * 256 + 0) * 256 + 0"
  "b85_val [a, b] = ((unat a * 256 + unat b) * 256 + 0) * 256 + 0"
  "b85_val [a, b, c] = ((unat a * 256 + unat b) * 256 + unat c) * 256 + 0"
  "b85_val [a, b, c, d] = ((unat a * 256 + unat b) * 256 + unat c) * 256 + unat d"
  by (simp_all add: b85_val_def be_val_def numeral_3_eq_3 numeral_2_eq_2)

lemma upt_4: "[0 ..< 1] = [0 :: nat]" "[0 ..< 2] = [0, 1 :: nat]" "[0 ..< 3] = [0, 1, 2 :: nat]" "[0 ..< 4] = [0, 1, 2, 3 :: nat]"
  by code_simp+

lemma b85_value:
  assumes "data \<noteq> []"
  shows "foldl (\<lambda>v j. v OR push_bit (24 - 8 * j) (unat (data ! j))) 0 [0 ..< min (length data) 4] = b85_val (take 4 data)"
proof -
  consider a where "data = [a]" | a b where "data = [a, b]" | a b c where "data = [a, b, c]"
    | a b c d r where "data = a # b # c # d # r"
    using assms by (metis list.exhaust)
  then show ?thesis
  proof cases
    case (1 a)
    have "[0 ..< min (length data) 4] = [0]" using 1 by simp
    then show ?thesis using bytes32 [of 0 0 0 "unat a"] 1 b85_val_cases(1) [of a] by simp
  next
    case (2 a b)
    have "min (length data) 4 = 2" using 2 by simp
    then show ?thesis using bytes32 [of "unat b" 0 0 "unat a"] 2 b85_val_cases(2) [of a b] by (simp add: upt_4)
  next
    case (3 a b c)
    have "min (length data) 4 = 3" using 3 by simp
    then show ?thesis using bytes32 [of "unat b" "unat c" 0 "unat a"] 3 b85_val_cases(3) [of a b c]
      by (simp add: upt_4 or.assoc)
  next
    case (4 a b c d r)
    have "min (length data) 4 = 4" using 4 by simp
    then show ?thesis using bytes32 [of "unat b" "unat c" "unat d" "unat a"] 4 b85_val_cases(4) [of a b c d]
      by (simp add: upt_4 or.assoc)
  qed
qed

lemma b85_val_less: "length xs \<le> 4 \<Longrightarrow> b85_val xs < 2 ^ 32"
  using be_val_less [of "xs @ replicate (4 - length xs) 0"] by (simp add: b85_val_def)

lemma radix_val_acc: "radix_val 85 ds = b85_acc 0 ds"
  by (simp add: radix_val_def)

lemma bytes_of_32:
  assumes "length c = 4"
  shows "map (\<lambda>k. word_of_nat (drop_bit k (be_val c)) :: 8 word) [24, 16, 8, 0] = c"
proof -
  obtain q r s t where c: "c = [q, r, s, t]" using assms by (auto simp: numeral_eq_Suc length_Suc_conv)
  have b: "word_of_nat (be_val c div 256 ^ (3 - i)) = c ! i" if "i < 4" for i
    using be_val_byte [of i c] that assms by simp
  have "word_of_nat (be_val c div 16777216) = q" "word_of_nat (be_val c div 65536) = r"
    "word_of_nat (be_val c div 256) = s" "word_of_nat (be_val c) = t"
    using b [of 0] b [of 1] b [of 2] b [of 3] unfolding c by simp_all
  then show ?thesis unfolding c by (simp add: drop_bit_eq_div)
qed

lemma radix_digits_5: "radix_digits b 5 v = radix_digits b 4 (v div b) @ [v mod b]"
proof -
  have "(5 :: nat) = Suc 4" by simp
  then show ?thesis by (simp only: radix_digits.simps(2))
qed

lemma b85_loop_group:
  assumes "length c = 4"
  shows "b85_loop 0 0 out (b85_digits 5 (b85_val c) @ s) = b85_loop 0 0 (out @ c) s"
proof -
  let ?v = "b85_val c"
  have v: "?v < 2 ^ 32" using b85_val_less assms by simp
  then have q: "?v div 85 < 85 ^ 4" by (simp add: less_mult_imp_div_less)
  have acc: "b85_acc 0 (radix_digits 85 4 (?v div 85)) = ?v div 85"
    using radix_val_digits [OF q] by (simp only: radix_val_acc)
  have "b85_loop 0 0 out (map b85_chr (radix_digits 85 4 (?v div 85)) @ b85_chr (?v mod 85) # s) =
      b85_loop (?v div 85) 4 out (b85_chr (?v mod 85) # s)"
    using b85_loop_digits [of "radix_digits 85 4 (?v div 85)" 0 0 out "b85_chr (?v mod 85) # s"]
      radix_digits_less [of 85] v unfolding acc by auto
  also have "\<dots> = b85_loop 0 0 (out @ map (\<lambda>k. word_of_nat (drop_bit k ?v)) [24, 16, 8, 0]) s"
    using b85_loop_last [of "?v mod 85" "?v div 85" out s] v by (simp only: div_mult_mod_eq mod_less_divisor zero_less_numeral)
  also have "map (\<lambda>k. word_of_nat (drop_bit k ?v)) [24, 16, 8, 0] = c"
    using bytes_of_32 [OF assms] assms by (simp only: b85_val_def diff_self_eq_0 replicate_0 append_Nil2)
  finally show ?thesis by (simp only: b85_digits_radix radix_digits_5 map_append list.map append.assoc append_Cons append_Nil)
qed

section \<open>The last group\<close>

lemma b85_fill:
  "(q + 1) * 85 ^ k \<le> 2 ^ 32 \<Longrightarrow> ((\<lambda>v. u32 (v * 85 + 84)) ^^ k) q = (q + 1) * 85 ^ k - 1"
proof (induction k)
  case (Suc k)
  let ?n = "(q + 1) * 85 ^ k"
  have b: "?n * 85 \<le> 2 ^ 32" using Suc.prems by (simp only: power_Suc2 mult.assoc)
  have p: "0 < ?n" by simp
  have "n > 0 \<Longrightarrow> n * 85 \<le> 2 ^ 32 \<Longrightarrow> u32 ((n - 1) * 85 + 84) = n * 85 - 1" for n
  proof -
    assume n: "n > 0" "n * 85 \<le> 2 ^ 32"
    then obtain m where m: "n = Suc m" by (cases n) auto
    then have "(n - 1) * 85 + 84 = n * 85 - 1" by simp
    then show ?thesis using n by (simp add: u32_def)
  qed
  from this [OF p b] have "u32 ((?n - 1) * 85 + 84) = ?n * 85 - 1" .
  moreover have "((\<lambda>v. u32 (v * 85 + 84)) ^^ k) q = ?n - 1" using b p by (intro Suc.IH) linarith
  ultimately show ?case by (simp only: funpow.simps comp_apply power_Suc2 mult.assoc)
qed simp

text \<open>The filled number lies in the block of numbers with the bytes of the group in front.\<close>

lemma b85_fill_block:
  assumes "length xs + k = 4" "v = be_val xs * 256 ^ k"
  shows "(v div 85 ^ k + 1) * 85 ^ k \<le> 2 ^ 32" "((v div 85 ^ k + 1) * 85 ^ k - 1) div 256 ^ k = be_val xs"
proof -
  let ?n = "(v div 85 ^ k + 1) * 85 ^ k"
  have lo: "v < ?n" using dividend_less_div_times [of "85 ^ k" v] by (simp add: algebra_simps)
  have "v div 85 ^ k * 85 ^ k \<le> v" by (rule div_times_less_eq_dividend)
  then have hi: "?n \<le> v + 85 ^ k" by simp
  have p: "(85 :: nat) ^ k \<le> 256 ^ k" by (rule power_mono) simp_all
  have "be_val xs + 1 \<le> 256 ^ length xs" using be_val_less [of xs] by simp
  then have "(be_val xs + 1) * 256 ^ k \<le> 256 ^ length xs * 256 ^ k" by (rule mult_le_mono1)
  also have "\<dots> = 256 ^ (length xs + k)" by (simp only: power_add)
  finally have top: "v + 256 ^ k \<le> 2 ^ 32" unfolding assms(1) assms(2) by (simp add: algebra_simps)
  show "?n \<le> 2 ^ 32" using hi p top by linarith
  have e: "(be_val xs + 1) * 256 ^ k = v + 256 ^ k" unfolding assms(2) by (simp add: algebra_simps)
  have up: "?n - 1 < (be_val xs + 1) * 256 ^ k" unfolding e using hi p lo by linarith
  have dn: "be_val xs * 256 ^ k \<le> ?n - 1" using lo assms(2) by simp
  show "(?n - 1) div 256 ^ k = be_val xs"
    by (rule div_nat_eqI) (use up dn in \<open>simp_all add: mult.commute\<close>)
qed

definition b85_end :: "nat \<times> nat \<times> 8 word list \<Rightarrow> 8 word list option" where
  "b85_end st =
     (case st of (v, nb, out) \<Rightarrow>
        if nb = 1 then None
        else if nb > 1 then
          Some (out @ map (\<lambda>k. word_of_nat (drop_bit (24 - 8 * k) (((\<lambda>v. u32 (v * 85 + 84)) ^^ (5 - nb)) v))) [0 ..< nb - 1])
        else Some out)"

lemma b85_decode_end: "dyn_enc_b85_decode s = Option.bind (b85_loop 0 0 [] s) b85_end"
  by (simp add: dyn_enc_b85_decode_def b85_end_def Let_def split: option.split)

lemma b85_filled_bytes:
  assumes "length xs + k = 4" "w div 256 ^ k = be_val xs"
  shows "map (\<lambda>j. word_of_nat (drop_bit (24 - 8 * j) w)) [0 ..< length xs] = xs"
proof (rule nth_equalityI)
  fix j assume "j < length (map (\<lambda>j. word_of_nat (drop_bit (24 - 8 * j) w) :: 8 word) [0 ..< length xs])"
  then have j: "j < length xs" by simp
  have "24 - 8 * j = 8 * (3 - j)" by simp
  then have "drop_bit (24 - 8 * j) w = w div 256 ^ (3 - j)" by (simp only: drop_bit_eq_div pow_256)
  also have "3 - j = k + (length xs - Suc j)" using j assms(1) by linarith
  also have "w div 256 ^ (k + (length xs - Suc j)) = be_val xs div 256 ^ (length xs - Suc j)"
    by (simp only: power_add div_mult2_eq assms(2))
  finally have "drop_bit (24 - 8 * j) w = be_val xs div 256 ^ (length xs - Suc j)" .
  then show "map (\<lambda>j. word_of_nat (drop_bit (24 - 8 * j) w)) [0 ..< length xs] ! j = xs ! j"
    using j be_val_byte [OF j] by simp
qed simp

lemma b85_last_group:
  assumes "0 < length xs" "length xs < 4"
  shows "Option.bind (b85_loop 0 0 out (take (length xs + 1) (b85_digits 5 (b85_val xs)))) b85_end = Some (out @ xs)"
proof -
  define k where "k = 4 - length xs"
  let ?v = "b85_val xs" and ?m = "length xs + 1"
  have k: "length xs + k = 4" using assms by (simp add: k_def)
  have v: "?v = be_val xs * 256 ^ k" by (simp add: b85_val_def be_val_append k_def)
  have m: "5 - ?m = k" "?m \<le> 5" using k by auto
  let ?q = "?v div 85 ^ k"
  have ds: "take ?m (radix_digits 85 5 ?v) = radix_digits 85 ?m ?q"
    using take_radix_digits [OF m(2), of 85 ?v] by (simp only: m(1))
  note f = b85_fill_block [OF k v]
  have q: "?q < 2 ^ 32" using b85_val_less [of xs] assms(2) div_le_dividend [of ?v "85 ^ k"] by linarith
  have "?v < 85 ^ 5" using b85_val_less [of xs] assms(2) by simp
  also have "(5 :: nat) = ?m + k" using k by simp
  also have "(85 :: nat) ^ (?m + k) = 85 ^ ?m * 85 ^ k" by (rule power_add)
  finally have "?q < 85 ^ ?m" by (simp only: less_mult_imp_div_less)
  then have acc: "b85_acc 0 (radix_digits 85 ?m ?q) = ?q"
    unfolding radix_val_acc [symmetric] by (rule radix_val_digits)
  have "b85_loop 0 0 out (map b85_chr (radix_digits 85 ?m ?q) @ []) = b85_loop ?q (0 + ?m) out []"
    using b85_loop_digits [of "radix_digits 85 ?m ?q" 0 0 out "[]", unfolded acc] radix_digits_less [of 85] q assms(2)
    by (simp only: length_radix_digits) auto
  then have lp: "b85_loop 0 0 out (take ?m (b85_digits 5 ?v)) = Some (?q, ?m, out)"
    by (simp only: b85_digits_radix take_map ds append_Nil2 b85_loop.simps(1) add_0)
  have "b85_end (?q, ?m, out) = Some (out @ map (\<lambda>j. word_of_nat (drop_bit (24 - 8 * j) ((?q + 1) * 85 ^ k - 1))) [0 ..< length xs])"
    using assms(1) b85_fill [OF f(1)] m(1) by (simp add: b85_end_def del: funpow.simps)
  also have "\<dots> = Some (out @ xs)" by (simp only: b85_filled_bytes [OF k f(2)])
  finally show ?thesis by (simp only: lp bind.bind_lunit)
qed

section \<open>Round trip\<close>

lemma b85_encode_Nil: "dyn_enc_b85_encode [] = []"
  by (subst dyn_enc_b85_encode.simps) simp

lemma b85_encode_step:
  assumes "data \<noteq> []"
  shows "dyn_enc_b85_encode data =
    (if length data \<ge> 4 \<and> b85_val (take 4 data) = 0 then ''z''
     else take (if length data < 4 then length data + 1 else 5) (b85_digits 5 (b85_val (take 4 data)))) @
    dyn_enc_b85_encode (drop 4 data)"
proof -
  have m: "(min (length data) 4 = 4) = (length data \<ge> 4)" "(min (length data) 4 < 4) = (length data < 4)"
    "length data < 4 \<Longrightarrow> min (length data) 4 = length data" by auto
  show ?thesis
    by (subst dyn_enc_b85_encode.simps) (use assms m in \<open>simp only: Let_def b85_value [OF assms] if_False m cong: if_cong\<close>)
qed

lemma b85_val_zero: "length c = 4 \<Longrightarrow> b85_val c = 0 \<Longrightarrow> c = [0, 0, 0, 0]"
proof -
  assume l: "length c = 4" and z: "b85_val c = 0"
  have "be_val c = be_val [0, 0, 0, 0]" using l z by (simp add: b85_val_def be_val_def)
  then show ?thesis using l be_val_inj [of c "[0, 0, 0, 0]"] by simp
qed

lemma length_b85_digits: "length (b85_digits n v) = n"
  by (simp add: b85_digits_radix)

lemma b85_round_trip: "Option.bind (b85_loop 0 0 out (dyn_enc_b85_encode data)) b85_end = Some (out @ data)"
proof (induction data arbitrary: out rule: chunk4_induct)
  case Nil
  then show ?case by (simp add: b85_encode_Nil b85_end_def)
next
  case (Chunk data)
  show ?case
  proof (cases "length data < 4")
    case True
    then have "dyn_enc_b85_encode data = take (length data + 1) (b85_digits 5 (b85_val data))"
      using b85_encode_step [OF Chunk.hyps(1)] by (simp add: b85_encode_Nil)
    moreover have "0 < length data" using Chunk.hyps(1) by simp
    ultimately show ?thesis using b85_last_group [of data out] True by metis
  next
    case False
    let ?c = "take 4 data"
    have c: "length ?c = 4" using False by simp
    have "b85_loop 0 0 out (dyn_enc_b85_encode data) = b85_loop 0 0 (out @ ?c) (dyn_enc_b85_encode (drop 4 data))"
    proof (cases "b85_val ?c = 0")
      case True
      then show ?thesis using b85_encode_step [OF Chunk.hyps(1)] b85_val_zero [OF c] False
        by (simp add: dyn_enc_is_ascii85_space_def)
    next
      case nz: False
      have "take 5 (b85_digits 5 (b85_val ?c)) = b85_digits 5 (b85_val ?c)" by (simp add: length_b85_digits)
      then show ?thesis using b85_encode_step [OF Chunk.hyps(1)] b85_loop_group [OF c, of out] False nz
        by (simp only: not_less if_False simp_thms)
    qed
    then show ?thesis using Chunk.IH [of "out @ ?c"] by (simp only: append.assoc append_take_drop_id)
  qed
qed

interpretation b85: codec dyn_enc_b85_encode dyn_enc_b85_decode "\<lambda>_. True"
  by unfold_locales (simp only: b85_decode_end b85_round_trip append_Nil)

end
