(* ===== verification/Dyna_Varint.thy ===== *)
theory Dyna_Varint
  imports Dyna_Codec
begin

unbundle bit_operations_syntax

text \<open>
  Variable-length integers of \<^verbatim>\<open>dyna:encoding\<close>: seven bits a byte, the high bit set on all but the last, and
  the zigzag map for signed values.
\<close>

section \<open>Unsigned\<close>

lemma put_uvarint_small: "x < 128 \<Longrightarrow> dyn_enc_put_uvarint x = [word_of_nat x]"
  by (subst dyn_enc_put_uvarint.simps) simp

lemma put_uvarint_step:
  "128 \<le> x \<Longrightarrow> dyn_enc_put_uvarint x = word_of_nat (x OR 0x80) # dyn_enc_put_uvarint (x div 128)"
  by (subst dyn_enc_put_uvarint.simps) (simp add: drop_bit_eq_div)

lemma put_uvarint_length:
  "x < 128 ^ Suc n \<Longrightarrow> 0 < length (dyn_enc_put_uvarint x) \<and> length (dyn_enc_put_uvarint x) \<le> Suc n"
proof (induction n arbitrary: x)
  case 0
  then show ?case by (simp add: put_uvarint_small)
next
  case (Suc n)
  show ?case
  proof (cases "x < 128")
    case False
    have "x div 128 < 128 ^ Suc n" using Suc.prems by (simp add: less_mult_imp_div_less mult.commute)
    then show ?thesis using False Suc.IH by (simp add: put_uvarint_step)
  qed (simp add: put_uvarint_small)
qed

lemma unat_word8: "unat (word_of_nat n :: 8 word) = n mod 256"
proof -
  have "unat (word_of_nat n :: 8 word) = n mod 2 ^ LENGTH(8)" by (simp only: unsigned_of_nat take_bit_eq_mod of_nat_id)
  then show ?thesis by simp
qed

lemma continuation_byte:
  fixes b :: "8 word" and x :: nat
  defines "b \<equiv> word_of_nat (x OR 0x80)"
  shows "\<not> b < 0x80" "unat (b AND 0x7f) = x mod 128"
proof -
  have bit: "bit b i \<longleftrightarrow> i < 8 \<and> (bit x i \<or> i = 7)" for i
  proof -
    have "bit (128 :: nat) i \<longleftrightarrow> i = 7" using bit_exp_iff [of 7 i, where ?'a = nat] by simp
    then show ?thesis by (auto simp: b_def bit_simps)
  qed
  show "\<not> b < 0x80"
  proof
    assume "b < 0x80"
    then have "unat b < 2 ^ 7" by (simp add: word_less_nat_alt)
    then have "\<not> bit (unat b) 7" by (metis bit_take_bit_iff less_irrefl take_bit_nat_eq_self_iff)
    then show False using bit [of 7] by (simp add: bit_unsigned_iff)
  qed
  have m: "(0x7f :: 8 word) = mask 7" by (simp add: mask_eq_exp_minus_1)
  have "b AND 0x7f = take_bit 7 b" by (simp add: m take_bit_eq_mask)
  then have "unat (b AND 0x7f) = take_bit 7 (unat b)" by (simp add: unsigned_take_bit_eq)
  also have "\<dots> = take_bit 7 x"
    by (rule bit_eqI) (auto simp: bit_simps bit)
  finally show "unat (b AND 0x7f) = x mod 128" by (simp add: take_bit_eq_mod)
qed

text \<open>After \<open>i\<close> bytes the decoder holds the low \<open>7 i\<close> bits.\<close>

lemma uvarint_loop_put:
  "low < 2 ^ (7 * i) \<Longrightarrow> x * 2 ^ (7 * i) + low < 2 ^ 64 \<Longrightarrow> i < 10 \<Longrightarrow>
     uvarint_loop i (7 * i) low (dyn_enc_put_uvarint x @ r) =
       (int (i + length (dyn_enc_put_uvarint x)), x * 2 ^ (7 * i) + low)"
proof (induction x arbitrary: i low rule: less_induct)
  case (less x)
  have fits: "y * 2 ^ (7 * i) < 2 ^ 64" if "y \<le> x" for y
    using that less.prems(2) mult_le_mono1 [OF that, of "2 ^ (7 * i)"] by linarith
  have or_low: "low OR u64 (push_bit (7 * i) y) = y * 2 ^ (7 * i) + low" if "y \<le> x" for y
    using or_shift [OF less.prems(1), of y] fits [OF that]
    by (simp add: u64_def push_bit_eq_mult or.commute)
  show ?case
  proof (cases "x < 128")
    case True
    have ub: "unat (word_of_nat x :: 8 word) = x" using True by (simp add: unat_word8)
    have small: "(word_of_nat x :: 8 word) < 0x80" using True ub by (simp add: word_less_nat_alt)
    have top: "\<not> (i = 9 \<and> (word_of_nat x :: 8 word) > 1)"
    proof
      assume a: "i = 9 \<and> (word_of_nat x :: 8 word) > 1"
      then have "2 \<le> x" using ub by (simp add: word_less_nat_alt)
      then have "2 * 2 ^ 63 \<le> x * 2 ^ 63" by (rule mult_le_mono1)
      then show False using less.prems(2) a by simp
    qed
    show ?thesis using True small top less.prems(3) or_low [of x] ub
      by (simp add: put_uvarint_small DYN_ENC_MAX_VARINT_LEN_def)
  next
    case False
    let ?b = "word_of_nat (x OR 0x80) :: 8 word"
    have x: "x = x div 128 * 128 + x mod 128" by simp
    have p: "(2 :: nat) ^ (7 * Suc i) = 128 * 2 ^ (7 * i)" by (simp add: power_add)
    have i9: "i < 9"
    proof (rule ccontr)
      assume "\<not> i < 9"
      then have "i = 9" using less.prems(3) by simp
      then show False using fits [of x] False by simp
    qed
    let ?low = "x mod 128 * 2 ^ (7 * i) + low"
    have step: "uvarint_loop i (7 * i) low (?b # dyn_enc_put_uvarint (x div 128) @ r) =
        uvarint_loop (Suc i) (7 * Suc i) ?low (dyn_enc_put_uvarint (x div 128) @ r)"
      using continuation_byte [of x] or_low [of "x mod 128"] i9 by (simp add: DYN_ENC_MAX_VARINT_LEN_def add.commute)
    have sum: "x div 128 * 2 ^ (7 * Suc i) + ?low = x * 2 ^ (7 * i) + low"
    proof -
      have "q * 128 + m = n \<Longrightarrow> q * (128 * K) + (m * K + low) = n * K + low" for q m n K :: nat
        by (auto simp: algebra_simps)
      from this [OF div_mult_mod_eq] show ?thesis unfolding p .
    qed
    have "x mod 128 + 1 \<le> 128" by (simp add: Suc_leI)
    then have "(x mod 128 + 1) * 2 ^ (7 * i) \<le> 128 * 2 ^ (7 * i)" by (rule mult_le_mono1)
    then have "x mod 128 * 2 ^ (7 * i) + 2 ^ (7 * i) \<le> 128 * 2 ^ (7 * i)" by (simp only: add_mult_distrib mult_1)
    then have "?low < 2 ^ (7 * Suc i)" using less.prems(1) unfolding p by linarith
    then have "uvarint_loop (Suc i) (7 * Suc i) ?low (dyn_enc_put_uvarint (x div 128) @ r) =
        (int (Suc i + length (dyn_enc_put_uvarint (x div 128))), x div 128 * 2 ^ (7 * Suc i) + ?low)"
      using less.IH [of "x div 128" ?low "Suc i"] False i9 sum less.prems(2) by simp
    then show ?thesis using step sum put_uvarint_step [of x] False by simp
  qed
qed

lemma uvarint_put:
  "x < 2 ^ 64 \<Longrightarrow> dyn_enc_uvarint (dyn_enc_put_uvarint x @ r) = (int (length (dyn_enc_put_uvarint x)), x)"
  using uvarint_loop_put [of 0 0 x r] by (simp add: dyn_enc_uvarint_def)

section \<open>Signed\<close>

definition zigzag :: "int \<Rightarrow> nat" where
  "zigzag x = nat (if x < 0 then - 2 * x - 1 else 2 * x)"

lemma put_varint_zigzag:
  assumes "- (2 ^ 63) \<le> x" "x < 2 ^ 63"
  shows "dyn_enc_put_varint x = dyn_enc_put_uvarint (zigzag x) \<and> zigzag x < 2 ^ 64"
proof (cases "x < 0")
  case True
  have "(x * 2) mod 2 ^ 64 = (x * 2 + 2 ^ 64) mod 2 ^ 64" by simp
  also have "\<dots> = x * 2 + 2 ^ 64" using True assms by (intro mod_pos_pos_trivial) auto
  finally have "2 ^ 64 - 1 - nat ((x * 2) mod 2 ^ 64) = zigzag x" using True assms by (simp add: zigzag_def nat_diff_distrib')
  then show ?thesis using True assms by (simp add: dyn_enc_put_varint_def Let_def zigzag_def)
next
  case False
  then have "(x * 2) mod 2 ^ 64 = x * 2" using assms by (intro mod_pos_pos_trivial) auto
  then show ?thesis using False assms by (simp add: dyn_enc_put_varint_def Let_def zigzag_def mult.commute)
qed

lemma unzigzag: "(if odd (zigzag x) then - int (zigzag x div 2) - 1 else int (zigzag x div 2)) = x"
proof (cases "x < 0")
  case True
  then obtain n where "x = - int (Suc n)" by (metis negD)
  then have "zigzag x = 2 * n + 1" by (simp add: zigzag_def)
  then show ?thesis using \<open>x = - int (Suc n)\<close> by simp
next
  case False
  then obtain n where "x = int n" by (metis nonneg_int_cases not_less)
  then show ?thesis by (simp add: zigzag_def nat_mult_distrib)
qed

lemma varint_put:
  assumes "- (2 ^ 63) \<le> x" "x < 2 ^ 63"
  shows "dyn_enc_varint (dyn_enc_put_varint x @ r) = (int (length (dyn_enc_put_varint x)), x)"
proof -
  note z = put_varint_zigzag [OF assms]
  have "zigzag x < 128 ^ Suc 9" using z by simp
  then have "0 < length (dyn_enc_put_uvarint (zigzag x))" using put_uvarint_length by blast
  then show ?thesis using z uvarint_put [of "zigzag x" r] unzigzag [of x]
    by (simp add: dyn_enc_varint_def Let_def drop_bit_eq_div)
qed

interpretation uvar: codec dyn_enc_put_uvarint
  "\<lambda>bs. case dyn_enc_uvarint bs of (n, x) \<Rightarrow> if n = int (length bs) then Some x else None" "\<lambda>x. x < 2 ^ 64"
  using uvarint_put [where r = "[]"] by unfold_locales simp

interpretation svar: codec dyn_enc_put_varint
  "\<lambda>bs. case dyn_enc_varint bs of (n, x) \<Rightarrow> if n = int (length bs) then Some x else None"
  "\<lambda>x. - (2 ^ 63) \<le> x \<and> x < 2 ^ 63"
  using varint_put [where r = "[]"] by unfold_locales simp

section \<open>Every buffer\<close>

lemma or_less_64: "x < 2 ^ 64 \<Longrightarrow> y < 2 ^ 64 \<Longrightarrow> x OR y < (2 :: nat) ^ 64"
  by (metis take_bit_nat_eq_self_iff take_bit_or)

lemma uvarint_loop_range:
  "x < 2 ^ 64 \<Longrightarrow> i \<le> 10 \<Longrightarrow>
     uvarint_loop i s x bs = (0, 0) \<and> length bs \<le> 10 - i \<and> list_all (\<lambda>b. \<not> b < 0x80) bs \<or>
     (\<exists>n v. uvarint_loop i s x bs = (int n, v) \<and> i < n \<and> n \<le> 10 \<and> n \<le> i + length bs \<and> v < 2 ^ 64) \<or>
     uvarint_loop i s x bs \<in> {(- 10, 0), (- 11, 0)}"
proof (induction bs arbitrary: i s x)
  case (Cons b bs)
  show ?case
  proof (cases "i = 10 \<or> b < 0x80")
    case True
    then show ?thesis using Cons.prems or_less_64 [OF Cons.prems(1) u64_less, of "push_bit s (unat b)"]
      by (auto simp: DYN_ENC_MAX_VARINT_LEN_def intro!: exI [of _ "Suc i"])
  next
    case False
    let ?x = "x OR u64 (push_bit s (unat (b AND 0x7f)))"
    have "?x < 2 ^ 64" by (rule or_less_64 [OF Cons.prems(1) u64_less])
    moreover have "uvarint_loop i s x (b # bs) = uvarint_loop (i + 1) (s + 7) ?x bs"
      using False by (simp add: DYN_ENC_MAX_VARINT_LEN_def)
    ultimately show ?thesis using Cons.IH [of ?x "i + 1" "s + 7"] Cons.prems(2) False by auto
  qed
qed simp

end
