(* ===== verification/Dyna_EncodingApi.thy ===== *)
theory Dyna_EncodingApi
  imports Dyna_Ascii85 Dyna_Varint
begin

text \<open>
  The exported functions of \<^verbatim>\<open>dyna:encoding\<close>: decoding what was encoded gives the bytes back, and no
  decoder writes past the buffer it allocates.
\<close>

section \<open>Capacities\<close>

lemma hex_pairs_length: "hex_pairs s = Some bs \<Longrightarrow> length bs = length s div 2"
  by (induction s arbitrary: bs rule: hex_pairs.induct) (auto split: option.splits)

lemma b64_blocks_length: "b64_blocks s = Some bs \<Longrightarrow> length bs \<le> 3 * (length s div 4)"
proof (induction s arbitrary: bs rule: b64_blocks.induct)
  case (1 c0 c1 c2 c3 r)
  then obtain us ws where "b64_blocks r = Some us" "bs = ws @ us" "length ws \<le> 3"
    by (auto simp: Let_def split: option.splits if_splits)
  moreover have "length (c0 # c1 # c2 # c3 # r) div 4 = length r div 4 + 1" by simp
  moreover have "length us \<le> 3 * (length r div 4)"
    using 1 calculation(1) by (auto simp: Let_def split: option.splits)
  ultimately show ?case by simp
qed auto

lemma b32_block_length: "b32_block tab l blk = Some bs \<Longrightarrow> length bs \<le> 5"
  by (auto simp: b32_block_def Let_def split: option.splits if_splits)

lemma b32_blocks_length: "b32_blocks tab s = Some bs \<Longrightarrow> length s mod 8 = 0 \<Longrightarrow> length bs \<le> 5 * (length s div 8)"
proof (induction s arbitrary: bs rule: length_induct)
  case (1 s)
  show ?case
  proof (cases "s = []")
    case True
    then show ?thesis using "1.prems" by (simp add: b32_Nil)
  next
    case False
    obtain xs ys where x: "b32_block tab (length s = 8) (take 8 s) = Some xs" "b32_blocks tab (drop 8 s) = Some ys" "bs = xs @ ys"
      using "1.prems"(1) False by (subst (asm) b32_blocks.simps) (auto split: option.splits)
    have l: "8 \<le> length s" using False "1.prems"(2) by (metis length_0_conv mod_less not_le)
    then obtain m where m: "length s = m + 8" by (metis add.commute le_Suc_ex)
    have "length (drop 8 s) < length s" "length (drop 8 s) mod 8 = 0" using m "1.prems"(2) by simp_all
    then have "length ys \<le> 5 * (length (drop 8 s) div 8)" by (intro "1.IH" [rule_format, OF _ x(2)])
    then show ?thesis using b32_block_length [OF x(1)] x(3) m by simp
  qed
qed

lemma b85_loop_length:
  "b85_loop v nb out s = Some (v', nb', out') \<Longrightarrow> length out' + 4 * nb' \<le> length out + 4 * nb + 4 * length s"
proof (induction v nb out s rule: b85_loop.induct)
  case (2 v nb out b s)
  then show ?case by (auto simp: Let_def split: if_splits)
qed simp

lemma b85_decode_length: "dyn_enc_b85_decode s = Some bs \<Longrightarrow> length bs \<le> 4 * length s"
  using b85_loop_length [of 0 0 "[]" s]
  by (fastforce simp: dyn_enc_b85_decode_def Let_def split: option.splits if_splits)



section \<open>Round trips\<close>

lemma b85_encode_length: "length (dyn_enc_b85_encode data) \<le> (length data + 3) div 4 * 5"
proof (induction data rule: chunk4_induct)
  case (Chunk data)
  have "length (dyn_enc_b85_encode data) \<le> 5 + length (dyn_enc_b85_encode (drop 4 data))"
    unfolding b85_encode_step [OF Chunk.hyps(1)] by (auto simp: length_b85_digits)
  also have "\<dots> \<le> 5 + (length (drop 4 data) + 3) div 4 * 5" using Chunk.IH by simp
  also have "\<dots> = ((length (drop 4 data) + 3) div 4 + 1) * 5" by simp
  also have "(length (drop 4 data) + 3) div 4 + 1 = (length data + 3) div 4"
  proof (cases "4 \<le> length data")
    case True
    then obtain m where "length data = m + 4" by (metis add.commute le_Suc_ex)
    then show ?thesis by simp
  next
    case False
    moreover have "0 < length data" using Chunk.hyps(1) by simp
    ultimately have "(length data + 3) div 4 = 1" by (intro div_nat_eqI) (simp_all add: Suc_leI)
    then show ?thesis using False by simp
  qed
  finally show ?case .
qed (simp add: b85_encode_Nil)

text \<open>
  For an argument whose bytes are \<open>bs\<close>, \<open>hexEncode\<close> returns a text of twice as many characters, and
  \<open>hexDecode\<close> maps this text back to the bytes.
\<close>

theorem hex_round_trip:
  assumes "dyn_enc_bytes v = Inr bs"
  shows "\<exists>t. dyn_enc_hex_encode v True = Inr (JStr t) \<and> length t = length bs * 2 \<and>
    dyn_enc_hex_decode (Inr t) True = Inr (JBytes bs)"
  using assms hex.dec_enc [of bs] by (simp add: dyn_enc_hex_encode_def dyn_enc_hex_decode_def hex_encode_length)

theorem hex_round_trip_witness:
  "\<exists>t. dyn_enc_hex_encode (EncStr (Inr ''abc'')) True = Inr (JStr t) \<and>
     dyn_enc_hex_decode (Inr t) True = Inr (JBytes (map of_char ''abc''))"
  using hex_round_trip [of "EncStr (Inr ''abc'')" "map of_char ''abc''"] by (auto simp: dyn_enc_bytes_def)

text \<open>
  C24. \<open>base64Encode\<close> returns exactly the \<open>4 * ((n + 2) / 3)\<close> characters it allocates for \<open>n\<close> bytes,
  and \<open>base64Decode\<close> maps the text back to the bytes, whatever the padding.
\<close>

theorem base64_round_trip:
  assumes "dyn_enc_bytes v = Inr bs"
  shows "\<exists>t. dyn_enc_base64_encode v True = Inr (JStr t) \<and> length t = 4 * ((length bs + 2) div 3) \<and>
    dyn_enc_base64_decode (Inr t) True = Inr (JBytes bs)"
  using assms b64.dec_enc [of bs] by (simp add: dyn_enc_base64_encode_def dyn_enc_base64_decode_def b64_encode_length)

theorem base64_round_trip_witness:
  "\<exists>t. dyn_enc_base64_encode (EncStr (Inr ''foob'')) True = Inr (JStr t) \<and>
     dyn_enc_base64_decode (Inr t) True = Inr (JBytes (map of_char ''foob''))"
  using base64_round_trip [of "EncStr (Inr ''foob'')" "map of_char ''foob''"] by (auto simp: dyn_enc_bytes_def)

text \<open>
  The text of \<open>base64UrlEncode\<close> holds no character that is special in a URL (no plus sign, slash
  or padding), and \<open>base64UrlDecode\<close> maps it back to the bytes.
\<close>

theorem base64url_round_trip:
  assumes "dyn_enc_bytes v = Inr bs"
  shows "\<exists>t. dyn_enc_base64url_encode v True = Inr (JStr t) \<and>
    CHR ''+'' \<notin> set t \<and> CHR ''/'' \<notin> set t \<and> CHR ''='' \<notin> set t \<and>
    dyn_enc_base64url_decode (Inr t) True True = Inr (JBytes bs)"
proof -
  have "CHR ''+'' \<notin> set (url_translate t) \<and> CHR ''/'' \<notin> set (url_translate t) \<and> CHR ''='' \<notin> set (url_translate t)" for t
    by (induction t) auto
  then show ?thesis using assms b64url_round_trip [of bs]
    by (simp add: dyn_enc_base64url_encode_def b64url_encode_def)
qed

theorem base64url_round_trip_witness:
  "\<exists>t. dyn_enc_base64url_encode (EncStr (Inr ''foob'')) True = Inr (JStr t) \<and> CHR ''='' \<notin> set t \<and>
     dyn_enc_base64url_decode (Inr t) True True = Inr (JBytes (map of_char ''foob''))"
  using base64url_round_trip [of "EncStr (Inr ''foob'')" "map of_char ''foob''"] by (auto simp: dyn_enc_bytes_def)

text \<open>
  C23. For both base32 alphabets, the encoder returns exactly the \<open>((n + 4) / 5) * 8\<close> characters it
  allocates, and the decoder of the same alphabet maps the text back to the bytes.
\<close>

theorem base32_round_trip:
  assumes "dyn_enc_bytes v = Inr bs"
  shows "\<exists>t. dyn_enc_base32_encode k v True = Inr (JStr t) \<and> length t = (length bs + 4) div 5 * 8 \<and>
    dyn_enc_base32_decode k (Inr t) True = Inr (JBytes bs)"
  using assms b32.dec_enc [where x = bs and k = k] by (simp add: dyn_enc_base32_encode_def dyn_enc_base32_decode_def b32_encode_length)

theorem base32_round_trip_witness:
  "\<exists>t. dyn_enc_base32_encode DYN_B32_HEX (EncStr (Inr ''foobar'')) True = Inr (JStr t) \<and>
     dyn_enc_base32_decode DYN_B32_HEX (Inr t) True = Inr (JBytes (map of_char ''foobar''))"
  using base32_round_trip [of "EncStr (Inr ''foobar'')" "map of_char ''foobar''" DYN_B32_HEX] by (auto simp: dyn_enc_bytes_def)

text \<open>
  C22. \<open>base85Encode\<close> writes at most the \<open>((n + 3) / 4) * 5\<close> characters it allocates, and \<open>base85Decode\<close>
  maps the text back to the bytes: zero groups, short final groups and the filled digits included.
\<close>

theorem base85_round_trip:
  assumes "dyn_enc_bytes v = Inr bs"
  shows "\<exists>t. dyn_enc_base85_encode v True = Inr (JStr t) \<and> length t \<le> (length bs + 3) div 4 * 5 \<and>
    dyn_enc_base85_decode (Inr t) True = Inr (JBytes bs)"
  using assms b85.dec_enc [of bs] b85_encode_length [of bs]
  by (simp add: dyn_enc_base85_encode_def dyn_enc_base85_decode_def)

theorem base85_round_trip_witness:
  "\<exists>t. dyn_enc_base85_encode (EncStr (Inr ''foo'')) True = Inr (JStr t) \<and>
     dyn_enc_base85_decode (Inr t) True = Inr (JBytes (map of_char ''foo''))"
  using base85_round_trip [of "EncStr (Inr ''foo'')" "map of_char ''foo''"] by (auto simp: dyn_enc_bytes_def)

section \<open>Integers\<close>

lemma safe_floor:
  assumes "- rat_of_nat DYN_ENC_MAX_SAFE_INT \<le> r" "r \<le> rat_of_nat DYN_ENC_MAX_SAFE_INT"
  shows "- (2 ^ 63) \<le> \<lfloor>r\<rfloor>" "\<lfloor>r\<rfloor> < 2 ^ 63"
proof -
  have n: "int DYN_ENC_MAX_SAFE_INT < 2 ^ 63" by (simp add: DYN_ENC_MAX_SAFE_INT_def)
  have "rat_of_int (- int DYN_ENC_MAX_SAFE_INT) \<le> r" using assms(1) by (simp only: of_int_minus of_int_of_nat_eq)
  then have "- int DYN_ENC_MAX_SAFE_INT \<le> \<lfloor>r\<rfloor>" by (simp only: le_floor_iff)
  then show "- (2 ^ 63) \<le> \<lfloor>r\<rfloor>" using n by linarith
  have "\<lfloor>r\<rfloor> \<le> int DYN_ENC_MAX_SAFE_INT" using floor_mono [OF assms(2)] by (simp only: floor_of_nat)
  then show "\<lfloor>r\<rfloor> < 2 ^ 63" using n by linarith
qed

lemma to_u64_less: "dyn_enc_to_u64 v = Inr x \<Longrightarrow> x < 2 ^ 64"
proof -
  assume a: "dyn_enc_to_u64 v = Inr x"
  consider i where "v = NumBig i" | e where "v = NumConv (Inl e)" | r where "v = NumConv (Inr (JsFin r))"
    | d where "v = NumConv (Inr d)" "\<forall>r. d \<noteq> JsFin r" by (metis num_arg.exhaust sum.exhaust)
  then show ?thesis
  proof cases
    case (1 i)
    then show ?thesis using a by (auto simp: dyn_enc_to_u64_def nat_less_iff)
  next
    case (2 e)
    then show ?thesis using a by (simp add: dyn_enc_to_u64_def)
  next
    case (3 r)
    then have r: "0 \<le> r" "r \<le> rat_of_nat DYN_ENC_MAX_SAFE_INT" "x = nat \<lfloor>r\<rfloor>"
      using a by (auto simp: dyn_enc_to_u64_def Let_def split: if_splits)
    then have "- rat_of_nat DYN_ENC_MAX_SAFE_INT \<le> r" by (meson neg_le_0_iff_le of_nat_0_le_iff order_trans)
    then have "\<lfloor>r\<rfloor> < 2 ^ 63" using safe_floor(2) r(2) by blast
    then have "\<lfloor>r\<rfloor> < 2 ^ 64" by (rule less_trans) simp
    moreover have "(0 :: int) < 2 ^ 64" by simp
    ultimately have "nat \<lfloor>r\<rfloor> < nat (2 ^ 64)" by (simp only: nat_mono_iff)
    then show ?thesis unfolding r(3) by (simp only: nat_power_eq nat_numeral)
  next
    case (4 d)
    then show ?thesis using a by (cases d) (auto simp: dyn_enc_to_u64_def Let_def)
  qed
qed

lemma to_i64_range: "dyn_enc_to_i64 v = Inr x \<Longrightarrow> - (2 ^ 63) \<le> x \<and> x < 2 ^ 63"
proof -
  assume a: "dyn_enc_to_i64 v = Inr x"
  consider i where "v = NumBig i" | e where "v = NumConv (Inl e)" | r where "v = NumConv (Inr (JsFin r))"
    | d where "v = NumConv (Inr d)" "\<forall>r. d \<noteq> JsFin r" by (metis num_arg.exhaust sum.exhaust)
  then show ?thesis
  proof cases
    case (1 i)
    have "0 \<le> (i + 2 ^ 63) mod 2 ^ 64" "(i + 2 ^ 63) mod 2 ^ 64 < (2 :: int) ^ 64" by simp_all
    then show ?thesis using a 1 by (auto simp: dyn_enc_to_i64_def int64_wrap_def)
  next
    case (2 e)
    then show ?thesis using a by (simp add: dyn_enc_to_i64_def)
  next
    case (3 r)
    then have "- rat_of_nat DYN_ENC_MAX_SAFE_INT \<le> r" "r \<le> rat_of_nat DYN_ENC_MAX_SAFE_INT" "x = \<lfloor>r\<rfloor>"
      using a by (auto simp: dyn_enc_to_i64_def Let_def split: if_splits)
    then show ?thesis using safe_floor by blast
  next
    case (4 d)
    then show ?thesis using a by (cases d) (auto simp: dyn_enc_to_i64_def Let_def)
  qed
qed

text \<open>
  \<open>putUvarint\<close> of a number or BigInt that converts to the 64-bit value \<open>x\<close> returns one to ten
  bytes. \<open>uvarint\<close> of a view that starts with these bytes, whatever follows them, returns \<open>x\<close> (as a
  Number when it is a safe integer, as a BigInt otherwise) and the number of these bytes.
\<close>

theorem uvarint_round_trip:
  assumes "dyn_enc_to_u64 v = Inr x"
  shows "\<exists>bs. dyn_enc_put_uvarint_js v = Inr (JBytes bs) \<and> 0 < length bs \<and> length bs \<le> DYN_ENC_MAX_VARINT_LEN \<and>
    (\<forall>q r. dyn_enc_view q = Inr (bs @ r) \<longrightarrow>
       dyn_enc_uvarint_js q = Inr (dyn_enc_pair (dyn_enc_u64_to_js x) (int (length bs))))"
proof -
  have x: "x < 2 ^ 64" using assms by (rule to_u64_less)
  then have "x < 128 ^ Suc 9" by simp
  from put_uvarint_length [OF this] show ?thesis using assms uvarint_put [OF x]
    by (simp add: dyn_enc_put_uvarint_js_def dyn_enc_uvarint_js_def DYN_ENC_MAX_VARINT_LEN_def)
qed

definition view_of :: "8 word list \<Rightarrow> buf_query" where
  "view_of bs = \<lparr>bq_direct = Some bs, bq_typed = Inr (0, 0, 1), bq_base = Inr []\<rparr>"

lemma view_of_bytes: "dyn_enc_view (view_of bs) = Inr bs"
  by (simp add: dyn_enc_view_def view_of_def)

theorem uvarint_round_trip_witness:
  "\<exists>bs. dyn_enc_put_uvarint_js (NumBig 300) = Inr (JBytes bs) \<and>
     dyn_enc_uvarint_js (view_of (bs @ [7])) = Inr (dyn_enc_pair (dyn_enc_u64_to_js 300) (int (length bs)))"
proof -
  have "dyn_enc_to_u64 (NumBig 300) = Inr 300" by (simp add: dyn_enc_to_u64_def)
  from uvarint_round_trip [OF this] view_of_bytes show ?thesis by blast
qed

text \<open>
  The signed counterpart: \<open>putVarint\<close> of a value that converts to the 64-bit integer \<open>x\<close>, read
  back by \<open>varint\<close>, for every \<open>x\<close> from the least to the greatest.
\<close>

theorem varint_round_trip:
  assumes "dyn_enc_to_i64 v = Inr x"
  shows "\<exists>bs. dyn_enc_put_varint_js v = Inr (JBytes bs) \<and> 0 < length bs \<and> length bs \<le> DYN_ENC_MAX_VARINT_LEN \<and>
    (\<forall>q r. dyn_enc_view q = Inr (bs @ r) \<longrightarrow>
       dyn_enc_varint_js q = Inr (dyn_enc_pair (dyn_enc_i64_to_js x) (int (length bs))))"
proof -
  have x: "- (2 ^ 63) \<le> x" "x < 2 ^ 63" using to_i64_range [OF assms] by blast+
  note z = put_varint_zigzag [OF x]
  then have "zigzag x < 128 ^ Suc 9" by simp
  from put_uvarint_length [OF this] show ?thesis using assms varint_put [OF x] z
    by (simp add: dyn_enc_put_varint_js_def dyn_enc_varint_js_def DYN_ENC_MAX_VARINT_LEN_def)
qed

theorem varint_round_trip_witness:
  "\<exists>bs. dyn_enc_put_varint_js (NumBig (- 9223372036854775808)) = Inr (JBytes bs) \<and>
     dyn_enc_varint_js (view_of (bs @ [])) = Inr (dyn_enc_pair (dyn_enc_i64_to_js (- 9223372036854775808)) (int (length bs)))"
proof -
  have "dyn_enc_to_i64 (NumBig (- 9223372036854775808)) = Inr (- 9223372036854775808)"
    by (simp add: dyn_enc_to_i64_def int64_wrap_def)
  from varint_round_trip [OF this] view_of_bytes show ?thesis by blast
qed

text \<open>
  On every byte string \<open>uvarint\<close> stops with one of its documented codes: 0 exactly when at most ten
  bytes ran out with their continuation bits all set, a positive count of at most ten bytes of the
  input with a 64-bit value, or the overflow codes -10 and -11.
\<close>

theorem uvarint_codes:
  "dyn_enc_uvarint buf = (0, 0) \<and> length buf \<le> 10 \<and> list_all (\<lambda>b. 0x80 \<le> b) buf \<or>
   (\<exists>n v. dyn_enc_uvarint buf = (int n, v) \<and> 0 < n \<and> n \<le> 10 \<and> n \<le> length buf \<and> v < 2 ^ 64) \<or>
   dyn_enc_uvarint buf \<in> {(- 10, 0), (- 11, 0)}"
  using uvarint_loop_range [of 0 0 0 buf] by (simp add: dyn_enc_uvarint_def not_less)

end
