(* ===== verification/Dyna_Path.thy ===== *)
theory Dyna_Path
  imports Dyna_Prelude
begin

text \<open>
  The module \<^verbatim>\<open>dyna:path\<close> of \<^verbatim>\<open>src/src/dyna-path.c\<close>: the segment normaliser with its output buffer
  and scan state, \<open>normalize\<close>, \<open>join\<close>, \<open>resolve\<close>, \<open>relative\<close>, and the lexical functions
  \<open>dirname\<close>, \<open>basename\<close> and \<open>extname\<close> with their backward index loops.

  C \<open>long\<close> indices that use \<open>-1\<close> as a marker are \<^typ>\<open>int\<close>. The arguments of a module function are
  the list \<open>argv\<close> of the values actually passed.
\<close>

section \<open>The normaliser\<close>

text \<open>The last position below \<open>n\<close> that holds \<open>c\<close>, or \<open>-1\<close>.\<close>

fun last_index :: "char \<Rightarrow> string \<Rightarrow> nat \<Rightarrow> int" where
  "last_index c s 0 = -1"
| "last_index c s (Suc k) = (if s ! k = c then int k else last_index c s k)"

text \<open>A \<open>..\<close> segment: the output buffer and the length of its last segment afterwards.\<close>

definition path_dotdot :: "bool \<Rightarrow> string \<Rightarrow> int \<Rightarrow> string \<times> int" where
  "path_dotdot allow_above_root res seg =
     (let kept = (if allow_above_root then (res @ (if length res > 0 then ''/'' else []) @ ''..'', 2) else (res, seg))
      in if length res < 2 \<or> seg \<noteq> 2 \<or> res ! (length res - 1) \<noteq> CHR ''.'' \<or> res ! (length res - 2) \<noteq> CHR ''.'' then
           (if length res > 2 then
              (let k = last_index (CHR ''/'') res (length res)
               in if k \<noteq> int (length res) - 1 then
                    (if k = -1 then ([], 0)
                     else (let res' = take (nat k) res
                           in (res', int (length res') - 1 - last_index (CHR ''/'') res' (length res'))))
                  else kept)
            else if length res = 2 \<or> length res = 1 then ([], 0)
            else kept)
         else kept)"

record norm_state =
  ns_res :: string
  ns_seg :: int
  ns_slash :: int
  ns_dots :: int

definition norm_init :: norm_state where
  "norm_init = \<lparr>ns_res = [], ns_seg = 0, ns_slash = -1, ns_dots = 0\<rparr>"

definition norm_step :: "string \<Rightarrow> bool \<Rightarrow> nat \<Rightarrow> char \<Rightarrow> norm_state \<Rightarrow> norm_state" where
  "norm_step path allow_above_root i code st =
     (if code = CHR ''/'' then
        (let (res, seg) =
           (if ns_slash st = int i - 1 \<or> ns_dots st = 1 then (ns_res st, ns_seg st)
            else if ns_slash st \<noteq> int i - 1 \<and> ns_dots st = 2 then
              path_dotdot allow_above_root (ns_res st) (ns_seg st)
            else
              (let seg_start = nat (ns_slash st + 1); seg_len = nat (int i - (ns_slash st + 1))
               in (ns_res st @ (if length (ns_res st) > 0 then ''/'' else []) @ take seg_len (drop seg_start path),
                   int seg_len)))
         in \<lparr>ns_res = res, ns_seg = seg, ns_slash = int i, ns_dots = 0\<rparr>)
      else if code = CHR ''.'' \<and> ns_dots st \<noteq> -1 then st\<lparr>ns_dots := ns_dots st + 1\<rparr>
      else st\<lparr>ns_dots := -1\<rparr>)"

text \<open>The state after the first \<open>k\<close> characters, and the flush of the last segment.\<close>

definition norm_scan :: "string \<Rightarrow> bool \<Rightarrow> nat \<Rightarrow> norm_state" where
  "norm_scan path allow_above_root k =
     foldl (\<lambda>st i. norm_step path allow_above_root i (path ! i) st) norm_init [0 ..< k]"

definition path_normalize_core :: "string \<Rightarrow> bool \<Rightarrow> string" where
  "path_normalize_core path allow_above_root =
     (let st = norm_scan path allow_above_root (length path)
      in if path \<noteq> [] \<and> path ! (length path - 1) = CHR ''/'' then ns_res st
         else ns_res (norm_step path allow_above_root (length path) (CHR ''/'') st))"

definition path_clean_impl :: "string \<Rightarrow> string" where
  "path_clean_impl p =
     (if length p = 0 then ''.''
      else
        (let is_abs = (p ! 0 = CHR ''/''); trailing_sep = (p ! (length p - 1) = CHR ''/'');
             core = path_normalize_core p (\<not> is_abs)
         in if length core = 0 then (if is_abs then ''/'' else if trailing_sep then ''./'' else ''.'')
            else (if is_abs then ''/'' else []) @ core @ (if trailing_sep then ''/'' else [])))"

section \<open>Joining and resolving\<close>

text \<open>Non-empty parts with one separator between two of them; \<open>first\<close> is the flag of the C loop.\<close>

fun path_concat :: "bool \<Rightarrow> string list \<Rightarrow> string" where
  "path_concat first [] = []"
| "path_concat first (p # ps) =
     (if length p = 0 then path_concat first ps
      else (if first then [] else ''/'') @ p @ path_concat False ps)"

fun root_index :: "string list \<Rightarrow> nat \<Rightarrow> int" where
  "root_index parts 0 = -1"
| "root_index parts (Suc i) =
     (if length (parts ! i) > 0 \<and> parts ! i ! 0 = CHR ''/'' then int i else root_index parts i)"

definition path_resolve_core :: "string list \<Rightarrow> string" where
  "path_resolve_core parts =
     (let root_idx = root_index parts (length parts);
          raw = (if root_idx = -1 then ''/'' @ path_concat False parts
                 else path_concat True (drop (nat root_idx) parts));
          core = path_normalize_core raw False
      in if length core = 0 then ''/'' else ''/'' @ core)"

definition path_resolve_one :: "string \<Rightarrow> string" where
  "path_resolve_one s = path_resolve_core [s]"

section \<open>Relative paths\<close>

text \<open>The comparison loop over the characters after the leading slash: where it stops, and the last
  common separator.\<close>

function common_loop :: "string \<Rightarrow> string \<Rightarrow> nat \<Rightarrow> nat \<Rightarrow> int \<Rightarrow> nat \<times> int" where
  "common_loop from_r to_r smallest i last_common_sep =
     (if i < smallest then
        (let fc = from_r ! (1 + i)
         in if fc \<noteq> to_r ! (1 + i) then (i, last_common_sep)
            else common_loop from_r to_r smallest (i + 1) (if fc = CHR ''/'' then int i else last_common_sep))
      else (i, last_common_sep))"
  by pat_completeness auto
termination
  by (relation "measure (\<lambda>(f, t, m, i, l). m - i)") auto

declare common_loop.simps [simp del]

definition relative_ups :: "string \<Rightarrow> nat \<Rightarrow> string" where
  "relative_ups from_r start =
     foldl (\<lambda>buf i. if i = length from_r \<or> from_r ! i = CHR ''/''
                    then (if length buf = 0 then ''..'' else buf @ ''/..'') else buf)
       [] [start ..< length from_r + 1]"

definition path_relative_impl :: "string \<Rightarrow> string \<Rightarrow> string" where
  "path_relative_impl from_r to_r =
     (if length from_r = length to_r \<and> from_r = to_r then []
      else
        (let from_l = length from_r - 1; to_l = length to_r - 1; smallest = min from_l to_l;
             (i, sep) = common_loop from_r to_r smallest 0 (-1);
             up = (\<lambda>sep. relative_ups from_r (nat (1 + sep + 1)) @ drop (nat (1 + sep)) to_r)
         in if i = smallest then
              (if to_l > smallest then
                 (if to_r ! (1 + i) = CHR ''/'' then drop (1 + i + 1) to_r
                  else if i = 0 then drop (1 + i) to_r
                  else up sep)
               else if from_l > smallest then
                 (if from_r ! (1 + i) = CHR ''/'' then up (int i)
                  else if i = 0 then up 0
                  else up sep)
               else up sep)
            else up sep))"

section \<open>Lexical functions\<close>

text \<open>The index where \<open>dirname\<close> ends, or \<open>-1\<close>: a scan from the end down to index 1.\<close>

fun dirname_loop :: "string \<Rightarrow> nat \<Rightarrow> bool \<Rightarrow> int" where
  "dirname_loop p 0 matched_slash = -1"
| "dirname_loop p (Suc i) matched_slash =
     (if i \<ge> 1 then
        (if p ! i = CHR ''/'' then (if \<not> matched_slash then int i else dirname_loop p i matched_slash)
         else dirname_loop p i False)
      else -1)"

definition path_dirname :: "string \<Rightarrow> string" where
  "path_dirname p =
     (if length p = 0 then ''.''
      else
        (let has_root = (p ! 0 = CHR ''/''); end' = dirname_loop p (length p) True
         in if end' = -1 then (if has_root then ''/'' else ''.'')
            else if has_root \<and> end' = 1 then ''//''
            else take (nat end') p))"

text \<open>Start and end of the last segment: the loop of \<open>basename\<close> without a suffix.\<close>

fun basename_loop :: "string \<Rightarrow> nat \<Rightarrow> bool \<Rightarrow> int \<Rightarrow> int \<times> int" where
  "basename_loop p 0 matched_slash end' = (0, end')"
| "basename_loop p (Suc i) matched_slash end' =
     (if p ! i = CHR ''/'' then
        (if \<not> matched_slash then (int i + 1, end') else basename_loop p i matched_slash end')
      else if end' = -1 then basename_loop p i False (int i + 1)
      else basename_loop p i matched_slash end')"

text \<open>The loop with a suffix, over \<open>(matched_slash, first_non_slash_end, ext_idx, end)\<close>; it returns
  the start, \<open>first_non_slash_end\<close> and the end.\<close>

fun suffix_loop :: "string \<Rightarrow> string \<Rightarrow> nat \<Rightarrow> bool \<Rightarrow> int \<Rightarrow> int \<Rightarrow> int \<Rightarrow> int \<times> int \<times> int" where
  "suffix_loop p suf 0 matched_slash fnse ext_idx end' = (0, fnse, end')"
| "suffix_loop p suf (Suc i) matched_slash fnse ext_idx end' =
     (if p ! i = CHR ''/'' then
        (if \<not> matched_slash then (int i + 1, fnse, end')
         else suffix_loop p suf i matched_slash fnse ext_idx end')
      else
        (let matched_slash' = (if fnse = -1 then False else matched_slash);
             fnse' = (if fnse = -1 then int i + 1 else fnse)
         in if ext_idx \<ge> 0 then
              (if p ! i = suf ! nat ext_idx then
                 suffix_loop p suf i matched_slash' fnse' (ext_idx - 1) (if ext_idx - 1 = -1 then int i else end')
               else suffix_loop p suf i matched_slash' fnse' (-1) fnse')
            else suffix_loop p suf i matched_slash' fnse' ext_idx end'))"

definition path_basename :: "string \<Rightarrow> string option \<Rightarrow> string" where
  "path_basename p ext =
     (case ext of
        Some suf \<Rightarrow>
          if length suf > 0 \<and> length suf \<le> length p then
            (if length suf = length p \<and> p = suf then []
             else
               (case suffix_loop p suf (length p) True (-1) (int (length suf) - 1) (-1) of
                  (start, fnse, end') \<Rightarrow>
                    (let e = (if start = end' then fnse else if end' = -1 then int (length p) else end')
                     in if e > start then take (nat (e - start)) (drop (nat start) p) else [])))
          else
            (case basename_loop p (length p) True (-1) of
               (start, e) \<Rightarrow> if e = -1 then [] else take (nat (e - start)) (drop (nat start) p))
      | None \<Rightarrow>
          (case basename_loop p (length p) True (-1) of
             (start, e) \<Rightarrow> if e = -1 then [] else take (nat (e - start)) (drop (nat start) p)))"

text \<open>The loop of \<open>extname\<close> over \<open>(matched_slash, start_dot, end, pre_dot_state)\<close>; it returns
  \<open>start_dot\<close>, \<open>start_part\<close>, \<open>end\<close> and \<open>pre_dot_state\<close>.\<close>

fun extname_loop :: "string \<Rightarrow> nat \<Rightarrow> bool \<Rightarrow> int \<Rightarrow> int \<Rightarrow> int \<Rightarrow> int \<times> int \<times> int \<times> int" where
  "extname_loop p 0 matched_slash start_dot end' pre = (start_dot, 0, end', pre)"
| "extname_loop p (Suc i) matched_slash start_dot end' pre =
     (if p ! i = CHR ''/'' then
        (if \<not> matched_slash then (start_dot, int i + 1, end', pre)
         else extname_loop p i matched_slash start_dot end' pre)
      else
        (let matched_slash' = (if end' = -1 then False else matched_slash);
             end'' = (if end' = -1 then int i + 1 else end')
         in if p ! i = CHR ''.'' then
              (if start_dot = -1 then extname_loop p i matched_slash' (int i) end'' pre
               else extname_loop p i matched_slash' start_dot end'' (if pre \<noteq> 1 then 1 else pre))
            else extname_loop p i matched_slash' start_dot end'' (if start_dot \<noteq> -1 then -1 else pre)))"

definition path_extname :: "string \<Rightarrow> string" where
  "path_extname p =
     (case extname_loop p (length p) True (-1) (-1) 0 of
        (start_dot, start_part, e, pre) \<Rightarrow>
          if start_dot = -1 \<or> e = -1 \<or> pre = 0 \<or> (pre = 1 \<and> start_dot = e - 1 \<and> start_dot = start_part + 1)
          then []
          else take (nat (e - start_dot)) (drop (nat start_dot) p))"

section \<open>Module functions\<close>

abbreviation path_type_error :: "string \<Rightarrow> jserr" where
  "path_type_error name \<equiv> TypeError (''dyna:path: \"'' @ name @ ''\" argument must be a string'')"

text \<open>The coercion loop of the variadic functions stops at the first value that is no string.\<close>

fun path_parts :: "jsval list \<Rightarrow> string list res" where
  "path_parts [] = Inr []"
| "path_parts (v # vs) =
     (case v of
        JStr s \<Rightarrow> map_sum id (Cons s) (path_parts vs)
      | _ \<Rightarrow> Inl (path_type_error ''path''))"

definition dyn_path_join :: "jsval list \<Rightarrow> jsval res" where
  "dyn_path_join argv =
     (if length argv = 0 then Inr (JStr ''.'')
      else
        (case path_parts argv of
           Inl e \<Rightarrow> Inl e
         | Inr parts \<Rightarrow>
             if list_all (\<lambda>p. length p = 0) parts then Inr (JStr ''.'')
             else Inr (JStr (path_clean_impl (path_concat True parts)))))"

definition dyn_path_resolve :: "jsval list \<Rightarrow> jsval res" where
  "dyn_path_resolve argv = map_sum id (\<lambda>parts. JStr (path_resolve_core parts)) (path_parts argv)"

text \<open>The unary functions check that the first argument is a string.\<close>

definition path_unary :: "(string \<Rightarrow> jsval) \<Rightarrow> jsval list \<Rightarrow> jsval res" where
  "path_unary f argv = (case argv of JStr p # _ \<Rightarrow> Inr (f p) | _ \<Rightarrow> Inl (path_type_error ''path''))"

definition dyn_path_normalize :: "jsval list \<Rightarrow> jsval res" where
  "dyn_path_normalize = path_unary (\<lambda>p. JStr (path_clean_impl p))"

definition dyn_path_dirname :: "jsval list \<Rightarrow> jsval res" where
  "dyn_path_dirname = path_unary (\<lambda>p. JStr (path_dirname p))"

definition dyn_path_extname :: "jsval list \<Rightarrow> jsval res" where
  "dyn_path_extname = path_unary (\<lambda>p. JStr (path_extname p))"

definition dyn_path_is_absolute :: "jsval list \<Rightarrow> jsval res" where
  "dyn_path_is_absolute = path_unary (\<lambda>p. JBool (length p > 0 \<and> p ! 0 = CHR ''/''))"

definition dyn_path_basename :: "jsval list \<Rightarrow> jsval res" where
  "dyn_path_basename argv =
     (case argv of
        JStr p # rest \<Rightarrow>
          (case rest of
             [] \<Rightarrow> Inr (JStr (path_basename p None))
           | JUndef # _ \<Rightarrow> Inr (JStr (path_basename p None))
           | JStr suf # _ \<Rightarrow> Inr (JStr (path_basename p (Some suf)))
           | _ \<Rightarrow> Inl (path_type_error ''suffix''))
      | _ \<Rightarrow> Inl (path_type_error ''path''))"

definition dyn_path_relative :: "jsval list \<Rightarrow> jsval res" where
  "dyn_path_relative argv =
     (case argv of
        JStr from_s # rest \<Rightarrow>
          (case rest of
             JStr to_s # _ \<Rightarrow> Inr (JStr (path_relative_impl (path_resolve_one from_s) (path_resolve_one to_s)))
           | _ \<Rightarrow> Inl (path_type_error ''to''))
      | _ \<Rightarrow> Inl (path_type_error ''from''))"

end
