(* ===== verification/Dyna_PathNorm.thy ===== *)
theory Dyna_PathNorm
  imports Dyna_Path Dyna_Split
begin

text \<open>
  The normaliser of \<^verbatim>\<open>dyna:path\<close> against a stack of path segments: the scan with its byte buffer
  computes the stack, never needs more room than the input has, and is idempotent.
\<close>

section \<open>The stack of segments\<close>

abbreviation slash :: char where
  "slash \<equiv> CHR ''/''"

definition norm_push :: "bool \<Rightarrow> string list \<Rightarrow> string \<Rightarrow> string list" where
  "norm_push ab stk seg =
     (if seg = [] \<or> seg = ''.'' then stk
      else if seg = ''..'' then
        (if stk \<noteq> [] \<and> last stk \<noteq> ''..'' then butlast stk else if ab then stk @ [''..''] else stk)
      else stk @ [seg])"

definition norm_stack :: "bool \<Rightarrow> string \<Rightarrow> string list" where
  "norm_stack ab p = foldl (norm_push ab) [] (split_on slash p)"

definition good_seg :: "string \<Rightarrow> bool" where
  "good_seg s \<longleftrightarrow> s \<noteq> [] \<and> s \<noteq> ''.'' \<and> slash \<notin> set s"

lemma norm_push_noop [simp]: "norm_push ab stk [] = stk" "norm_push ab stk ''.'' = stk"
  by (simp_all add: norm_push_def)

lemma norm_push_good: "list_all good_seg stk \<Longrightarrow> slash \<notin> set seg \<Longrightarrow> list_all good_seg (norm_push ab stk seg)"
  by (auto simp: norm_push_def good_seg_def list_all_iff dest: in_set_butlastD)

lemma norm_fold_good:
  "list_all good_seg stk \<Longrightarrow> \<forall>s\<in>set segs. slash \<notin> set s \<Longrightarrow>
    list_all good_seg (foldl (norm_push ab) stk segs)"
  by (induction segs arbitrary: stk) (auto simp: norm_push_good)

lemma norm_stack_good: "list_all good_seg (norm_stack ab p)"
  unfolding norm_stack_def by (rule norm_fold_good) (auto dest: split_on_mem)

lemma norm_stack_snoc:
  assumes "q = [] \<or> last q = slash" "slash \<notin> set cur"
  shows "norm_stack ab (q @ cur) = norm_push ab (norm_stack ab q) cur"
proof (cases q rule: rev_cases)
  case (snoc q' c)
  then have "q = q' @ [slash]" using assms by simp
  then show ?thesis
    using split_on_append [of slash q' "[]"] assms(2) by (simp add: norm_stack_def)
qed (use assms in \<open>simp add: norm_stack_def\<close>)

lemma norm_stack_slash [simp]: "norm_stack ab (p @ [slash]) = norm_stack ab p"
  using split_on_append [of slash p "[]"] by (simp add: norm_stack_def)

section \<open>The buffer as a joined stack\<close>

abbreviation seg_len :: "string list \<Rightarrow> int" where
  "seg_len stk \<equiv> (if stk = [] then 0 else int (length (last stk)))"

lemma last_index_none: "n \<le> length s \<Longrightarrow> c \<notin> set (take n s) \<Longrightarrow> last_index c s n = -1"
proof (induction n)
  case (Suc n)
  then show ?case by (auto simp: take_Suc_conv_app_nth)
qed simp

lemma last_index_cong: "(\<And>i. i < n \<Longrightarrow> s ! i = t ! i) \<Longrightarrow> last_index c s n = last_index c t n"
  by (induction n) auto

lemma last_index_append:
  "c \<notin> set y \<Longrightarrow> last_index c (x @ c # y) (Suc (length x + length y)) = int (length x)"
proof (induction y rule: rev_induct)
  case (snoc d y)
  let ?n = "Suc (length x + length y)"
  have "last_index c (x @ c # y @ [d]) ?n = last_index c (x @ c # y) ?n"
    by (rule last_index_cong) (auto simp: nth_append nth_Cons')
  then have "last_index c (x @ c # y @ [d]) (Suc ?n) = int (length x)"
    using snoc by (subst last_index.simps(2)) (auto simp: nth_append simp del: last_index.simps)
  then show ?case by simp
qed (simp add: nth_append)

lemma last_index_join:
  assumes "list_all good_seg stk" "stk \<noteq> []"
  shows "int (length (join_on slash stk)) - 1 - last_index slash (join_on slash stk) (length (join_on slash stk))
    = int (length (last stk))"
proof (cases stk rule: rev_cases)
  case (snoc b l)
  then have l: "slash \<notin> set l" using assms by (simp add: good_seg_def)
  show ?thesis
  proof (cases "b = []")
    case True
    then show ?thesis using snoc l by (simp add: last_index_none)
  next
    case False
    then show ?thesis using snoc last_index_append [OF l, of "join_on slash b"] by (simp add: join_on_snoc)
  qed
qed (use assms in simp)

lemma two_dots: "length l = 2 \<Longrightarrow> l ! 1 = CHR ''.'' \<Longrightarrow> l ! 0 = CHR ''.'' \<Longrightarrow> l = ''..''"
  by (cases l rule: remdups_adj.cases) auto

lemma path_dotdot_join:
  assumes g: "list_all good_seg stk"
  shows "path_dotdot ab (join_on slash stk) (seg_len stk) =
    (join_on slash (norm_push ab stk ''..''), seg_len (norm_push ab stk ''..''))"
proof (cases stk rule: rev_cases)
  case (snoc b l)
  let ?r = "join_on slash stk"
  have l: "l \<noteq> []" "slash \<notin> set l" and b: "list_all good_seg b"
    using g snoc by (simp_all add: good_seg_def)
  have r: "?r = (if b = [] then l else join_on slash b @ slash # l)"
    by (simp add: snoc join_on_snoc)
  show ?thesis
  proof (cases "l = ''..''")
    case True
    then have "?r ! (length ?r - 1) = CHR ''.''" "?r ! (length ?r - 2) = CHR ''.''" "2 \<le> length ?r"
      using r by (auto simp: nth_append)
    then show ?thesis
      using True snoc join_on_snoc [of slash stk "''..''"] by (auto simp: path_dotdot_def Let_def norm_push_def)
  next
    case False
    have last: "?r ! (length ?r - Suc j) = l ! (length l - Suc j)" if "j < length l" for j
      using r that by (auto simp: nth_append nth_Cons')
    have er: "length ?r < 2 \<or> seg_len stk \<noteq> 2 \<or> ?r ! (length ?r - 1) \<noteq> CHR ''.'' \<or> ?r ! (length ?r - 2) \<noteq> CHR ''.''"
    proof (rule ccontr)
      assume a: "\<not> ?thesis"
      then have "length l = 2" using snoc by simp
      then have "l = ''..''" using a last [of 0] last [of 1] by (intro two_dots) (auto simp: numeral_2_eq_2)
      with False show False by simp
    qed
    have p: "norm_push ab stk ''..'' = b" using snoc False by (simp add: norm_push_def)
    show ?thesis
    proof (cases "b = []")
      case True
      have "last_index slash ?r (length ?r) = -1" using True r l by (simp add: last_index_none)
      moreover have "length ?r > 2 \<or> length ?r = 2 \<or> length ?r = 1"
        using True r l by (cases l rule: remdups_adj.cases) auto
      ultimately show ?thesis using er by (auto simp: path_dotdot_def p True Let_def)
    next
      case nb: False
      then have jb: "join_on slash b \<noteq> []" using b by (auto simp: join_on_eq_Nil list_all_iff good_seg_def)
      have k: "last_index slash ?r (length ?r) = int (length (join_on slash b))"
        using last_index_append [OF l(2), of "join_on slash b"] nb r by simp
      have "length ?r > 2" using jb l nb r by (cases l; cases "join_on slash b") auto
      moreover have "int (length (join_on slash b)) \<noteq> int (length ?r) - 1" using l nb r by simp
      moreover have "take (length (join_on slash b)) ?r = join_on slash b" using nb r by simp
      ultimately show ?thesis
        using er last_index_join [OF b nb] nb by (simp add: path_dotdot_def k p Let_def)
    qed
  qed
qed (auto simp: path_dotdot_def norm_push_def)

section \<open>The scan\<close>

definition dots_of :: "string \<Rightarrow> int" where
  "dots_of cur = (if set cur \<subseteq> {CHR ''.''} then int (length cur) else -1)"

lemma dots_of_iff:
  "dots_of cur = 1 \<longleftrightarrow> cur = ''.''" "dots_of cur = 2 \<longleftrightarrow> cur = ''..''" "dots_of cur = 0 \<longleftrightarrow> cur = []"
  by (auto simp: dots_of_def length_Suc_conv numeral_2_eq_2)

lemma dots_of_snoc:
  "dots_of (cur @ [c]) = (if c = CHR ''.'' \<and> dots_of cur \<noteq> -1 then dots_of cur + 1 else -1)"
  by (auto simp: dots_of_def)

text \<open>After \<open>k\<close> characters, split into the part \<open>q\<close> up to the last slash and the current segment.\<close>

definition norm_inv :: "string \<Rightarrow> bool \<Rightarrow> nat \<Rightarrow> norm_state \<Rightarrow> bool" where
  "norm_inv path ab k st \<longleftrightarrow>
     (\<exists>q cur. take k path = q @ cur \<and> slash \<notin> set cur \<and> (q = [] \<or> last q = slash) \<and>
        st = \<lparr>ns_res = join_on slash (norm_stack ab q), ns_seg = seg_len (norm_stack ab q),
              ns_slash = int (length q) - 1, ns_dots = dots_of cur\<rparr>)"

lemma norm_step_slash:
  assumes "norm_inv path ab k st" "k \<le> length path"
  shows "norm_step path ab k slash st =
    \<lparr>ns_res = join_on slash (norm_stack ab (take k path)), ns_seg = seg_len (norm_stack ab (take k path)),
     ns_slash = int k, ns_dots = 0\<rparr>"
proof -
  obtain q cur where d: "take k path = q @ cur" "slash \<notin> set cur" "q = [] \<or> last q = slash"
    and st: "st = \<lparr>ns_res = join_on slash (norm_stack ab q), ns_seg = seg_len (norm_stack ab q),
              ns_slash = int (length q) - 1, ns_dots = dots_of cur\<rparr>"
    using assms(1) by (auto simp: norm_inv_def)
  have k: "k = length q + length cur"
    using d(1) assms(2) by (metis length_append length_take min.absorb2)
  have s: "norm_stack ab (take k path) = norm_push ab (norm_stack ab q) cur"
    using d norm_stack_snoc by simp
  have cur: "take (length cur) (drop (length q) path) = cur"
    using arg_cong [OF d(1), of "drop (length q)"] k by (simp add: drop_take)
  consider "cur = [] \<or> cur = ''.''" | "cur = ''..''" | "cur \<noteq> []" "cur \<noteq> ''.''" "cur \<noteq> ''..''" by blast
  then show ?thesis
  proof cases
    case 1
    then have "int (length q) - 1 = int k - 1 \<or> dots_of cur = 1" "norm_push ab (norm_stack ab q) cur = norm_stack ab q"
      using k by (auto simp: dots_of_iff)
    then show ?thesis unfolding s by (simp add: norm_step_def st)
  next
    case 2
    then show ?thesis
      unfolding s using k path_dotdot_join [OF norm_stack_good, of ab ab q] by (simp add: norm_step_def st dots_of_def)
  next
    case 3
    have "norm_push ab (norm_stack ab q) cur = norm_stack ab q @ [cur]"
      using 3 by (simp add: norm_push_def)
    moreover have "join_on slash (norm_stack ab q) = [] \<longleftrightarrow> norm_stack ab q = []"
      using norm_stack_good [of ab q] by (auto simp: join_on_eq_Nil list_all_iff good_seg_def)
    ultimately show ?thesis
      unfolding s using 3 k cur by (simp add: norm_step_def st dots_of_iff join_on_snoc)
  qed
qed

lemma norm_step_inv:
  assumes "norm_inv path ab k st" "k < length path"
  shows "norm_inv path ab (Suc k) (norm_step path ab k (path ! k) st)"
proof (cases "path ! k = slash")
  case True
  have "take (Suc k) path = (take k path @ [slash]) @ []"
    using assms(2) True by (simp add: take_Suc_conv_app_nth)
  moreover have "norm_step path ab k (path ! k) st =
      \<lparr>ns_res = join_on slash (norm_stack ab (take k path @ [slash])),
       ns_seg = seg_len (norm_stack ab (take k path @ [slash])),
       ns_slash = int (length (take k path @ [slash])) - 1, ns_dots = dots_of []\<rparr>"
    using norm_step_slash [OF assms(1)] assms(2) True by (simp add: dots_of_def)
  ultimately show ?thesis
    unfolding norm_inv_def by (intro exI [of _ "take k path @ [slash]"] exI [of _ "[]"]) simp
next
  case False
  obtain q cur where d: "take k path = q @ cur" "slash \<notin> set cur" "q = [] \<or> last q = slash"
    and st: "st = \<lparr>ns_res = join_on slash (norm_stack ab q), ns_seg = seg_len (norm_stack ab q),
              ns_slash = int (length q) - 1, ns_dots = dots_of cur\<rparr>"
    using assms(1) by (auto simp: norm_inv_def)
  have "take (Suc k) path = q @ cur @ [path ! k]"
    using assms(2) d(1) by (simp add: take_Suc_conv_app_nth)
  then show ?thesis
    unfolding norm_inv_def using d False
    by (intro exI [of _ q] exI [of _ "cur @ [path ! k]"]) (auto simp: norm_step_def st dots_of_snoc)
qed

lemma norm_scan_inv: "k \<le> length path \<Longrightarrow> norm_inv path ab k (norm_scan path ab k)"
proof (induction k)
  case 0
  then show ?case by (simp add: norm_inv_def norm_scan_def norm_init_def dots_of_def norm_stack_def)
next
  case (Suc k)
  then show ?case using norm_step_inv [of path ab k] by (simp add: norm_scan_def)
qed

lemma normalize_core_stack: "path_normalize_core path ab = join_on slash (norm_stack ab path)"
proof (cases "path \<noteq> [] \<and> path ! (length path - 1) = slash")
  case True
  then obtain q where q: "path = q @ [slash]" by (metis append_butlast_last_id last_conv_nth)
  then have "norm_scan path ab (length path) = norm_step path ab (length q) slash (norm_scan path ab (length q))"
    by (simp add: norm_scan_def nth_append)
  then show ?thesis
    using True q norm_step_slash [OF norm_scan_inv, of "length q" path ab]
    by (simp add: path_normalize_core_def)
next
  case False
  then show ?thesis
    using norm_step_slash [OF norm_scan_inv, of "length path" path ab] by (auto simp: path_normalize_core_def)
qed

section \<open>Room in the buffer\<close>

abbreviation weight :: "string list \<Rightarrow> nat" where
  "weight stk \<equiv> (\<Sum>x\<leftarrow>stk. length x + 1)"

lemma weight_butlast: "weight (butlast stk) \<le> weight stk"
  by (induction stk) auto

lemma weight_fold: "weight (foldl (norm_push ab) stk segs) \<le> weight stk + weight segs"
proof (induction segs arbitrary: stk)
  case (Cons s segs)
  have "weight (norm_push ab stk s) \<le> weight stk + (length s + 1)"
    using weight_butlast [of stk] by (auto simp: norm_push_def)
  then show ?case using Cons [of "norm_push ab stk s"] by simp
qed simp

lemma length_norm_stack: "length (join_on slash (norm_stack ab p)) \<le> length p"
proof -
  have "weight (norm_stack ab p) \<le> weight (split_on slash p)"
    using weight_fold [of ab "[]" "split_on slash p"] by (simp add: norm_stack_def)
  also have "\<dots> = length p + 1"
    using length_join_on [of "split_on slash p" slash] by simp
  finally show ?thesis
    using length_join_on [of "norm_stack ab p" slash] by (cases "norm_stack ab p = []") auto
qed

lemma length_norm_scan: "k \<le> length p \<Longrightarrow> length (ns_res (norm_scan p ab k)) \<le> k"
proof -
  assume k: "k \<le> length p"
  then obtain q cur where "take k p = q @ cur" "ns_res (norm_scan p ab k) = join_on slash (norm_stack ab q)"
    using norm_scan_inv [of k p ab] unfolding norm_inv_def by (metis norm_state.select_convs(1))
  moreover from this have "length q + length cur = k" using k by (metis length_append length_take min.absorb2)
  ultimately show ?thesis using length_norm_stack [of ab q] by simp
qed

section \<open>Normal stacks\<close>

text \<open>Proper segments, where \<open>..\<close> occurs only in front and only if the path may leave its start.\<close>

definition normal_stack :: "bool \<Rightarrow> string list \<Rightarrow> bool" where
  "normal_stack ab stk \<longleftrightarrow> list_all good_seg stk \<and>
     (\<forall>xs ys. stk = xs @ ''..'' # ys \<longrightarrow> ab \<and> (xs = [] \<or> last xs = ''..''))"

lemma normal_stack_Nil [simp]: "normal_stack ab []"
  by (simp add: normal_stack_def)

lemma normal_stack_snoc:
  "normal_stack ab (xs @ [x]) \<longleftrightarrow>
    normal_stack ab xs \<and> good_seg x \<and> (x = ''..'' \<longrightarrow> ab \<and> (xs = [] \<or> last xs = ''..''))"
proof -
  have "(\<exists>ys. xs @ [x] = us @ ''..'' # ys) \<longleftrightarrow> (us = xs \<and> x = ''..'') \<or> (\<exists>ys. xs = us @ ''..'' # ys)" for us
    by (auto simp: append_eq_append_conv2 Cons_eq_append_conv append_eq_Cons_conv)
  then show ?thesis unfolding normal_stack_def by (auto simp: list_all_iff)
qed

lemma normal_stack_single: "normal_stack ab [x] \<longleftrightarrow> good_seg x \<and> (x = ''..'' \<longrightarrow> ab)"
  using normal_stack_snoc [of ab "[]" x] by simp

lemma normal_stack_butlast: "normal_stack ab stk \<Longrightarrow> normal_stack ab (butlast stk)"
  by (cases stk rule: rev_cases) (auto simp: normal_stack_snoc)

lemma norm_push_normal: "normal_stack ab stk \<Longrightarrow> slash \<notin> set s \<Longrightarrow> normal_stack ab (norm_push ab stk s)"
  by (auto simp: norm_push_def normal_stack_snoc normal_stack_single normal_stack_butlast good_seg_def)

lemma norm_fold_normal:
  "normal_stack ab stk \<Longrightarrow> \<forall>s\<in>set segs. slash \<notin> set s \<Longrightarrow> normal_stack ab (foldl (norm_push ab) stk segs)"
  by (induction segs arbitrary: stk) (auto simp: norm_push_normal)

lemma norm_stack_normal: "normal_stack ab (norm_stack ab p)"
  unfolding norm_stack_def by (rule norm_fold_normal) (auto dest: split_on_mem)

lemma normal_stack_fix: "normal_stack ab stk \<Longrightarrow> foldl (norm_push ab) [] stk = stk"
  by (induction stk rule: rev_induct) (auto simp: normal_stack_snoc norm_push_def good_seg_def)

lemma norm_stack_join: "normal_stack ab stk \<Longrightarrow> norm_stack ab (join_on slash stk) = stk"
proof (cases "stk = []")
  case False
  assume n: "normal_stack ab stk"
  then have "split_on slash (join_on slash stk) = stk"
    using False by (intro split_join) (auto simp: normal_stack_def list_all_iff good_seg_def)
  then show ?thesis using normal_stack_fix [OF n] by (simp add: norm_stack_def)
qed (simp add: norm_stack_def)

lemma norm_stack_lead [simp]: "norm_stack ab (slash # p) = norm_stack ab p"
  by (simp add: norm_stack_def)

text \<open>First and last character of a joined stack are no slashes.\<close>

lemma join_good_ends:
  assumes "list_all good_seg stk" "stk \<noteq> []"
  shows "join_on slash stk \<noteq> []" "join_on slash stk ! 0 \<noteq> slash" "last (join_on slash stk) \<noteq> slash"
proof -
  have g: "good_seg (hd stk)" "good_seg (last stk)" using assms by (simp_all add: list_all_iff)
  show ne: "join_on slash stk \<noteq> []" using assms by (auto simp: join_on_eq_Nil list_all_iff good_seg_def)
  show "join_on slash stk ! 0 \<noteq> slash"
    using g assms(2) ne hd_join_on [of stk slash] by (metis good_seg_def hd_conv_nth hd_in_set)
  show "last (join_on slash stk) \<noteq> slash"
    using g assms(2) last_join_on [of stk slash] by (metis good_seg_def last_in_set)
qed

section \<open>Normalisation\<close>

text \<open>The result of \<open>normalize\<close> for a non-empty path, by its absolute and trailing markers.\<close>

definition clean_text :: "bool \<Rightarrow> bool \<Rightarrow> string list \<Rightarrow> string" where
  "clean_text is_abs trailing stk =
     (if stk = [] then (if is_abs then ''/'' else if trailing then ''./'' else ''.'')
      else (if is_abs then ''/'' else []) @ join_on slash stk @ (if trailing then ''/'' else []))"

lemma path_clean_text:
  "p \<noteq> [] \<Longrightarrow> path_clean_impl p = clean_text (p ! 0 = slash) (last p = slash) (norm_stack (p ! 0 \<noteq> slash) p)"
  using norm_stack_good [of "p ! 0 \<noteq> slash" p]
  by (auto simp: path_clean_impl_def clean_text_def Let_def normalize_core_stack last_conv_nth join_good_ends)

lemma clean_text_fix:
  assumes n: "normal_stack (\<not> is_abs) stk"
  shows "path_clean_impl (clean_text is_abs trailing stk) = clean_text is_abs trailing stk"
proof (cases "stk = []")
  case True
  then show ?thesis
    by (cases is_abs; cases trailing) (simp_all add: clean_text_def path_clean_text norm_stack_def)
next
  case False
  let ?t = "clean_text is_abs trailing stk"
  have g: "list_all good_seg stk" using n by (simp add: normal_stack_def)
  note e = join_good_ends [OF g False]
  have "?t \<noteq> []" "?t ! 0 = slash \<longleftrightarrow> is_abs" "last ?t = slash \<longleftrightarrow> trailing"
    using False e by (auto simp: clean_text_def nth_append)
  moreover have "norm_stack (\<not> is_abs) ?t = stk"
  proof -
    have "norm_stack (\<not> is_abs) ?t = norm_stack (\<not> is_abs) (join_on slash stk)"
      using False norm_stack_slash [of "\<not> is_abs" "slash # join_on slash stk"] by (auto simp: clean_text_def)
    then show ?thesis using norm_stack_join [OF n] by simp
  qed
  ultimately show ?thesis by (simp add: path_clean_text)
qed

lemma path_clean_idem: "path_clean_impl (path_clean_impl p) = path_clean_impl p"
proof (cases "p = []")
  case True
  then show ?thesis by (simp add: path_clean_impl_def normalize_core_stack norm_stack_def)
next
  case False
  then show ?thesis by (simp add: path_clean_text clean_text_fix norm_stack_normal)
qed



text \<open>
  \<open>normalize\<close> is idempotent: its result, as an argument, is returned unchanged.
\<close>

theorem normalize_idempotent:
  assumes "dyn_path_normalize argv = Inr r"
  shows "dyn_path_normalize [r] = Inr r"
  using assms by (auto simp: dyn_path_normalize_def path_unary_def path_clean_idem split: list.splits jsval.splits)

theorem normalize_idempotent_witness:
  "dyn_path_normalize [JStr ''/a/./b//../c/''] = Inr (JStr ''/a/c/'') \<and>
   dyn_path_normalize [JStr ''/a/c/''] = Inr (JStr ''/a/c/'')"
proof -
  have e: "dyn_path_normalize [JStr ''/a/./b//../c/''] = Inr (JStr ''/a/c/'')"
    by (simp add: dyn_path_normalize_def path_unary_def path_clean_text clean_text_def norm_stack_def norm_push_def)
  show ?thesis using e normalize_idempotent [OF e] by simp
qed

end
