(* ===== verification/Dyna_PathResolve.thy ===== *)
theory Dyna_PathResolve
  imports Dyna_PathNorm
begin

text \<open>
  Resolution as a walk: \<open>resolve\<close> is what a sequence of directory changes from the root computes,
  \<open>relative\<close> is the change that leads from one place to another, and \<open>dirname\<close> with
  \<open>basename\<close> take a path apart without changing the place it denotes.
\<close>

section \<open>Resolution as a sequence of directory changes\<close>

abbreviation path_abs :: "string \<Rightarrow> bool" where
  "path_abs p \<equiv> p \<noteq> [] \<and> p ! 0 = slash"

definition path_walk :: "string list \<Rightarrow> string \<Rightarrow> string list" where
  "path_walk stk p = foldl (norm_push False) stk (split_on slash p)"

definition path_cd :: "string list \<Rightarrow> string \<Rightarrow> string list" where
  "path_cd stk p = path_walk (if path_abs p then [] else stk) p"

lemma path_walk_Nil [simp]: "path_walk stk [] = stk"
  by (simp add: path_walk_def)

lemma path_walk_slash [simp]: "path_walk stk (p @ slash # q) = path_walk (path_walk stk p) q"
  by (simp add: path_walk_def)

lemma path_walk_lead [simp]: "path_walk stk (slash # q) = path_walk stk q"
  using path_walk_slash [of stk "[]" q] by simp

lemma norm_stack_walk: "norm_stack False p = path_walk [] p"
  by (simp add: norm_stack_def path_walk_def)

lemma path_walk_normal: "normal_stack False stk \<Longrightarrow> normal_stack False (path_walk stk p)"
  unfolding path_walk_def by (rule norm_fold_normal) (auto dest: split_on_mem)

lemma path_cd_normal: "normal_stack False stk \<Longrightarrow> normal_stack False (path_cd stk p)"
  by (simp add: path_cd_def path_walk_normal)

lemma path_walk_concat: "path_walk stk (x @ path_concat False ps) = foldl path_walk (path_walk stk x) ps"
proof (induction ps arbitrary: x stk)
  case (Cons p ps)
  then show ?case
    using path_walk_slash [of stk x "p @ path_concat False ps"] by (cases "p = []") simp_all
qed simp

lemma path_cd_rel: "\<forall>p\<in>set ps. \<not> path_abs p \<Longrightarrow> foldl path_cd stk ps = foldl path_walk stk ps"
  by (induction ps arbitrary: stk) (auto simp: path_cd_def)

lemma root_index_cases:
  assumes "n \<le> length parts"
  shows "(root_index parts n = -1 \<and> (\<forall>p\<in>set (take n parts). \<not> path_abs p)) \<or>
    (\<exists>i<n. root_index parts n = int i \<and> path_abs (parts ! i) \<and>
       (\<forall>p\<in>set (drop (Suc i) (take n parts)). \<not> path_abs p))"
  using assms
proof (induction n)
  case (Suc n)
  then have t: "take (Suc n) parts = take n parts @ [parts ! n]" by (simp add: take_Suc_conv_app_nth)
  show ?case
  proof (cases "path_abs (parts ! n)")
    case True
    then show ?thesis using Suc.prems t by (intro disjI2 exI [of _ n]) simp
  next
    case False
    then have r: "root_index parts (Suc n) = root_index parts n" by auto
    have "n \<le> length parts" using Suc.prems by simp
    from Suc.IH [OF this] consider "root_index parts n = -1" "\<forall>p\<in>set (take n parts). \<not> path_abs p"
      | i where "i < n" "root_index parts n = int i" "path_abs (parts ! i)"
          "\<forall>p\<in>set (drop (Suc i) (take n parts)). \<not> path_abs p" by blast
    then show ?thesis
    proof cases
      case 1
      then show ?thesis unfolding r t using False by auto
    next
      case (2 i)
      then show ?thesis unfolding r t using False Suc.prems by (intro disjI2 exI [of _ i]) auto
    qed
  qed
qed simp

lemma resolve_raw:
  "norm_stack False (if root_index parts (length parts) = -1 then slash # path_concat False parts
     else path_concat True (drop (nat (root_index parts (length parts))) parts)) = foldl path_cd [] parts"
proof -
  consider "root_index parts (length parts) = -1" "\<forall>p\<in>set parts. \<not> path_abs p"
    | i where "i < length parts" "root_index parts (length parts) = int i" "path_abs (parts ! i)"
        "\<forall>p\<in>set (drop (Suc i) parts). \<not> path_abs p"
    using root_index_cases [of "length parts" parts] by auto
  then show ?thesis
  proof cases
    case 1
    then show ?thesis
      using path_walk_concat [of "[]" "[]" parts] path_cd_rel [of parts "[]"] by (simp add: norm_stack_walk)
  next
    case (2 i)
    have d: "drop i parts = parts ! i # drop (Suc i) parts" using 2(1) by (simp add: Cons_nth_drop_Suc)
    have "foldl path_cd [] parts = foldl path_cd (foldl path_cd [] (take i parts)) (drop i parts)"
      by (metis append_take_drop_id foldl_append)
    also have "\<dots> = foldl path_cd (path_walk [] (parts ! i)) (drop (Suc i) parts)"
      using 2 by (simp add: d path_cd_def)
    also have "\<dots> = foldl path_walk (path_walk [] (parts ! i)) (drop (Suc i) parts)"
      using 2(4) by (rule path_cd_rel)
    finally show ?thesis using 2 by (simp add: d norm_stack_walk path_walk_concat)
  qed
qed

lemma resolve_core_cd: "path_resolve_core parts = slash # join_on slash (foldl path_cd [] parts)"
  using resolve_raw [of parts] by (auto simp: path_resolve_core_def Let_def normalize_core_stack)

lemma path_cd_fold_normal: "normal_stack False stk \<Longrightarrow> normal_stack False (foldl path_cd stk ps)"
  by (induction ps arbitrary: stk) (auto simp: path_cd_normal)

lemma path_walk_join: "normal_stack False stk \<Longrightarrow> path_walk [] (join_on slash stk) = stk"
  using norm_stack_join [of False stk] by (simp add: norm_stack_walk)

lemma path_cd_text: "normal_stack False stk \<Longrightarrow> path_cd s (slash # join_on slash stk) = stk"
  by (simp add: path_cd_def path_walk_join)

text \<open>
  C19. \<open>resolve\<close> computes the directory changes its arguments describe, from left to right and starting at
  the root, although the code looks for the last absolute part from the right and normalises one
  concatenated buffer. The result is absolute and resolves to itself.
\<close>

theorem resolve_is_walk:
  assumes "path_parts argv = Inr parts"
  shows "\<exists>stk. stk = foldl path_cd [] parts \<and> dyn_path_resolve argv = Inr (JStr (slash # join_on slash stk)) \<and>
    normal_stack False stk \<and> dyn_path_resolve [JStr (slash # join_on slash stk)] = dyn_path_resolve argv"
  using assms path_cd_text [OF path_cd_fold_normal, of "[]" "[]" parts] path_cd_fold_normal [of "[]" parts]
  by (simp add: dyn_path_resolve_def resolve_core_cd)

theorem resolve_is_walk_witness:
  "dyn_path_resolve [JStr ''x'', JStr ''/a/b'', JStr ''../c''] = Inr (JStr ''/a/c'')"
  using resolve_is_walk [of "[JStr ''x'', JStr ''/a/b'', JStr ''../c'']" "[''x'', ''/a/b'', ''../c'']"]
  by (simp add: path_cd_def path_walk_def norm_push_def)

end
