(* ===== verification/Dyna_PathRelative.thy ===== *)
theory Dyna_PathRelative
  imports Dyna_PathResolve
begin

text \<open>
  \<open>relative\<close>: the character comparison of two resolved paths finds their common segments, so that
  following the result from the first path leads to the second.
\<close>

section \<open>The comparison loop\<close>

lemma common_loop_prefix:
  assumes d: "x2 = [] \<or> y2 = [] \<or> hd x2 \<noteq> hd y2" and i: "i \<le> length u"
  shows "common_loop (slash # u @ x2) (slash # u @ y2) (min (length (u @ x2)) (length (u @ y2))) i (last_index slash u i)
    = (length u, last_index slash u (length u))"
  using i
proof (induction "length u - i" arbitrary: i)
  case 0
  then have [simp]: "i = length u" by simp
  have "(u @ x2) ! length u \<noteq> (u @ y2) ! length u" if "x2 \<noteq> []" "y2 \<noteq> []"
    using d that by (simp add: nth_append hd_conv_nth)
  then show ?case by (subst common_loop.simps) (auto simp: Let_def)
next
  case (Suc n)
  then have "i < length u" "n = length u - Suc i" by simp_all
  then show ?case
    using Suc(1) [of "Suc i"] by (subst common_loop.simps) (simp add: nth_append Let_def)
qed

lemma common_loop_start:
  assumes "x2 = [] \<or> y2 = [] \<or> hd x2 \<noteq> hd y2"
  shows "common_loop (slash # u @ x2) (slash # u @ y2) (min (length (u @ x2)) (length (u @ y2))) 0 (-1)
    = (length u, last_index slash u (length u))"
  using common_loop_prefix [OF assms, of 0 u] by simp

lemma common_prefix_ex: "\<exists>u x2 y2. x = u @ x2 \<and> y = u @ y2 \<and> (x2 = [] \<or> y2 = [] \<or> hd x2 \<noteq> hd y2)"
proof (induction x arbitrary: y)
  case (Cons a x)
  show ?case
  proof (cases "y \<noteq> [] \<and> hd y = a")
    case True
    then obtain y' where y: "y = a # y'" by (cases y) auto
    from Cons [of y'] obtain u x2 y2 where "x = u @ x2" "y' = u @ y2" "x2 = [] \<or> y2 = [] \<or> hd x2 \<noteq> hd y2" by blast
    then show ?thesis using y by (intro exI [of _ "a # u"] exI [of _ x2] exI [of _ y2]) simp
  next
    case False
    then show ?thesis by (intro exI [of _ "[]"] exI [of _ "a # x"] exI [of _ y]) auto
  qed
qed simp

section \<open>The upward steps\<close>

abbreviation dotdots :: "nat \<Rightarrow> string list" where
  "dotdots n \<equiv> replicate n ''..''"

lemma dotdots_Suc: "join_on slash (dotdots (Suc n)) = (if n = 0 then ''..'' else join_on slash (dotdots n) @ ''/..'')"
  using join_on_snoc [of slash "dotdots n" "''..''"] by (simp add: replicate_append_same)

lemma dotdots_empty [simp]: "join_on slash (dotdots n) = [] \<longleftrightarrow> n = 0"
  by (cases n) (auto simp: dotdots_Suc simp del: replicate_Suc)

lemma ups_prefix:
  assumes "k \<le> length w"
  shows "foldl (\<lambda>buf i. if i = length (pre @ w) \<or> (pre @ w) ! i = slash
      then (if length buf = 0 then ''..'' else buf @ ''/..'') else buf) [] [length pre ..< length pre + k]
    = join_on slash (dotdots (count_list (take k w) slash))"
  using assms
proof (induction k)
  case (Suc k)
  then have "take (Suc k) w = take k w @ [w ! k]" by (simp add: take_Suc_conv_app_nth)
  then show ?case
    using Suc by (auto simp: dotdots_Suc nth_append simp del: replicate_Suc)
qed simp

lemma relative_ups_count:
  "relative_ups (pre @ w) (length pre) = join_on slash (dotdots (Suc (count_list w slash)))"
  using ups_prefix [of "length w" w pre]
  by (simp add: relative_ups_def dotdots_Suc del: replicate_Suc)

lemma count_join: "G \<noteq> [] \<Longrightarrow> list_all good_seg G \<Longrightarrow> Suc (count_list (join_on slash G) slash) = length G"
  by (induction G rule: induct_list012) (auto simp: good_seg_def count_notin)

section \<open>The result as segments\<close>

text \<open>Unfolding of \<open>path_relative_impl\<close> at the end \<open>u\<close> of the common prefix.\<close>

lemma relative_impl_prefix:
  assumes "x2 = [] \<or> y2 = [] \<or> hd x2 \<noteq> hd y2" "x2 \<noteq> y2"
    and up: "up = (\<lambda>sep. relative_ups (slash # u @ x2) (nat (1 + sep + 1)) @ drop (nat (1 + sep)) (slash # u @ y2))"
  shows "path_relative_impl (slash # u @ x2) (slash # u @ y2) =
    (if x2 = [] then
       (if hd y2 = slash then tl y2 else if u = [] then y2 else up (last_index slash u (length u)))
     else if y2 = [] then
       up (if hd x2 = slash then int (length u) else if u = [] then 0 else last_index slash u (length u))
     else up (last_index slash u (length u)))"
  using assms(2) common_loop_start [OF assms(1), of u]
  by (cases x2; cases y2) (auto simp: path_relative_impl_def Let_def up nth_append min_def)

lemma hd_seg_prefix:
  assumes "list_all good_seg G" "G \<noteq> []" "join_on slash G = a @ slash # r" "slash \<notin> set a"
  shows "hd G = a"
proof -
  have "G = split_on slash (join_on slash G)"
    using assms(1,2) by (intro split_join [symmetric]) (auto simp: list_all_iff good_seg_def)
  then show ?thesis using assms(3,4) by (metis append_Cons hd_conv_nth list.sel(1) split_on_append split_on_single)
qed

lemma hd_seg_whole:
  assumes "list_all good_seg G" "G \<noteq> []" "slash \<notin> set (join_on slash G)"
  shows "hd G = join_on slash G"
proof -
  have "G = split_on slash (join_on slash G)"
    using assms(1,2) by (intro split_join [symmetric]) (auto simp: list_all_iff good_seg_def)
  then show ?thesis using assms(3) by (metis list.sel(1) split_on_single)
qed

text \<open>The common characters of two paths whose first segments differ contain no slash, and no
  slash follows them.\<close>

lemma differing_prefix:
  assumes F: "list_all good_seg F" "F \<noteq> []" and T: "list_all good_seg T" "T \<noteq> []" and ne: "hd F \<noteq> hd T"
    and d: "join_on slash F = u @ x2" "join_on slash T = u @ y2"
  shows "slash \<notin> set u" "x2 \<noteq> y2" "x2 = [] \<Longrightarrow> hd y2 \<noteq> slash \<and> u \<noteq> []" "y2 = [] \<Longrightarrow> hd x2 \<noteq> slash \<and> u \<noteq> []"
proof -
  have jF: "join_on slash F \<noteq> []" and jT: "join_on slash T \<noteq> []" using F T by (simp_all add: join_good_ends)
  show u: "slash \<notin> set u"
  proof
    assume "slash \<in> set u"
    then obtain a b where "u = a @ slash # b" "slash \<notin> set a" by (meson split_list_first)
    then have "hd F = a" "hd T = a" using hd_seg_prefix F T d by simp_all
    with ne show False by simp
  qed
  have eq: "hd F = u" if "x2 = []" using hd_seg_whole [OF F] d(1) u that by simp
  have eq': "hd T = u" if "y2 = []" using hd_seg_whole [OF T] d(2) u that by simp
  have sl: "hd F = u" if "x2 = slash # r" for r using hd_seg_prefix [OF F] d(1) u that by simp
  have sl': "hd T = u" if "y2 = slash # r" for r using hd_seg_prefix [OF T] d(2) u that by simp
  show "x2 \<noteq> y2"
  proof
    assume "x2 = y2"
    then have "F = T" using d F T split_join [of F slash] split_join [of T slash]
      by (metis good_seg_def list_all_iff)
    with ne show False by simp
  qed
  show "hd y2 \<noteq> slash \<and> u \<noteq> []" if "x2 = []"
    using that eq sl' ne eq' jF d(1) by (metis append_Nil2 list.collapse)
  show "hd x2 \<noteq> slash \<and> u \<noteq> []" if "y2 = []"
    using that eq' sl ne eq jT d(2) by (metis append_Nil2 list.collapse)
qed

lemma relative_segments:
  assumes F: "list_all good_seg (C @ F)" and T: "list_all good_seg (C @ T)"
    and d: "F = [] \<or> T = [] \<or> hd F \<noteq> hd T"
  shows "path_relative_impl (slash # join_on slash (C @ F)) (slash # join_on slash (C @ T)) =
    join_on slash (dotdots (length F) @ T)"
proof -
  let ?c = "if C = [] then [] else join_on slash C @ [slash]"
  have gF: "list_all good_seg F" and gT: "list_all good_seg T" and gC: "list_all good_seg C" using F T by simp_all
  have j: "join_on slash (C @ G) = ?c @ join_on slash G" if "G \<noteq> []" for G
    using that by (simp add: join_on_append)
  consider "F = []" "T = []" | "F = []" "T \<noteq> []" | "F \<noteq> []" "T = []" | "F \<noteq> []" "T \<noteq> []" by blast
  then show ?thesis
  proof cases
    case 1
    then show ?thesis by (simp add: path_relative_impl_def)
  next
    case 2
    have "path_relative_impl (slash # join_on slash C @ []) (slash # join_on slash C @ (if C = [] then join_on slash T else slash # join_on slash T))
        = join_on slash T"
      using join_good_ends [OF gT 2(2)]
      by (subst relative_impl_prefix [OF _ _ refl]) (auto simp: hd_conv_nth)
    then show ?thesis using 2 j [of T] by (cases "C = []") simp_all
  next
    case 3
    let ?x = "if C = [] then join_on slash F else slash # join_on slash F"
    have ends: "join_on slash F \<noteq> []" "hd (join_on slash F) \<noteq> slash"
      using join_good_ends [OF gF 3(1)] by (simp_all add: hd_conv_nth)
    have "relative_ups (slash # join_on slash C @ ?x) (length (slash # join_on slash C) + 1) = join_on slash (dotdots (length F))"
    proof (cases "C = []")
      case True
      then obtain a r where ar: "join_on slash F = a # r" "a \<noteq> slash" using ends by (cases "join_on slash F") auto
      then have "Suc (count_list r slash) = length F" using count_join [OF 3(1) gF] by simp
      then show ?thesis using relative_ups_count [of "[slash, a]" r] True ar by (simp del: replicate_Suc)
    next
      case False
      then show ?thesis
        using relative_ups_count [of "slash # join_on slash C @ [slash]" "join_on slash F"] count_join [OF 3(1) gF] by simp
    qed
    then have "path_relative_impl (slash # join_on slash C @ ?x) (slash # join_on slash C @ []) = join_on slash (dotdots (length F))"
      using ends by (subst relative_impl_prefix [OF _ _ refl]) (auto simp: nat_add_distrib)
    then show ?thesis using 3 j [of F] by (cases "C = []") simp_all
  next
    case 4
    obtain u x2 y2 where u: "join_on slash F = u @ x2" "join_on slash T = u @ y2" "x2 = [] \<or> y2 = [] \<or> hd x2 \<noteq> hd y2"
      using common_prefix_ex by blast
    note dp = differing_prefix [OF gF 4(1) gT 4(2) _ u(1,2)]
    have ne: "hd F \<noteq> hd T" using d 4 by simp
    define c where "c = ?c"
    have li: "last_index slash (c @ u) (length c + length u) = int (length c) - 1"
      using last_index_append [OF dp(1) [OF ne], of "join_on slash C"] dp(1) [OF ne]
      by (simp add: c_def last_index_none)
    have dr: "drop (length c) (slash # c @ w) = slash # w" for w by (simp add: c_def)
    have "relative_ups (slash # c @ u @ x2) (Suc (length c)) = join_on slash (dotdots (length F))"
      using relative_ups_count [of "slash # c" "u @ x2"] count_join [OF 4(1) gF] u(1) by (simp del: replicate_Suc)
    moreover have "nat (int (length c) + 1) = Suc (length c)" by simp
    ultimately have "path_relative_impl (slash # (c @ u) @ x2) (slash # (c @ u) @ y2) =
        join_on slash (dotdots (length F)) @ slash # u @ y2"
      using dp(2-4) [OF ne] u(3)
      by (subst relative_impl_prefix [OF _ _ refl]) (auto simp: li dr)
    then show ?thesis using 4 j [of F] j [of T] u by (simp add: join_on_append c_def)
  qed
qed

section \<open>Following the result\<close>

lemma normal_no_up: "normal_stack False stk \<Longrightarrow> s \<in> set stk \<Longrightarrow> good_seg s \<and> s \<noteq> ''..''"
  by (auto simp: normal_stack_def list_all_iff dest: split_list)

lemma pop_all: "normal_stack False (C @ F) \<Longrightarrow> foldl (norm_push ab) (C @ F) (dotdots (length F)) = C"
proof (induction F rule: rev_induct)
  case (snoc f F)
  then have "f \<noteq> ''..''" "normal_stack False (C @ F)"
    using normal_no_up [of "C @ F @ [f]" f] normal_stack_snoc [of False "C @ F" f] by simp_all
  then show ?case using snoc by (simp add: norm_push_def butlast_append)
qed simp

lemma push_all: "\<forall>s\<in>set T. good_seg s \<and> s \<noteq> ''..'' \<Longrightarrow> foldl (norm_push ab) C T = C @ T"
  by (induction T arbitrary: C) (auto simp: norm_push_def good_seg_def)

lemma follow_relative:
  assumes F: "normal_stack False (C @ F)" and T: "normal_stack False (C @ T)"
  shows "path_cd (C @ F) (join_on slash (dotdots (length F) @ T)) = C @ T"
proof (cases "dotdots (length F) @ T = []")
  case False
  let ?s = "dotdots (length F) @ T"
  have g: "list_all good_seg ?s"
    using T by (auto simp: normal_stack_def good_seg_def list_all_iff)
  then have "split_on slash (join_on slash ?s) = ?s"
    using False by (intro split_join) (auto simp: good_seg_def list_all_iff)
  moreover have "foldl (norm_push False) C T = C @ T"
    using normal_no_up [OF T] by (intro push_all) auto
  ultimately show ?thesis
    using join_good_ends [OF g False] pop_all [OF F] by (simp add: path_cd_def path_walk_def)
qed (simp add: path_cd_def)

lemma common_segments: "\<exists>C F' T'. F = C @ F' \<and> T = C @ T' \<and> (F' = [] \<or> T' = [] \<or> hd F' \<noteq> hd T')"
  by (rule common_prefix_ex)

text \<open>
  C18. \<open>relative(from, to)\<close> leads from the one to the other: resolving its result after \<open>from\<close> gives
  exactly what \<open>to\<close> resolves to, for every pair of strings.
\<close>

theorem relative_leads_to:
  "\<exists>r. dyn_path_relative [JStr from_s, JStr to_s] = Inr (JStr r) \<and>
     dyn_path_resolve [JStr from_s, JStr r] = dyn_path_resolve [JStr to_s]"
proof -
  let ?F = "path_cd [] from_s" and ?T = "path_cd [] to_s"
  obtain C F T where d: "?F = C @ F" "?T = C @ T" "F = [] \<or> T = [] \<or> hd F \<noteq> hd T"
    using common_segments by blast
  have n: "normal_stack False (C @ F)" "normal_stack False (C @ T)"
    using path_cd_normal [of "[]" from_s] path_cd_normal [of "[]" to_s] d by simp_all
  then have "path_relative_impl (path_resolve_one from_s) (path_resolve_one to_s) = join_on slash (dotdots (length F) @ T)"
    using relative_segments d by (simp add: path_resolve_one_def resolve_core_cd normal_stack_def)
  then show ?thesis
    using follow_relative [OF n] d by (simp add: dyn_path_relative_def dyn_path_resolve_def resolve_core_cd)
qed

end
