(* ===== verification/Dyna_PathLex.thy ===== *)
theory Dyna_PathLex
  imports Dyna_PathResolve
begin

text \<open>
  \<open>dirname\<close>, \<open>basename\<close> and \<open>extname\<close>: what their backward index loops find, in terms of the parts
  of a path.
\<close>

section \<open>The parts of a path\<close>

text \<open>A path is a directory part that ends in a slash, a last segment, and trailing slashes.\<close>

definition path_split :: "string \<Rightarrow> string \<Rightarrow> string \<Rightarrow> string \<Rightarrow> bool" where
  "path_split p pre seg sl \<longleftrightarrow> p = pre @ seg @ sl \<and> set sl \<subseteq> {slash} \<and> slash \<notin> set seg \<and>
     (pre = [] \<or> last pre = slash) \<and> (seg = [] \<longrightarrow> pre = [])"

lemma path_split_ex: "\<exists>pre seg sl. path_split p pre seg sl"
proof -
  let ?s = "takeWhile (\<lambda>c. c = slash) (rev p)" and ?r = "dropWhile (\<lambda>c. c = slash) (rev p)"
  have p: "p = rev ?r @ rev ?s" by (metis rev_append rev_rev_ident takeWhile_dropWhile_id)
  have sl: "set (rev ?s) \<subseteq> {slash}" by (auto dest: set_takeWhileD)
  show ?thesis
  proof (cases "slash \<in> set (rev ?r)")
    case True
    then obtain a b where ab: "rev ?r = a @ slash # b" "slash \<notin> set b" by (meson split_list_last)
    have "b \<noteq> []"
    proof
      assume "b = []"
      then have "?r = slash # rev a" using arg_cong [OF ab(1), of rev] by simp
      then show False by (metis (full_types) dropWhile_eq_Cons_conv)
    qed
    then have "path_split p (a @ [slash]) b (rev ?s)"
      using p ab sl by (simp add: path_split_def)
    then show ?thesis by blast
  next
    case False
    then have "path_split p [] (rev ?r) (rev ?s)" using p sl by (simp add: path_split_def)
    then show ?thesis by blast
  qed
qed

lemma trailing_nth: "set sl \<subseteq> {slash} \<Longrightarrow> k < length sl \<Longrightarrow> sl ! k = slash"
  by (meson nth_mem singletonD subsetD)

lemma seg_nth:
  assumes "slash \<notin> set seg" "j < length seg"
  shows "(pre @ seg @ sl) ! (length pre + j) = seg ! j \<and> seg ! j \<noteq> slash"
  using assms nth_mem [OF assms(2)] by (auto simp: nth_append simp del: nth_mem)

lemma pre_nth: "pre \<noteq> [] \<Longrightarrow> last pre = slash \<Longrightarrow> (pre @ w) ! (length pre - 1) = slash"
  by (simp add: nth_append last_conv_nth)

section \<open>basename\<close>

lemma basename_slashes:
  "set sl \<subseteq> {slash} \<Longrightarrow> k \<le> length sl \<Longrightarrow>
    basename_loop (x @ sl) (length x + k) True e = basename_loop (x @ sl) (length x) True e"
  by (induction k) (auto simp: trailing_nth)

lemma basename_seg:
  assumes "slash \<notin> set seg" "pre = [] \<or> last pre = slash" "e \<noteq> -1" "j \<le> length seg"
  shows "basename_loop (pre @ seg @ sl) (length pre + j) False e = (int (length pre), e)"
  using assms(4)
proof (induction j)
  case 0
  show ?case
  proof (cases "pre = []")
    case False
    then obtain n where "length pre = Suc n" by (cases pre) auto
    then show ?thesis using pre_nth [of pre "seg @ sl"] assms(2) False by simp
  qed simp
next
  case (Suc j)
  then show ?case using seg_nth [OF assms(1), of j pre sl] assms(3) by simp
qed

lemma basename_loop_split:
  assumes "path_split p pre seg sl"
  shows "basename_loop p (length p) True (-1) =
    (if seg = [] then (0, -1) else (int (length pre), int (length pre + length seg)))"
proof -
  have s: "p = (pre @ seg) @ sl" "set sl \<subseteq> {slash}" "slash \<notin> set seg" "pre = [] \<or> last pre = slash" "seg = [] \<longrightarrow> pre = []"
    using assms by (simp_all add: path_split_def)
  have "basename_loop p (length p) True (-1) = basename_loop p (length (pre @ seg)) True (-1)"
    using basename_slashes [OF s(2), of "length sl" "pre @ seg" "-1"] by (simp add: s(1) add.assoc)
  also have "\<dots> = (if seg = [] then (0, -1) else (int (length pre), int (length pre + length seg)))"
  proof (cases seg rule: rev_cases)
    case (snoc seg' c)
    then show ?thesis
      using seg_nth [OF s(3), of "length seg'" pre sl]
        basename_seg [OF s(3,4), of "int (length pre + length seg)" "length seg'" sl]
      by (simp add: s(1) ac_simps)
  qed (use s in simp)
  finally show ?thesis .
qed

lemma path_basename_split: "path_split p pre seg sl \<Longrightarrow> path_basename p None = seg"
  using basename_loop_split [of p pre seg sl] by (auto simp: path_basename_def path_split_def)

lemma path_basename_empty: "path_basename p (Some []) = path_basename p None"
  by (simp add: path_basename_def)

section \<open>basename with a suffix of the last segment\<close>

lemma suffix_slashes:
  "set sl \<subseteq> {slash} \<Longrightarrow> k \<le> length sl \<Longrightarrow>
    suffix_loop (x @ sl) suf (length x + k) True f e en = suffix_loop (x @ sl) suf (length x) True f e en"
  by (induction k) (auto simp: trailing_nth)

lemma suffix_rest:
  assumes "slash \<notin> set seg" "pre = [] \<or> last pre = slash" "f \<noteq> -1" "j \<le> length seg"
  shows "suffix_loop (pre @ seg @ sl) suf (length pre + j) False f (-1) en = (int (length pre), f, en)"
  using assms(4)
proof (induction j)
  case 0
  show ?case
  proof (cases "pre = []")
    case False
    then obtain n where "length pre = Suc n" by (cases pre) auto
    then show ?thesis using pre_nth [of pre "seg @ sl"] assms(2) False by simp
  qed simp
next
  case (Suc j)
  then show ?case using seg_nth [OF assms(1), of j pre sl] assms(3) by simp
qed

lemma suffix_match:
  assumes "slash \<notin> set (s @ suf)" "pre = [] \<or> last pre = slash" "f \<noteq> -1" "j < length suf"
  shows "suffix_loop (pre @ (s @ suf) @ sl) suf (length pre + (length s + Suc j)) False f (int j) en =
    (int (length pre), f, int (length pre + length s))"
  using assms(4)
proof (induction j arbitrary: en)
  case 0
  then show ?case
    using seg_nth [OF assms(1), of "length s" pre sl] suffix_rest [OF assms(1-3), of "length s" sl suf] assms(3)
    by (simp add: nth_append)
next
  case (Suc j)
  have "nat (1 + int j) = Suc j" "length pre + (length s + Suc (Suc j)) = Suc (length pre + (length s + Suc j))" by simp_all
  then show ?case
    using Suc seg_nth [OF assms(1), of "length s + Suc j" pre sl] assms(3)
    by (simp add: suffix_loop.simps(2) [of _ _ "Suc (length pre + (length s + j))"] nth_append del: suffix_loop.simps)
qed

lemma suffix_first:
  "p ! m \<noteq> slash \<Longrightarrow> p ! m = suf ! n \<Longrightarrow>
    suffix_loop p suf (Suc m) True (-1) (int n) en = suffix_loop p suf (Suc m) False (int m + 1) (int n) en"
  by simp

lemma path_basename_suffix:
  assumes "path_split p pre (s @ suf) sl" "s \<noteq> []" "suf \<noteq> []"
  shows "path_basename p (Some suf) = s"
proof -
  have d: "p = (pre @ s @ suf) @ sl" "set sl \<subseteq> {slash}" "slash \<notin> set (s @ suf)" "pre = [] \<or> last pre = slash"
    using assms by (simp_all add: path_split_def)
  obtain n where n: "length suf = Suc n" using assms(3) by (cases suf) auto
  let ?m = "length pre + (length s + n)"
  have "suffix_loop p suf (length p) True (-1) (int (length suf) - 1) (-1) = suffix_loop p suf (Suc ?m) True (-1) (int n) (-1)"
    using suffix_slashes [OF d(2), of "length sl" "pre @ s @ suf"] n by (simp add: d(1) add.assoc del: suffix_loop.simps)
  also have "\<dots> = suffix_loop p suf (Suc ?m) False (int ?m + 1) (int n) (-1)"
    using seg_nth [OF d(3), of "length s + n" pre sl] n by (intro suffix_first) (simp_all add: d(1) nth_append)
  also have "\<dots> = (int (length pre), int ?m + 1, int (length pre + length s))"
    using suffix_match [OF d(3,4), of "int ?m + 1" n sl] n by (simp add: d(1) del: suffix_loop.simps)
  finally show ?thesis using assms by (simp add: path_basename_def d(1))
qed

section \<open>extname\<close>

lemma extname_slashes:
  "set sl \<subseteq> {slash} \<Longrightarrow> k \<le> length sl \<Longrightarrow>
    extname_loop (x @ sl) (length x + k) True d e r = extname_loop (x @ sl) (length x) True d e r"
  by (induction k) (auto simp: trailing_nth)

text \<open>Left of the last dot only the dot state changes, and its final value is decided by the first
  character of the segment.\<close>

lemma extname_left:
  assumes "slash \<notin> set seg" "pre = [] \<or> last pre = slash" "d \<noteq> -1" "e \<noteq> -1" "j \<le> length seg"
  shows "extname_loop (pre @ seg @ sl) (length pre + j) False d e r =
    (d, int (length pre), e, if j = 0 then r else if seg ! 0 = CHR ''.'' then 1 else -1)"
  using assms(5)
proof (induction j arbitrary: r)
  case 0
  show ?case
  proof (cases "pre = []")
    case False
    then obtain n where "length pre = Suc n" by (cases pre) auto
    then show ?thesis using pre_nth [of pre "seg @ sl"] assms(2) False by simp
  qed simp
next
  case (Suc j)
  then have j: "j < length seg" by simp
  show ?case using Suc.IH Suc.prems seg_nth [OF assms(1) j, of pre sl] assms(3,4) by (cases "j = 0") auto
qed

lemma extname_nodot:
  assumes "slash \<notin> set seg" "pre = [] \<or> last pre = slash" "e \<noteq> -1" "j \<le> length seg" "CHR ''.'' \<notin> set (take j seg)"
  shows "extname_loop (pre @ seg @ sl) (length pre + j) False (-1) e 0 = (-1, int (length pre), e, 0)"
  using assms(4,5)
proof (induction j)
  case 0
  show ?case
  proof (cases "pre = []")
    case False
    then obtain n where "length pre = Suc n" by (cases pre) auto
    then show ?thesis using pre_nth [of pre "seg @ sl"] assms(2) False by simp
  qed simp
next
  case (Suc j)
  then show ?case
    using seg_nth [OF assms(1), of j pre sl] assms(3) by (auto simp: take_Suc_conv_app_nth)
qed

lemma extname_to_dot:
  assumes "slash \<notin> set (s @ t)" "CHR ''.'' \<notin> set t" "e \<noteq> -1" "j \<le> length t"
  shows "extname_loop (pre @ (s @ t) @ sl) (length pre + (length s + j)) False (-1) e 0 =
    extname_loop (pre @ (s @ t) @ sl) (length pre + length s) False (-1) e 0"
  using assms(4)
proof (induction j)
  case (Suc j)
  have "t ! j \<in> set t" using Suc.prems by simp
  then have "t ! j \<noteq> CHR ''.''" using assms(2) by auto
  then show ?case
    using Suc seg_nth [OF assms(1), of "length s + j" pre sl] assms(3) by (simp add: nth_append)
qed simp

lemma extname_first:
  "p ! m \<noteq> slash \<Longrightarrow> extname_loop p (Suc m) True (-1) (-1) 0 = extname_loop p (Suc m) False (-1) (int m + 1) 0"
  by simp

lemma extname_loop_split:
  assumes "path_split p pre seg sl" "seg \<noteq> []"
  shows "extname_loop p (length p) True (-1) (-1) 0 =
    extname_loop (pre @ seg @ sl) (length pre + length seg) False (-1) (int (length pre + length seg)) 0"
proof -
  have d: "p = (pre @ seg) @ sl" "set sl \<subseteq> {slash}" "slash \<notin> set seg"
    using assms by (simp_all add: path_split_def)
  obtain n where n: "length seg = Suc n" using assms(2) by (cases seg) auto
  have "extname_loop p (length p) True (-1) (-1) 0 = extname_loop p (Suc (length pre + n)) True (-1) (-1) 0"
    using extname_slashes [OF d(2), of "length sl" "pre @ seg"] n by (simp add: d(1) add.assoc del: extname_loop.simps)
  also have "\<dots> = extname_loop p (Suc (length pre + n)) False (-1) (int (length pre + n) + 1) 0"
    using seg_nth [OF d(3), of n pre sl] n by (intro extname_first) (simp add: d(1))
  finally show ?thesis using n by (simp add: d(1) ac_simps del: extname_loop.simps)
qed

text \<open>The extension: from the last dot on, unless that dot starts the segment or the segment is \<open>..\<close>.\<close>

lemma path_extname_cases:
  assumes sp: "path_split p pre seg sl"
  shows "path_extname p = [] \<or> (\<exists>s t. seg = s @ CHR ''.'' # t \<and> s \<noteq> [] \<and> path_extname p = CHR ''.'' # t)"
proof -
  have d: "p = (pre @ seg) @ sl" "set sl \<subseteq> {slash}" "slash \<notin> set seg" "pre = [] \<or> last pre = slash" "seg = [] \<longrightarrow> pre = []"
    using sp by (simp_all add: path_split_def)
  let ?e = "int (length pre + length seg)"
  consider "seg = []" | "seg \<noteq> []" "CHR ''.'' \<notin> set seg" | s t where "seg = s @ CHR ''.'' # t" "CHR ''.'' \<notin> set t"
    by (meson split_list_last)
  then show ?thesis
  proof cases
    case 1
    then show ?thesis
      using d extname_slashes [OF d(2), of "length sl" "[]" "-1" "-1" 0] by (simp add: path_extname_def)
  next
    case 2
    have "extname_loop p (length p) True (-1) (-1) 0 = (-1, int (length pre), ?e, 0)"
      using extname_loop_split [OF sp 2(1)] extname_nodot [OF d(3,4), of ?e "length seg" sl] 2(2) by simp
    then show ?thesis by (simp add: path_extname_def)
  next
    case (3 s t)
    let ?d = "int (length pre + length s)"
    have "extname_loop p (length p) True (-1) (-1) 0 =
        extname_loop (pre @ seg @ sl) (length pre + length seg) False (-1) ?e 0"
      using extname_loop_split [OF sp] 3 by simp
    also have "\<dots> = extname_loop (pre @ seg @ sl) (length pre + Suc (length s)) False (-1) ?e 0"
      using extname_to_dot [of "s @ ''.''" t ?e "length t" pre sl] d(3) 3 by (simp add: add.assoc del: extname_loop.simps)
    also have "\<dots> = extname_loop (pre @ seg @ sl) (length pre + length s) False ?d ?e 0"
      using seg_nth [OF d(3), of "length s" pre sl] 3 by (simp add: nth_append)
    also have "\<dots> = (?d, int (length pre), ?e, if length s = 0 then 0 else if seg ! 0 = CHR ''.'' then 1 else -1)"
      using extname_left [OF d(3,4), of ?d ?e "length s" sl 0] 3 by simp
    finally have f: "extname_loop p (length p) True (-1) (-1) 0 =
        (?d, int (length pre), ?e, if length s = 0 then 0 else if seg ! 0 = CHR ''.'' then 1 else -1)" .
    have "nat (?e - ?d) = Suc (length t)" using 3 by simp
    then have tk: "take (nat (?e - ?d)) (drop (nat ?d) p) = CHR ''.'' # t" using 3 d(1) by simp
    have "path_extname p = [] \<or> path_extname p = CHR ''.'' # t" "s = [] \<longrightarrow> path_extname p = []"
      unfolding path_extname_def f prod.case tk by simp_all
    then show ?thesis using 3 by blast
  qed
qed

section \<open>dirname\<close>

lemma dirname_all_slashes: "set p \<subseteq> {slash} \<Longrightarrow> n \<le> length p \<Longrightarrow> dirname_loop p n True = -1"
  by (induction n) (auto simp: trailing_nth)

lemma dirname_slashes:
  "set sl \<subseteq> {slash} \<Longrightarrow> x \<noteq> [] \<Longrightarrow> k \<le> length sl \<Longrightarrow>
    dirname_loop (x @ sl) (length x + k) True = dirname_loop (x @ sl) (length x) True"
  by (induction k) (auto simp: trailing_nth Suc_le_eq)

lemma dirname_seg:
  assumes "slash \<notin> set seg" "pre = [] \<or> last pre = slash" "j \<le> length seg" "\<not> m \<or> 0 < j"
  shows "dirname_loop (pre @ seg @ sl) (length pre + j) m = (if length pre \<le> 1 then -1 else int (length pre) - 1)"
  using assms(3,4)
proof (induction j arbitrary: m)
  case 0
  show ?case
  proof (cases "pre = []")
    case False
    then obtain n where n: "length pre = Suc n" by (cases pre) auto
    then show ?thesis using pre_nth [of pre "seg @ sl"] assms(2) False 0 by (cases n) auto
  qed simp
next
  case (Suc j)
  then have j: "j < length seg" by simp
  show ?case using Suc.IH [of False] Suc.prems seg_nth [OF assms(1) j, of pre sl] by (cases "length pre + j = 0") auto
qed

lemma path_walk_slashes: "set sl \<subseteq> {slash} \<Longrightarrow> path_walk stk (x @ sl) = path_walk stk x"
proof (induction sl rule: rev_induct)
  case (snoc c sl)
  then show ?case using path_walk_slash [of stk "x @ sl" "[]"] by simp
qed simp

lemma path_dirname_walk:
  assumes "path_split p pre seg sl"
  shows "path_cd [] (path_dirname p) = path_walk [] pre"
proof -
  have d: "p = (pre @ seg) @ sl" "set sl \<subseteq> {slash}" "slash \<notin> set seg" "pre = [] \<or> last pre = slash" "seg = [] \<longrightarrow> pre = []"
    using assms by (simp_all add: path_split_def)
  have dot: "path_cd [] ''.'' = []" and root: "path_cd [] ''/'' = []" and root2: "path_cd [] ''//'' = []"
    by (simp_all add: path_cd_def path_walk_def norm_push_def)
  show ?thesis
  proof (cases "seg = []")
    case True
    then have "pre = []" "set p \<subseteq> {slash}" using d by simp_all
    then show ?thesis
      using dirname_all_slashes [of p "length p"] dot root by (auto simp: path_dirname_def Let_def)
  next
    case False
    have e: "dirname_loop p (length p) True = (if length pre \<le> 1 then -1 else int (length pre) - 1)"
      using dirname_slashes [OF d(2), of "pre @ seg" "length sl"] dirname_seg [OF d(3,4), of "length seg" True sl] False
      by (simp add: d(1) add.assoc)
    consider "pre = []" | "pre = ''/''" | b where "pre = b @ [slash]" "b \<noteq> []"
      using d(4) by (cases pre rule: rev_cases) auto
    then show ?thesis
    proof cases
      case 1
      have "seg ! 0 \<noteq> slash" using d(3) False nth_mem [of 0 seg] by (metis length_greater_0_conv)
      then show ?thesis using 1 e False dot d(1) by (simp add: path_dirname_def Let_def nth_append)
    next
      case 2
      then show ?thesis using e root d(1) by (simp add: path_dirname_def Let_def)
    next
      case (3 b)
      have w: "path_walk [] pre = path_walk [] b" using path_walk_slash [of "[]" b "[]"] 3 by simp
      have "path_cd [] b = path_walk [] b" by (simp add: path_cd_def)
      moreover have "path_dirname p = (if p ! 0 = slash \<and> length b = 1 then ''//'' else b)"
        using e 3 d(1) by (auto simp: path_dirname_def Let_def)
      moreover have "b = ''/''" if "p ! 0 = slash" "length b = 1"
        using that 3 d(1) by (cases b) (auto simp: nth_append)
      ultimately show ?thesis using w root root2 by auto
    qed
  qed
qed

lemma path_cd_seg: "slash \<notin> set seg \<Longrightarrow> path_cd stk seg = path_walk stk seg"
  by (cases seg) (auto simp: path_cd_def)

lemma path_walk_split:
  assumes "path_split p pre seg sl"
  shows "path_cd [] p = path_walk (path_walk [] pre) seg"
proof -
  have d: "p = (pre @ seg) @ sl" "set sl \<subseteq> {slash}" "pre = [] \<or> last pre = slash"
    using assms by (simp_all add: path_split_def)
  have "path_walk [] (pre @ seg) = path_walk (path_walk [] pre) seg"
  proof (cases pre rule: rev_cases)
    case (snoc b c)
    then show ?thesis using d(3) path_walk_slash [of "[]" b "[]"] by simp
  qed simp
  then show ?thesis using path_walk_slashes [OF d(2), of "[]" "pre @ seg"] d(1) by (simp add: path_cd_def)
qed


end
