(* ===== verification/Dyna_Csv.thy ===== *)
theory Dyna_Csv
  imports Dyna_Resource
begin

text \<open>
  The module \<^verbatim>\<open>dyna:csv\<close> of \<^verbatim>\<open>src/src/dyna-csv.c\<close>: the parser and serializer and every method of the class
  \<open>CSVFile\<close>.

  A method is a self-contained load, edit and store. The bytes that \<open>dyn_io_slurp\<close> reads (or the
  system's error text), the outcome of the atomic write, and what the engine answers for each key of
  the options object are arguments; a method returns its JavaScript result and the bytes it hands to
  a successful atomic write. So a conversion that runs user code, which may touch the same file, is
  covered: the method only ever uses the bytes it loaded. Allocations are assumed to succeed.

  A cell is a C string or \<open>NULL\<close> (\<^term>\<open>None\<close>, the empty string). The parser copies a field with its
  length, but every reader stops at the first zero byte.
\<close>

section \<open>Tables\<close>

type_synonym csv_row = "string option list"
type_synonym csv_table = "csv_row list"

abbreviation cstr :: "string \<Rightarrow> string" where
  "cstr s \<equiv> takeWhile (\<lambda>c. c \<noteq> CHR 0x00) s"

definition cell_text :: "string option \<Rightarrow> string" where
  "cell_text c = (case c of None \<Rightarrow> [] | Some s \<Rightarrow> cstr s)"

definition table_ncols :: "csv_table \<Rightarrow> nat" where
  "table_ncols t = (if length t > 0 then length (t ! 0) else 0)"

definition cell :: "csv_table \<Rightarrow> nat \<Rightarrow> nat \<Rightarrow> string" where
  "cell t r c = (if r \<ge> length t \<or> c \<ge> length (t ! r) then [] else cell_text (t ! r ! c))"

section \<open>Parser\<close>

abbreviation csv_stop :: "char \<Rightarrow> bool" where
  "csv_stop c \<equiv> c = CHR '','' \<or> c = CHR 0x0A \<or> c = CHR 0x0D"

text \<open>After the opening quote: the field so far and the input after the closing quote.\<close>

fun csv_quoted :: "string \<Rightarrow> string \<Rightarrow> string \<times> string" where
  "csv_quoted fld [] = (fld, [])"
| "csv_quoted fld [c] = (if c = CHR 0x22 then (fld, []) else (fld @ [c], []))"
| "csv_quoted fld (c # d # s) =
     (if c = CHR 0x22 then (if d = CHR 0x22 then csv_quoted (fld @ [CHR 0x22]) s else (fld, d # s))
      else csv_quoted (fld @ [c]) (d # s))"

definition csv_field :: "string \<Rightarrow> string \<times> string" where
  "csv_field s =
     (if s \<noteq> [] \<and> hd s = CHR 0x22 then csv_quoted [] (tl s)
      else (takeWhile (\<lambda>c. \<not> csv_stop c) s, dropWhile (\<lambda>c. \<not> csv_stop c) s))"

lemma csv_quoted_length: "length (snd (csv_quoted fld s)) \<le> length s"
  by (induction fld s rule: csv_quoted.induct) auto

lemma csv_field_length: "length (snd (csv_field s)) \<le> length s"
  using csv_quoted_length [of "[]" "tl s"] by (cases s) (auto simp: csv_field_def length_dropWhile_le le_SucI)

function csv_loop :: "csv_table \<Rightarrow> csv_row \<Rightarrow> string \<Rightarrow> csv_table" where
  "csv_loop t row s =
     (case csv_field s of
        (fld, r) \<Rightarrow>
          (let row' = row @ [if length fld = 0 then None else Some fld]
           in case r of
                [] \<Rightarrow> t @ [row']
              | c # cs \<Rightarrow>
                  if c = CHR '','' then csv_loop t row' cs
                  else
                    (let r' = (if c = CHR 0x0D \<and> cs \<noteq> [] \<and> hd cs = CHR 0x0A then tl cs else cs)
                     in if r' = [] then t @ [row'] else csv_loop (t @ [row']) [] r')))"
  by pat_completeness auto
termination
proof (relation "measure (\<lambda>(t, row, s). length s)", goal_cases)
  case (2 t row s)
  then show ?case using csv_field_length [of s] by (auto dest: sym [of "(_, _)"])
next
  case (3 t row s)
  then show ?case using csv_field_length [of s] by (auto dest: sym [of "(_, _)"] split: if_splits)
qed simp

declare csv_loop.simps [simp del]

definition csv_parse :: "string \<Rightarrow> csv_table" where
  "csv_parse buf = (if length buf = 0 then [] else csv_loop [] [] buf)"

section \<open>Serializer\<close>

definition field_needs_quote :: "string \<Rightarrow> bool" where
  "field_needs_quote s = list_ex (\<lambda>c. c = CHR '','' \<or> c = CHR 0x22 \<or> c = CHR 0x0A \<or> c = CHR 0x0D) s"

definition emit_field :: "string \<Rightarrow> string" where
  "emit_field s =
     (if \<not> field_needs_quote s then s
      else [CHR 0x22] @ concat (map (\<lambda>c. if c = CHR 0x22 then [CHR 0x22, c] else [c]) s) @ [CHR 0x22])"

fun emit_cells :: "bool \<Rightarrow> string list \<Rightarrow> string" where
  "emit_cells first [] = []"
| "emit_cells first (s # ss) = (if first then [] else '','') @ emit_field s @ emit_cells False ss"

definition csv_serialize :: "csv_table \<Rightarrow> string" where
  "csv_serialize t = concat (map (\<lambda>row. emit_cells True (map cell_text row) @ [CHR 0x0A]) t)"

section \<open>Options, loading and storing\<close>

text \<open>An option's key is absent (or \<open>undefined\<close> or \<open>null\<close>), its conversion threw, or it has a value.\<close>

datatype 'a optv = Absent | Threw jserr | Given 'a

text \<open>The value and the presence flag of an integer option whose error code is ignored.\<close>

fun opt_int :: "int \<Rightarrow> int optv \<Rightarrow> int \<times> bool" where
  "opt_int def Absent = (def, False)"
| "opt_int def (Threw e) = (0, False)"
| "opt_int def (Given i) = (i, True)"

text \<open>Error texts are formatted into a buffer of 256 bytes.\<close>

definition js_msg :: "string \<Rightarrow> string" where
  "js_msg s = take 255 s"

abbreviation quoted :: "string \<Rightarrow> string" where
  "quoted s \<equiv> CHR 0x27 # s @ [CHR 0x27]"

definition int_str :: "int \<Rightarrow> string" where
  "int_str i = (if i < 0 then CHR ''-'' # dec_str (nat (- i)) else dec_str (nat i))"

text \<open>The position of a header column, or \<open>-1\<close>.\<close>

fun header_find :: "csv_row \<Rightarrow> nat \<Rightarrow> string \<Rightarrow> int" where
  "header_find [] k name = -1"
| "header_find (c # cs) k name = (if cell_text c = cstr name then int k else header_find cs (k + 1) name)"

definition header_index :: "csv_table \<Rightarrow> string \<Rightarrow> int" where
  "header_index t name = (if length t = 0 then -1 else header_find (t ! 0) 0 name)"

definition csv_load :: "string \<Rightarrow> string + string \<Rightarrow> csv_table res" where
  "csv_load path src =
     (case src of
        Inl errno \<Rightarrow> Inl (TypeError (js_msg (''csv: cannot read '' @ quoted path @ '': '' @ errno)))
      | Inr buf \<Rightarrow>
          (let t = csv_parse buf
           in if length t = 0
              then Inl (TypeError (js_msg (''csv: '' @ quoted path @ '' is empty (no header)'')))
              else Inr t))"

text \<open>A method's result: the value or error, and the bytes of a successful write.\<close>

type_synonym csv_result = "jsval res \<times> string option"

definition csv_store :: "string \<Rightarrow> csv_table \<Rightarrow> string option \<Rightarrow> jsval \<Rightarrow> csv_result" where
  "csv_store path t werr ret =
     (case werr of
        None \<Rightarrow> (Inr ret, Some (csv_serialize t))
      | Some errno \<Rightarrow>
          (Inl (TypeError (js_msg (''csv: cannot write '' @ quoted path @ '': '' @ errno))), None))"

definition csvfile_path :: "string world \<Rightarrow> nat option \<Rightarrow> nat \<Rightarrow> string res option" where
  "csvfile_path w this_val class_id =
     (case dyn_res_get w this_val class_id of
        None \<Rightarrow> None
      | Some (Inl e) \<Rightarrow> Some (Inl e)
      | Some (Inr r) \<Rightarrow> map_option Inr (res_native r))"

text \<open>The common beginning of a method: the path, the check of the options object, the load.\<close>

definition csv_begin :: "string res \<Rightarrow> bool \<Rightarrow> string + string \<Rightarrow> (string \<times> csv_table) res" where
  "csv_begin path is_obj src =
     (case path of
        Inl e \<Rightarrow> Inl e
      | Inr p \<Rightarrow>
          if \<not> is_obj then Inl (TypeError ''csv: expected an options object'')
          else map_sum id (Pair p) (csv_load p src))"

text \<open>A required string option, with the error text when it is absent.\<close>

fun opt_required :: "string \<Rightarrow> 'a optv \<Rightarrow> 'a res" where
  "opt_required msg Absent = Inl (TypeError msg)"
| "opt_required msg (Threw e) = Inl e"
| "opt_required msg (Given v) = Inr v"

definition resolve_column :: "string optv \<Rightarrow> int optv \<Rightarrow> csv_table \<Rightarrow> nat res" where
  "resolve_column column columnIndex t =
     (case column of
        Given name \<Rightarrow>
          (let ci = header_index t name
           in if ci < 0 then Inl (TypeError (js_msg (''csv: no such column '' @ quoted (cstr name))))
              else Inr (nat ci))
      | Threw e \<Rightarrow> Inl e
      | Absent \<Rightarrow>
          (case columnIndex of
             Threw e \<Rightarrow> Inl e
           | Absent \<Rightarrow> Inl (TypeError (''csv: provide '' @ quoted ''column'' @ '' or '' @ quoted ''columnIndex''))
           | Given ix \<Rightarrow>
               if ix < 0 \<or> ix \<ge> int (table_ncols t)
               then Inl (RangeError (''csv: columnIndex '' @ int_str ix @ '' out of range''))
               else Inr (nat ix)))"

section \<open>Creating a file\<close>

text \<open>The body of the initial rows. A row that is no array is \<^term>\<open>None\<close>; a cell whose conversion throws
  is written as an empty field.\<close>

fun create_rows :: "nat \<Rightarrow> nat \<Rightarrow> string option list option list \<Rightarrow> string res" where
  "create_rows nh i [] = Inr []"
| "create_rows nh i (rv # rvs) =
     (case rv of
        Some cs \<Rightarrow>
          if length cs \<noteq> nh
          then Inl (TypeError (''csv.create: row '' @ dec_str i @ '' must have exactly '' @ dec_str nh @ '' values''))
          else map_sum id ((@) (emit_cells True (map cell_text cs) @ [CHR 0x0A])) (create_rows nh (i + 1) rvs)
      | None \<Rightarrow>
          Inl (TypeError (''csv.create: row '' @ dec_str i @ '' must have exactly '' @ dec_str nh @ '' values'')))"

definition js_csv_create :: "string res \<Rightarrow> bool \<Rightarrow> string list optv \<Rightarrow> bool \<Rightarrow> bool \<Rightarrow>
    string option list option list option \<Rightarrow> string option \<Rightarrow> csv_result" where
  "js_csv_create path is_obj headers overwrite exists rows werr =
     (case path of
        Inl e \<Rightarrow> (Inl e, None)
      | Inr p \<Rightarrow>
          if \<not> is_obj then (Inl (TypeError ''csv: expected an options object''), None)
          else
            (case headers of
               Threw e \<Rightarrow> (Inl e, None)
             | Absent \<Rightarrow> (Inl (TypeError (''csv.create: '' @ quoted ''headers'' @ '' must have at least one entry'')), None)
             | Given hs \<Rightarrow>
                 if length hs = 0
                 then (Inl (TypeError (''csv.create: '' @ quoted ''headers'' @ '' must have at least one entry'')), None)
                 else if \<not> overwrite \<and> exists
                 then (Inl (TypeError (js_msg (''csv.create: '' @ quoted p @ '' already exists (set overwrite:true)''))), None)
                 else
                   (let rvs = (case rows of None \<Rightarrow> [] | Some rvs \<Rightarrow> rvs)
                    in case create_rows (length hs) 0 rvs of
                         Inl e \<Rightarrow> (Inl e, None)
                       | Inr body \<Rightarrow>
                           (case werr of
                              Some errno \<Rightarrow>
                                (Inl (TypeError (js_msg (''csv.create: cannot write '' @ quoted p @ '': '' @ errno))), None)
                            | None \<Rightarrow>
                                (Inr (JObj [(''path'', JStr p), (''rows'', js_nat (length rvs))]),
                                 Some (emit_cells True (map cstr hs) @ [CHR 0x0A] @ body))))))"

section \<open>Editing\<close>

text \<open>The new row of \<open>addRow\<close>: an array of values, an object asked for each header name, or neither.\<close>

datatype add_row = RowArr "string option list" | RowObj "string \<Rightarrow> string option" | RowBad

fun add_rows :: "csv_table \<Rightarrow> nat \<Rightarrow> add_row list \<Rightarrow> csv_table res" where
  "add_rows t ncols [] = Inr t"
| "add_rows t ncols (rv # rvs) =
     (case rv of
        RowArr vs \<Rightarrow>
          add_rows (t @ [map (\<lambda>c. if c < length vs then map_option cstr (vs ! c) else None) [0 ..< ncols]]) ncols rvs
      | RowObj f \<Rightarrow> add_rows (t @ [map (\<lambda>c. map_option cstr (f (cell t 0 c))) [0 ..< ncols]]) ncols rvs
      | RowBad \<Rightarrow> Inl (TypeError ''csv.addRow: each row must be an array or an object''))"

definition js_csv_add_row :: "string res \<Rightarrow> bool \<Rightarrow> string + string \<Rightarrow> add_row list option \<Rightarrow> string option \<Rightarrow> csv_result" where
  "js_csv_add_row path is_obj src rows werr =
     (case csv_begin path is_obj src of
        Inl e \<Rightarrow> (Inl e, None)
      | Inr (p, t) \<Rightarrow>
          (case rows of
             None \<Rightarrow> (Inl (TypeError (''csv.addRow: '' @ quoted ''rows'' @ '' must be an array'')), None)
           | Some rvs \<Rightarrow>
               (case add_rows t (table_ncols t) rvs of
                  Inl e \<Rightarrow> (Inl e, None)
                | Inr t' \<Rightarrow>
                    csv_store p t' werr
                      (JObj [(''added'', js_nat (length rvs)), (''totalRows'', js_nat (length t' - 1))]))))"

text \<open>The row option of \<open>updateCell\<close> and \<open>removeRow\<close>, with the text of the range error.\<close>

definition row_option :: "string \<Rightarrow> string \<Rightarrow> int optv \<Rightarrow> csv_table \<Rightarrow> nat res" where
  "row_option name suffix row t =
     (case opt_required (name @ '': '' @ quoted ''row'' @ '' is required'') row of
        Inl e \<Rightarrow> Inl e
      | Inr rowi \<Rightarrow>
          if rowi < 0 \<or> rowi \<ge> int (length t - 1)
          then Inl (RangeError (name @ '': row '' @ int_str rowi @ '' out of range'' @ suffix))
          else Inr (nat rowi))"

abbreviation pad_row :: "nat \<Rightarrow> csv_row \<Rightarrow> csv_row" where
  "pad_row n row \<equiv> row @ replicate (n - length row) None"

text \<open>\<open>updateCell\<close>. An empty value is freed and its first byte is read afterwards: undefined
  behaviour, the outer \<^term>\<open>None\<close>.\<close>

definition js_csv_update_cell :: "string res \<Rightarrow> bool \<Rightarrow> string + string \<Rightarrow> int optv \<Rightarrow> string optv \<Rightarrow> int optv \<Rightarrow>
    string optv \<Rightarrow> string option \<Rightarrow> csv_result option" where
  "js_csv_update_cell path is_obj src row column columnIndex value werr =
     (case csv_begin path is_obj src of
        Inl e \<Rightarrow> Some (Inl e, None)
      | Inr (p, t) \<Rightarrow>
          (case row_option ''csv.updateCell'' ('' (0..'' @ dec_str (u64 (length t + 2 ^ 64 - 2)) @ '')'') row t of
             Inl e \<Rightarrow> Some (Inl e, None)
           | Inr rowi \<Rightarrow>
               (case resolve_column column columnIndex t of
                  Inl e \<Rightarrow> Some (Inl e, None)
                | Inr ci \<Rightarrow>
                    (case opt_required (''csv.updateCell: '' @ quoted ''value'' @ '' is required'') value of
                       Inl e \<Rightarrow> Some (Inl e, None)
                     | Inr v \<Rightarrow>
                         if cstr v = [] then None
                         else
                           (let t' = t[rowi + 1 := (pad_row (ci + 1) (t ! (rowi + 1)))[ci := Some (cstr v)]]
                            in Some (csv_store p t' werr
                                 (JObj [(''row'', js_nat rowi), (''column'', JStr (cell t' 0 ci)),
                                        (''value'', JStr (cstr v))])))))))"

definition js_csv_remove_row :: "string res \<Rightarrow> bool \<Rightarrow> string + string \<Rightarrow> int optv \<Rightarrow> string option \<Rightarrow> csv_result" where
  "js_csv_remove_row path is_obj src row werr =
     (case csv_begin path is_obj src of
        Inl e \<Rightarrow> (Inl e, None)
      | Inr (p, t) \<Rightarrow>
          (case row_option ''csv.removeRow'' [] row t of
             Inl e \<Rightarrow> (Inl e, None)
           | Inr rowi \<Rightarrow>
               (let t' = take (rowi + 1) t @ drop (rowi + 2) t
                in csv_store p t' werr
                     (JObj [(''removed'', js_nat rowi), (''totalRows'', js_nat (length t' - 1))]))))"

definition js_csv_add_column :: "string res \<Rightarrow> bool \<Rightarrow> string + string \<Rightarrow> string optv \<Rightarrow> string optv \<Rightarrow> string option \<Rightarrow> csv_result" where
  "js_csv_add_column path is_obj src column defaultValue werr =
     (case csv_begin path is_obj src of
        Inl e \<Rightarrow> (Inl e, None)
      | Inr (p, t) \<Rightarrow>
          (case opt_required (''csv.addColumn: '' @ quoted ''column'' @ '' is required'') column of
             Inl e \<Rightarrow> (Inl e, None)
           | Inr col \<Rightarrow>
               if header_index t col \<ge> 0
               then (Inl (TypeError (js_msg (''csv.addColumn: column '' @ quoted (cstr col) @ '' already exists''))), None)
               else
                 (let def = (case defaultValue of Given d \<Rightarrow> if cstr d = [] then None else Some (cstr d) | _ \<Rightarrow> None);
                      ncols = table_ncols t;
                      t' = map (\<lambda>r. pad_row ncols (t ! r) @ [if r = 0 then Some (cstr col) else def]) [0 ..< length t]
                  in csv_store p t' werr
                       (JObj [(''column'', JStr (cstr col)), (''totalColumns'', js_nat (table_ncols t'))]))))"

definition js_csv_remove_column :: "string res \<Rightarrow> bool \<Rightarrow> string + string \<Rightarrow> string optv \<Rightarrow> int optv \<Rightarrow> string option \<Rightarrow> csv_result" where
  "js_csv_remove_column path is_obj src column columnIndex werr =
     (case csv_begin path is_obj src of
        Inl e \<Rightarrow> (Inl e, None)
      | Inr (p, t) \<Rightarrow>
          (case resolve_column column columnIndex t of
             Inl e \<Rightarrow> (Inl e, None)
           | Inr ci \<Rightarrow>
               (let t' = map (\<lambda>row. if ci \<ge> length row then row else take ci row @ drop (ci + 1) row) t
                in csv_store p t' werr
                     (JObj [(''removedIndex'', js_nat ci), (''totalColumns'', js_nat (table_ncols t'))]))))"

text \<open>The two name options of \<open>renameColumn\<close>; of two conversions that throw the later one counts.\<close>

fun rename_names :: "string optv \<Rightarrow> string optv \<Rightarrow> (string \<times> string) res" where
  "rename_names (Given a) (Given b) = Inr (cstr a, cstr b)"
| "rename_names _ (Threw e) = Inl e"
| "rename_names (Threw e) _ = Inl e"
| "rename_names _ _ =
     Inl (TypeError (''csv.renameColumn: '' @ quoted ''oldName'' @ '' and '' @ quoted ''newName'' @ '' are required''))"

definition js_csv_rename_column :: "string res \<Rightarrow> bool \<Rightarrow> string + string \<Rightarrow> string optv \<Rightarrow> string optv \<Rightarrow> string option \<Rightarrow> csv_result" where
  "js_csv_rename_column path is_obj src oldName newName werr =
     (case csv_begin path is_obj src of
        Inl e \<Rightarrow> (Inl e, None)
      | Inr (p, t) \<Rightarrow>
          (case rename_names oldName newName of
             Inl e \<Rightarrow> (Inl e, None)
           | Inr (oldn, newn) \<Rightarrow>
               (let oi = header_index t oldn; ret = JObj [(''oldName'', JStr oldn), (''newName'', JStr newn)]
                in if oi < 0
                   then (Inl (TypeError (js_msg (''csv.renameColumn: no such column '' @ quoted oldn))), None)
                   else if oldn \<noteq> newn then
                     (if header_index t newn \<ge> 0
                      then (Inl (TypeError (js_msg (''csv.renameColumn: column '' @ quoted newn @ '' already exists''))), None)
                      else csv_store p (t[0 := (t ! 0)[nat oi := Some newn]]) werr ret)
                   else (Inr ret, None))))"

section \<open>Reading\<close>

definition row_to_js :: "csv_table \<Rightarrow> nat \<Rightarrow> nat \<Rightarrow> jsval" where
  "row_to_js t r ncols = JArr (map (\<lambda>c. JStr (cell t r c)) [0 ..< ncols])"

text \<open>The column positions of requested names, in order; the first unknown name is an error.\<close>

fun find_columns :: "string \<Rightarrow> csv_table \<Rightarrow> string list \<Rightarrow> nat list res" where
  "find_columns name t [] = Inr []"
| "find_columns name t (c # cs) =
     (let ci = header_index t c
      in if ci < 0 then Inl (TypeError (js_msg (name @ '': no such column '' @ quoted (cstr c))))
         else map_sum id (Cons (nat ci)) (find_columns name t cs))"

definition js_csv_read :: "string res \<Rightarrow> string + string \<Rightarrow> int optv \<Rightarrow> int optv \<Rightarrow> string list optv \<Rightarrow> jsval res" where
  "js_csv_read path src offset limit columns =
     (case csv_begin path True src of
        Inl e \<Rightarrow> Inl e
      | Inr (p, t) \<Rightarrow>
          (let off = max 0 (fst (opt_int 0 offset));
               (lim, has_limit) = opt_int (-1) limit
           in case columns of
                Threw e \<Rightarrow> Inl e
              | _ \<Rightarrow>
                  (let cols = (case columns of Given cs \<Rightarrow> cs | _ \<Rightarrow> []);
                       total = length t - 1
                   in case (if length cols > 0 then find_columns ''csv.read'' t cols else Inr [0 ..< table_ncols t]) of
                        Inl e \<Rightarrow> Inl e
                      | Inr idx \<Rightarrow>
                          (let start = nat off;
                               end' = (if has_limit \<and> lim \<ge> 0 \<and> start + nat lim < total then start + nat lim else total);
                               start' = (if start > total then total else start)
                           in Inr (JObj
                                [(''headers'', JArr (map (\<lambda>k. JStr (cell t 0 k)) idx)),
                                 (''rows'', JArr (map (\<lambda>r. JArr (map (\<lambda>k. JStr (cell t (r + 1) k)) idx)) [start' ..< end'])),
                                 (''totalRows'', js_nat total)])))))"

definition range_window :: "int optv \<Rightarrow> int optv \<Rightarrow> nat \<Rightarrow> nat \<Rightarrow> (nat \<times> nat) res" where
  "range_window start end' tot maxspan =
     (let st = max 0 (fst (opt_int 0 start)); (en, has_end) = opt_int 0 end'
      in if has_end \<and> en > st \<and> en - st > int maxspan
         then Inl (RangeError (''csv: requested window '' @ int_str (en - st) @ '' exceeds the maximum of '' @
                               dec_str maxspan @ '' rows''))
         else
           (let s = (if nat st > tot then tot else nat st);
                e = (if has_end then (if en < 0 then 0 else nat en) else tot);
                e' = (if e > tot then tot else e)
            in Inr (s, if e' < s then s else e')))"

definition js_csv_read_column_values_range :: "string res \<Rightarrow> bool \<Rightarrow> string + string \<Rightarrow> string optv \<Rightarrow> int optv \<Rightarrow> int optv \<Rightarrow> jsval res" where
  "js_csv_read_column_values_range path is_obj src column start end' =
     (case csv_begin path is_obj src of
        Inl e \<Rightarrow> Inl e
      | Inr (p, t) \<Rightarrow>
          (case opt_required (''csv.readColumnValuesRange: '' @ quoted ''column'' @ '' is required'') column of
             Inl e \<Rightarrow> Inl e
           | Inr col \<Rightarrow>
               (let ci = header_index t col
                in if ci < 0 then Inl (TypeError (js_msg (''csv: no such column '' @ quoted (cstr col))))
                   else map_sum id (\<lambda>(s, e). JArr (map (\<lambda>r. JStr (cell t (r + 1) (nat ci))) [s ..< e]))
                          (range_window start end' (length t - 1) 1000))))"

definition js_csv_read_row_range :: "string res \<Rightarrow> string + string \<Rightarrow> int optv \<Rightarrow> int optv \<Rightarrow> jsval res" where
  "js_csv_read_row_range path src start end' =
     (case csv_begin path True src of
        Inl e \<Rightarrow> Inl e
      | Inr (p, t) \<Rightarrow>
          (let st = max 0 (fst (opt_int 0 start)); (en, has_end) = opt_int 0 end'
           in if has_end \<and> en > st \<and> en - st > 100
              then Inl (RangeError (''csv.readRowRange: requested window '' @ int_str (en - st) @
                                    '' exceeds the maximum of 100 rows''))
              else
                (let total = length t - 1; ncols = table_ncols t;
                     s = (if nat st > total then total else nat st);
                     e = (if has_end then (if en < 0 then 0 else nat en) else s + 1);
                     e' = (if e > total then total else e);
                     e'' = (if e' < s then s else e')
                 in Inr (JObj [(''headers'', row_to_js t 0 ncols),
                               (''rows'', JArr (map (\<lambda>r. row_to_js t (r + 1) ncols) [s ..< e'']))]))))"

definition js_csv_select_column_range :: "string res \<Rightarrow> bool \<Rightarrow> string + string \<Rightarrow> string list optv \<Rightarrow> int optv \<Rightarrow> int optv \<Rightarrow> jsval res" where
  "js_csv_select_column_range path is_obj src columns start end' =
     (case csv_begin path is_obj src of
        Inl e \<Rightarrow> Inl e
      | Inr (p, t) \<Rightarrow>
          (case columns of
             Threw e \<Rightarrow> Inl e
           | _ \<Rightarrow>
               (let cols = (case columns of Given cs \<Rightarrow> cs | _ \<Rightarrow> [])
                in if length cols = 0
                   then Inl (TypeError (''csv.selectColumnRange: '' @ quoted ''columns'' @ '' must be non-empty''))
                   else
                     (case find_columns ''csv.selectColumnRange'' t cols of
                        Inl e \<Rightarrow> Inl e
                      | Inr idx \<Rightarrow>
                          map_sum id (\<lambda>(s, e). JObj
                              [(''columns'', JArr (map (\<lambda>c. JStr (cstr c)) cols)),
                               (''rows'', JArr (map (\<lambda>r. JArr (map (\<lambda>k. JStr (cell t (r + 1) k)) idx)) [s ..< e]))])
                            (range_window start end' (length t - 1) 100)))))"

end
