(* ===== verification/Dyna_CsvText.thy ===== *)
theory Dyna_CsvText
  imports Dyna_Csv
begin

text \<open>
  What a stored table reads back as, and the methods of \<open>CSVFile\<close> as operations on a table of texts.
\<close>

section \<open>One field\<close>

lemma csv_quoted_other: "c \<noteq> CHR 0x22 \<Longrightarrow> csv_quoted fld (c # s) = csv_quoted (fld @ [c]) s"
  by (cases s) auto

lemma csv_quoted_end: "s = [] \<or> hd s \<noteq> CHR 0x22 \<Longrightarrow> csv_quoted fld (CHR 0x22 # s) = (fld, s)"
  by (cases s) auto

abbreviation csv_escape :: "string \<Rightarrow> string" where
  "csv_escape s \<equiv> concat (map (\<lambda>c. if c = CHR 0x22 then [CHR 0x22, c] else [c]) s)"

lemma csv_quoted_escape:
  "r = [] \<or> hd r \<noteq> CHR 0x22 \<Longrightarrow> csv_quoted fld (csv_escape s @ CHR 0x22 # r) = (fld @ s, r)"
  by (induction s arbitrary: fld) (auto simp: csv_quoted_end csv_quoted_other)

lemma csv_field_emit:
  assumes "r \<noteq> []" "csv_stop (hd r)"
  shows "csv_field (emit_field s @ r) = (s, r)"
proof (cases "field_needs_quote s")
  case True
  then show ?thesis
    using csv_quoted_escape [of r "[]" s] assms by (auto simp: emit_field_def csv_field_def)
next
  case False
  have plain: "\<not> csv_stop c \<and> c \<noteq> CHR 0x22" if "c \<in> set s" for c
    using False that by (auto simp: field_needs_quote_def list_ex_iff)
  have "takeWhile (\<lambda>c. \<not> csv_stop c) (s @ r) = s" "dropWhile (\<lambda>c. \<not> csv_stop c) (s @ r) = r"
    using plain assms by (cases r; auto simp: takeWhile_append dropWhile_append)+
  moreover have "hd (s @ r) \<noteq> CHR 0x22" using plain assms by (cases s) auto
  ultimately show ?thesis using False by (simp add: emit_field_def csv_field_def)
qed

section \<open>A stored table\<close>

definition cell_norm :: "string option \<Rightarrow> string option" where
  "cell_norm c = (if cell_text c = [] then None else Some (cell_text c))"

definition row_norm :: "csv_row \<Rightarrow> csv_row" where
  "row_norm row = (if row = [] then [None] else map cell_norm row)"

lemma cell_text_norm [simp]: "cell_text (cell_norm c) = cell_text c"
  by (auto simp: cell_norm_def cell_text_def takeWhile_eq_all_conv split: option.splits dest: set_takeWhileD)

lemma csv_loop_cells:
  "csv_loop t row (emit_field (cell_text c) @ emit_cells False (map cell_text cs) @ CHR 0x0A # r) =
    (let row' = row @ map cell_norm (c # cs) in if r = [] then t @ [row'] else csv_loop (t @ [row']) [] r)"
proof (induction cs arbitrary: row c)
  case Nil
  have "csv_field (emit_field (cell_text c) @ CHR 0x0A # r) = (cell_text c, CHR 0x0A # r)"
    by (rule csv_field_emit) simp_all
  then show ?case by (subst csv_loop.simps) (simp add: Let_def cell_norm_def)
next
  case (Cons d ds)
  let ?r = "emit_cells False (map cell_text (d # ds)) @ CHR 0x0A # r"
  have "csv_field (emit_field (cell_text c) @ ?r) = (cell_text c, ?r)"
    by (rule csv_field_emit) simp_all
  then have "csv_loop t row (emit_field (cell_text c) @ ?r) =
      csv_loop t (row @ [cell_norm c]) (emit_field (cell_text d) @ emit_cells False (map cell_text ds) @ CHR 0x0A # r)"
    by (subst csv_loop.simps) (simp add: Let_def cell_norm_def)
  also have "\<dots> = (let row' = row @ map cell_norm (c # d # ds) in if r = [] then t @ [row'] else csv_loop (t @ [row']) [] r)"
    by (subst Cons) simp
  finally show ?case by simp
qed

lemma csv_loop_row:
  "csv_loop t [] (emit_cells True (map cell_text row) @ CHR 0x0A # r) =
    (if r = [] then t @ [row_norm row] else csv_loop (t @ [row_norm row]) [] r)"
proof (cases row)
  case Nil
  then show ?thesis
    using csv_loop_cells [of t "[]" None "[]" r] by (simp add: row_norm_def emit_field_def field_needs_quote_def cell_text_def cell_norm_def)
next
  case (Cons c cs)
  then show ?thesis using csv_loop_cells [of t "[]" c cs r] by (simp add: row_norm_def)
qed

lemma csv_serialize_Cons:
  "csv_serialize (row # t) = emit_cells True (map cell_text row) @ CHR 0x0A # csv_serialize t"
  by (simp add: csv_serialize_def)

lemma csv_serialize_empty: "csv_serialize t = [] \<longleftrightarrow> t = []"
  by (cases t) (simp_all add: csv_serialize_def)

lemma csv_loop_serialize: "rows \<noteq> [] \<Longrightarrow> csv_loop t [] (csv_serialize rows) = t @ map row_norm rows"
proof (induction rows arbitrary: t)
  case (Cons row rows)
  then show ?case by (cases "rows = []") (simp_all add: csv_serialize_Cons csv_loop_row csv_serialize_empty)
qed simp

lemma csv_parse_serialize: "csv_parse (csv_serialize t) = map row_norm t"
  by (cases "t = []") (simp_all add: csv_parse_def csv_serialize_empty csv_loop_serialize)

text \<open>A step of the parser ends, adds a cell to the row, or completes the row.\<close>

lemma csv_loop_step:
  obtains x where "csv_loop t row s = t @ [row @ [x]]"
  | x r where "csv_loop t row s = csv_loop t (row @ [x]) r" "length r < length s"
  | x r where "csv_loop t row s = csv_loop (t @ [row @ [x]]) [] r" "length r < length s"
proof -
  obtain fld r where f: "csv_field s = (fld, r)" by fastforce
  let ?x = "if length fld = 0 then None else Some fld"
  have len: "length r \<le> length s" using csv_field_length [of s] f by simp
  show ?thesis
  proof (cases r)
    case Nil
    then have "csv_loop t row s = t @ [row @ [?x]]" using f by (subst csv_loop.simps) (simp add: Let_def)
    then show ?thesis by (rule that(1))
  next
    case (Cons c cs)
    let ?r = "if c = CHR 0x0D \<and> cs \<noteq> [] \<and> hd cs = CHR 0x0A then tl cs else cs"
    have "csv_loop t row s = (if c = CHR '','' then csv_loop t (row @ [?x]) cs
        else if ?r = [] then t @ [row @ [?x]] else csv_loop (t @ [row @ [?x]]) [] ?r)"
      using f Cons by (subst csv_loop.simps) (simp add: Let_def)
    moreover have "length cs < length s" "length ?r < length s" using len Cons by auto
    ultimately show ?thesis
      using that(1) [of ?x] that(2) [of ?x cs] that(3) [of ?x ?r] by (cases "c = CHR '',''"; cases "?r = []") simp_all
  qed
qed

lemma csv_loop_rows:
  "\<forall>r\<in>set t. r \<noteq> [] \<Longrightarrow> csv_loop t row s \<noteq> [] \<and> (\<forall>r\<in>set (csv_loop t row s). r \<noteq> [])"
proof (induction s arbitrary: t row rule: length_induct)
  case (1 s)
  show ?case
  proof (cases rule: csv_loop_step [of t row s])
    case (3 x r)
    then show ?thesis using 1(2) 1(1) [rule_format, OF 3(2), of "t @ [row @ [x]]" "[]"] by fastforce
  qed (use 1 in simp_all)
qed

lemma csv_parse_rows: "row \<in> set (csv_parse s) \<Longrightarrow> row \<noteq> []"
  using csv_loop_rows [of "[]" "[]" s] by (auto simp: csv_parse_def split: if_splits)

lemma csv_parse_empty: "csv_parse s = [] \<longleftrightarrow> s = []"
  using csv_loop_rows [of "[]" "[]" s] by (simp add: csv_parse_def)

text \<open>
  C26. Every table survives a store and a load: parsing what the serializer writes gives back the same
  rows and cells, whatever commas, quotes and line breaks the cells contain. Cells are read as C
  strings, empty cells come back as \<open>NULL\<close>, and a row without cells comes back as a row with one empty
  cell. A parsed table, in particular, is stored and loaded without change of any text.
\<close>

theorem csv_store_load:
  "csv_parse (csv_serialize t) = map (\<lambda>row. if row = [] then [None] else map cell_norm row) t \<and>
   map (map cell_text) (csv_parse (csv_serialize (csv_parse s))) = map (map cell_text) (csv_parse s)"
  using csv_parse_rows [of _ s] by (auto simp: csv_parse_serialize row_norm_def)

end
