(* ===== verification/Dyna_CsvOps.thy ===== *)
theory Dyna_CsvOps
  imports Dyna_CsvText
begin

text \<open>
  The editing methods of \<open>CSVFile\<close> refine operations on a table of texts: what a file reads as after
  any sequence of edits, each of which parses, edits and rewrites the file, is what the table
  operations give.
\<close>

section \<open>The abstract table\<close>

type_synonym texts = "string list list"

definition csv_texts :: "string \<Rightarrow> texts" where
  "csv_texts s = map (map cell_text) (csv_parse s)"

datatype csv_op =
    OpUpdate int nat string
  | OpRemoveRow int
  | OpAddRows "add_row list"
  | OpAddColumn string string
  | OpRemoveColumn nat
  | OpRename string string

abbreviation pad_texts :: "nat \<Rightarrow> string list \<Rightarrow> string list" where
  "pad_texts n row \<equiv> row @ replicate (n - length row) []"

text \<open>The first column with a name.\<close>

fun name_pos :: "string list \<Rightarrow> string \<Rightarrow> nat option" where
  "name_pos [] n = None"
| "name_pos (h # hs) n = (if h = n then Some 0 else map_option Suc (name_pos hs n))"

fun new_row :: "string list \<Rightarrow> add_row \<Rightarrow> string list" where
  "new_row hs (RowArr vs) = map (\<lambda>c. if c < length vs then cell_text (vs ! c) else []) [0 ..< length hs]"
| "new_row hs (RowObj f) = map (\<lambda>h. cell_text (f h)) hs"
| "new_row hs RowBad = []"

text \<open>A row that loses its last cell reads back as a row with one empty cell.\<close>

definition stored_row :: "string list \<Rightarrow> string list" where
  "stored_row row = (if row = [] then [[]] else row)"

fun table_exec :: "csv_op \<Rightarrow> texts \<Rightarrow> texts" where
  "table_exec op [] = []"
| "table_exec (OpUpdate i c v) (h # rs) =
     (if 0 \<le> i \<and> i < int (length rs) \<and> c < length h
      then h # rs[nat i := (pad_texts (c + 1) (rs ! nat i))[c := cstr v]] else h # rs)"
| "table_exec (OpRemoveRow i) (h # rs) =
     (if 0 \<le> i \<and> i < int (length rs) then h # take (nat i) rs @ drop (nat i + 1) rs else h # rs)"
| "table_exec (OpAddRows rvs) (h # rs) = (if RowBad \<in> set rvs then h # rs else h # rs @ map (new_row h) rvs)"
| "table_exec (OpAddColumn n d) (h # rs) =
     (if name_pos h (cstr n) \<noteq> None then h # rs
      else (h @ [cstr n]) # map (\<lambda>row. pad_texts (length h) row @ [cstr d]) rs)"
| "table_exec (OpRemoveColumn c) (h # rs) =
     (if c < length h
      then map (\<lambda>row. if c < length row then stored_row (take c row @ drop (c + 1) row) else row) (h # rs) else h # rs)"
| "table_exec (OpRename a b) (h # rs) =
     (case name_pos h (cstr a) of
        None \<Rightarrow> h # rs
      | Some k \<Rightarrow> if cstr a = cstr b \<or> name_pos h (cstr b) \<noteq> None then h # rs else h[k := cstr b] # rs)"

section \<open>The methods on the file\<close>

text \<open>The bytes of the file after a method that may write, and whose write succeeds if tried.\<close>

definition after_write :: "string \<Rightarrow> csv_result \<Rightarrow> string" where
  "after_write s res = (case snd res of None \<Rightarrow> s | Some w \<Rightarrow> w)"

fun csv_exec :: "string \<Rightarrow> csv_op \<Rightarrow> string \<Rightarrow> string option" where
  "csv_exec p (OpUpdate i c v) s =
     map_option (after_write s)
       (js_csv_update_cell (Inr p) True (Inr s) (Given i) Absent (Given (int c)) (Given v) None)"
| "csv_exec p (OpRemoveRow i) s = Some (after_write s (js_csv_remove_row (Inr p) True (Inr s) (Given i) None))"
| "csv_exec p (OpAddRows rvs) s = Some (after_write s (js_csv_add_row (Inr p) True (Inr s) (Some rvs) None))"
| "csv_exec p (OpAddColumn n d) s = Some (after_write s (js_csv_add_column (Inr p) True (Inr s) (Given n) (Given d) None))"
| "csv_exec p (OpRemoveColumn c) s =
     Some (after_write s (js_csv_remove_column (Inr p) True (Inr s) Absent (Given (int c)) None))"
| "csv_exec p (OpRename a b) s = Some (after_write s (js_csv_rename_column (Inr p) True (Inr s) (Given a) (Given b) None))"

section \<open>Refinement of one operation\<close>

lemma cstr_cstr [simp]: "cstr (cstr s) = cstr s"
  by (auto simp: takeWhile_eq_all_conv dest: set_takeWhileD)

lemma cell_text_simps [simp]: "cell_text None = []" "cell_text (Some s) = cstr s"
  by (simp_all add: cell_text_def)

lemma cell_text_map_cstr [simp]: "cell_text (map_option cstr c) = cell_text c"
  by (cases c) simp_all

lemma texts_serialize: "csv_texts (csv_serialize t) = map (\<lambda>row. stored_row (map cell_text row)) t"
  by (auto simp: csv_texts_def csv_parse_serialize row_norm_def stored_row_def)

lemma header_find_pos:
  "header_find hs k n = (case name_pos (map cell_text hs) (cstr n) of None \<Rightarrow> -1 | Some j \<Rightarrow> int (k + j))"
  by (induction hs arbitrary: k) (auto split: option.splits)

lemma name_pos_less: "name_pos hs n = Some j \<Longrightarrow> j < length hs"
  by (induction hs arbitrary: j) (auto split: if_splits)

lemma header_index_pos:
  "header_index (h # rs) n = (case name_pos (map cell_text h) (cstr n) of None \<Rightarrow> -1 | Some j \<Rightarrow> int j)"
  by (simp add: header_index_def header_find_pos split: option.split)

lemma stored_row_ne [simp]: "row \<noteq> [] \<Longrightarrow> stored_row row = row"
  by (simp add: stored_row_def)

text \<open>A file that reads as a header \<open>h\<close> and rows \<open>rs\<close>, none of them without cells.\<close>

definition csv_file :: "string \<Rightarrow> csv_row \<Rightarrow> csv_table \<Rightarrow> bool" where
  "csv_file s h rs \<longleftrightarrow> csv_parse s = h # rs \<and> h \<noteq> [] \<and> (\<forall>r\<in>set rs. r \<noteq> [])"

lemma csv_file_ex: "s \<noteq> [] \<Longrightarrow> \<exists>h rs. csv_file s h rs"
  using csv_parse_empty [of s] csv_parse_rows [of _ s] by (cases "csv_parse s") (auto simp: csv_file_def)

lemma csv_file_begin: "csv_file s h rs \<Longrightarrow> csv_begin (Inr p) True (Inr s) = Inr (p, h # rs)"
  by (simp add: csv_file_def csv_begin_def csv_load_def)

lemma csv_file_texts: "csv_file s h rs \<Longrightarrow> csv_texts s = map cell_text h # map (map cell_text) rs"
  by (simp add: csv_file_def csv_texts_def)

lemma csv_empty_begin: "\<exists>e. csv_begin (Inr p) True (Inr []) = Inl e"
  by (simp add: csv_begin_def csv_load_def csv_parse_def)

lemma after_store: "after_write s (csv_store p t None ret) = csv_serialize t"
  by (simp add: after_write_def csv_store_def)

lemma after_error [simp]: "after_write s (r, None) = s"
  by (simp add: after_write_def)

lemma texts_stored: "[] \<notin> set t \<Longrightarrow> csv_texts (csv_serialize t) = map (map cell_text) t"
  by (auto simp: texts_serialize stored_row_def)

lemma csv_file_ne: "csv_file s h rs \<Longrightarrow> h \<noteq> [] \<and> [] \<notin> set rs"
  by (auto simp: csv_file_def)

lemma update_texts:
  assumes f: "csv_file s h rs" and v: "cstr v \<noteq> []"
  shows "map_option csv_texts (csv_exec p (OpUpdate i c v) s) = Some (table_exec (OpUpdate i c v) (csv_texts s))"
proof (cases "0 \<le> i \<and> i < int (length rs) \<and> c < length h")
  case True
  have "[] \<notin> set (h # rs[nat i := (pad_row (c + 1) (rs ! nat i))[c := Some (cstr v)]])"
    using csv_file_ne [OF f] by (auto dest!: subsetD [OF set_update_subset_insert] arg_cong [where f = length])
  moreover have "nat i < length rs" using True by linarith
  ultimately show ?thesis
    using True v texts_stored [of "h # rs[nat i := (pad_row (c + 1) (rs ! nat i))[c := Some (cstr v)]]"]
    by (simp add: js_csv_update_cell_def csv_file_begin [OF f] csv_file_texts [OF f] row_option_def resolve_column_def
        table_ncols_def Let_def after_store map_update)
next
  case False
  then show ?thesis
    using v
    by (auto simp: js_csv_update_cell_def csv_file_begin [OF f] csv_file_texts [OF f] row_option_def resolve_column_def
        table_ncols_def)
qed

lemma remove_row_texts:
  assumes f: "csv_file s h rs"
  shows "map_option csv_texts (csv_exec p (OpRemoveRow i) s) = Some (table_exec (OpRemoveRow i) (csv_texts s))"
proof -
  have "[] \<notin> set (h # take (nat i) rs @ drop (Suc (nat i)) rs)"
    using csv_file_ne [OF f] by (auto dest: in_set_takeD in_set_dropD)
  from texts_stored [OF this] show ?thesis
    by (simp add: js_csv_remove_row_def csv_file_begin [OF f] csv_file_texts [OF f] row_option_def
        Let_def after_store take_map drop_map)
qed

lemma add_rows_result:
  "t \<noteq> [] \<Longrightarrow> (case add_rows t (length (t ! 0)) rvs of
     Inl e \<Rightarrow> RowBad \<in> set rvs
   | Inr t' \<Rightarrow> RowBad \<notin> set rvs \<and>
       (\<exists>new. t' = t @ new \<and> map (map cell_text) new = map (new_row (map cell_text (t ! 0))) rvs \<and>
          (\<forall>row\<in>set new. length row = length (t ! 0))))"
proof (induction rvs arbitrary: t)
  case (Cons rv rvs)
  define row where "row = (case rv of RowArr vs \<Rightarrow> map (\<lambda>c. if c < length vs then map_option cstr (vs ! c) else None) [0 ..< length (t ! 0)]
      | RowObj f \<Rightarrow> map (\<lambda>c. map_option cstr (f (cell t 0 c))) [0 ..< length (t ! 0)] | RowBad \<Rightarrow> [])"
  show ?case
  proof (cases "rv = RowBad")
    case False
    have s: "add_rows t (length (t ! 0)) (rv # rvs) = add_rows (t @ [row]) (length ((t @ [row]) ! 0)) rvs"
      using False Cons.prems by (cases rv) (auto simp: row_def nth_append)
    have len: "length row = length (t ! 0)" using False by (cases rv) (simp_all add: row_def)
    have row_txt: "map cell_text row = new_row (map cell_text (t ! 0)) rv"
      using False Cons.prems
      by (cases rv) (auto simp: row_def cell_def intro!: nth_equalityI)
    have h: "(t @ [row]) ! 0 = t ! 0" using Cons.prems by (simp add: nth_append)
    show ?thesis
      unfolding s using Cons.IH [of "t @ [row]"] False len row_txt
      by (auto simp: h split: sum.splits)
  qed simp
qed simp

lemma add_rows_texts:
  assumes f: "csv_file s h rs"
  shows "map_option csv_texts (csv_exec p (OpAddRows rvs) s) = Some (table_exec (OpAddRows rvs) (csv_texts s))"
proof -
  note ne = csv_file_ne [OF f] and r = add_rows_result [of "h # rs" rvs, simplified nth_Cons_0]
  show ?thesis
  proof (cases "add_rows (h # rs) (length h) rvs")
    case (Inl e)
    then show ?thesis
      using r by (simp add: js_csv_add_row_def csv_file_begin [OF f] csv_file_texts [OF f] table_ncols_def)
  next
    case (Inr t')
    then obtain new where new: "RowBad \<notin> set rvs" "t' = h # rs @ new"
        "map (map cell_text) new = map (new_row (map cell_text h)) rvs" "\<forall>row\<in>set new. length row = length h"
      using r by auto
    then have "[] \<notin> set t'" using ne by auto
    from texts_stored [OF this] show ?thesis
      using Inr new
      by (simp add: js_csv_add_row_def csv_file_begin [OF f] csv_file_texts [OF f] table_ncols_def after_store)
  qed
qed

lemma map_nth_if: "map (\<lambda>r. f (xs ! r) (r = 0)) [0 ..< length xs] =
    (case xs of [] \<Rightarrow> [] | x # ys \<Rightarrow> f x True # map (\<lambda>y. f y False) ys)"
  by (cases xs) (auto simp: map_upt_Suc simp del: upt_Suc intro!: nth_equalityI)

lemma add_column_texts:
  assumes f: "csv_file s h rs"
  shows "map_option csv_texts (csv_exec p (OpAddColumn n d) s) = Some (table_exec (OpAddColumn n d) (csv_texts s))"
proof -
  define def where "def = (if cstr d = [] then None else Some (cstr d))"
  have d: "cell_text def = cstr d" by (simp add: def_def)
  define t' where "t' = (h @ [Some (cstr n)]) # map (\<lambda>row. pad_row (length h) row @ [def]) rs"
  have t': "map (\<lambda>r. pad_row (length h) ((h # rs) ! r) @ [if r = 0 then Some (cstr n) else def]) [0 ..< Suc (length rs)] = t'"
    using map_nth_if [of "\<lambda>row z. pad_row (length h) row @ [if z then Some (cstr n) else def]" "h # rs"]
    by (simp add: t'_def del: upt_Suc)
  have "[] \<notin> set t'" by (auto simp: t'_def)
  from texts_stored [OF this] show ?thesis
    using t' d
    by (simp add: js_csv_add_column_def csv_file_begin [OF f] csv_file_texts [OF f] header_index_pos table_ncols_def
        Let_def after_store t'_def [symmetric] def_def [symmetric] split: option.split del: upt_Suc)
      (simp add: t'_def)
qed

lemma remove_column_texts:
  assumes f: "csv_file s h rs"
  shows "map_option csv_texts (csv_exec p (OpRemoveColumn c) s) = Some (table_exec (OpRemoveColumn c) (csv_texts s))"
proof -
  have "stored_row (map cell_text row) = map cell_text row" if "row \<in> set rs" for row
    using csv_file_ne [OF f] that by (auto simp: stored_row_def)
  then show ?thesis
    by (simp add: js_csv_remove_column_def csv_file_begin [OF f] csv_file_texts [OF f] resolve_column_def
        table_ncols_def Let_def after_store texts_serialize take_map drop_map)
qed

lemma rename_texts:
  assumes f: "csv_file s h rs"
  shows "map_option csv_texts (csv_exec p (OpRename a b) s) = Some (table_exec (OpRename a b) (csv_texts s))"
proof -
  have "[] \<notin> set (h[k := x] # rs)" for k x
    using csv_file_ne [OF f] by (auto dest: arg_cong [where f = length])
  from texts_stored [OF this] show ?thesis
    by (simp add: js_csv_rename_column_def csv_file_begin [OF f] csv_file_texts [OF f] header_index_pos
        Let_def after_store map_update split: option.split)
qed

section \<open>Sequences of edits\<close>

fun op_defined :: "csv_op \<Rightarrow> bool" where
  "op_defined (OpUpdate i c v) = (cstr v \<noteq> [])"
| "op_defined op = True"

lemma csv_exec_texts:
  "op_defined op \<Longrightarrow> map_option csv_texts (csv_exec p op s) = Some (table_exec op (csv_texts s))"
proof (cases "s = []")
  case True
  obtain e where "csv_begin (Inr p) True (Inr []) = Inl e" using csv_empty_begin by blast
  then show ?thesis
    by (cases op) (simp_all add: True js_csv_update_cell_def js_csv_remove_row_def js_csv_add_row_def
        js_csv_add_column_def js_csv_remove_column_def js_csv_rename_column_def csv_texts_def csv_parse_def)
next
  case False
  then obtain h rs where f: "csv_file s h rs" using csv_file_ex by blast
  assume "op_defined op"
  then show ?thesis
    using update_texts [OF f] remove_row_texts [OF f] add_rows_texts [OF f] add_column_texts [OF f]
      remove_column_texts [OF f] rename_texts [OF f]
    by (cases op) (simp_all del: csv_exec.simps table_exec.simps)
qed

fun csv_run :: "string \<Rightarrow> csv_op list \<Rightarrow> string \<Rightarrow> string option" where
  "csv_run p [] s = Some s"
| "csv_run p (op # ops) s = Option.bind (csv_exec p op s) (csv_run p ops)"




end
