(* ===== verification/Dyna_Evloop.thy ===== *)
theory Dyna_Evloop
  imports Dyna_Prelude "HOL-Library.Word"
begin

unbundle bit_operations_syntax

text \<open>
  The readiness reactor of \<^verbatim>\<open>src/src/dyna-evloop.c\<close>, with its epoll and its poll(2) backend: the table
  of registrations indexed by descriptor, its growth, \<open>add\<close>, \<open>mod\<close>, \<open>del\<close>, and one wait-and-dispatch
  iteration.

  The kernel is outside the source: \<open>ctl\<close> stands for \<open>epoll_ctl\<close> on the kernel object behind
  \<open>backend_fd\<close>, whose state is the field \<open>lp_kernel\<close>, and what \<open>epoll_wait\<close> or \<open>poll\<close> returns is an
  argument. A callback is a program that makes calls of the reactor and may decide on their results;
  \<open>'s\<close> is the state callbacks share. Undefined behaviour (a doubling that overflows \<open>int\<close>) is the outer
  \<^term>\<open>None\<close>.
\<close>

section \<open>Constants and data\<close>

definition DYN_EV_READ :: "32 word" where "DYN_EV_READ = 1"
definition DYN_EV_WRITE :: "32 word" where "DYN_EV_WRITE = 2"
definition DYN_EV_ERROR :: "32 word" where "DYN_EV_ERROR = 4"

text \<open>Event bits of the system headers, the same for epoll and poll(2).\<close>

abbreviation EPOLLIN :: "32 word" where "EPOLLIN \<equiv> 0x001"
abbreviation EPOLLOUT :: "32 word" where "EPOLLOUT \<equiv> 0x004"
abbreviation EPOLLERR :: "32 word" where "EPOLLERR \<equiv> 0x008"
abbreviation EPOLLHUP :: "32 word" where "EPOLLHUP \<equiv> 0x010"
abbreviation POLLNVAL :: "32 word" where "POLLNVAL \<equiv> 0x020"

datatype ev_errno = ENOENT | EINTR | OtherErrno nat

datatype ctl_op = CtlAdd | CtlMod | CtlDel

type_synonym 'k epoll_ctl = "ctl_op \<Rightarrow> int \<Rightarrow> 32 word \<Rightarrow> 'k \<Rightarrow> ev_errno option \<times> 'k"

record ev_reg =
  reg_cb :: "nat option"
  reg_udata :: nat
  reg_interest :: "32 word"

definition reg_zero :: ev_reg where
  "reg_zero = \<lparr>reg_cb = None, reg_udata = 0, reg_interest = 0\<rparr>"

record 'k evloop =
  lp_kernel :: 'k
  lp_regs :: "ev_reg list"
  lp_nreg :: nat

abbreviation lp_cap :: "('k, 'z) evloop_scheme \<Rightarrow> nat" where
  "lp_cap lp \<equiv> length (lp_regs lp)"

section \<open>Registration\<close>

text \<open>The doubling loop of \<open>reg_ensure\<close>. \<^term>\<open>None\<close>: the doubling overflows \<open>int\<close>, or never ends.\<close>

function grow_cap :: "nat \<Rightarrow> nat \<Rightarrow> nat option" where
  "grow_cap nc fd =
     (if nc \<le> fd then (if nc = 0 \<or> nc * 2 \<ge> 2 ^ 31 then None else grow_cap (nc * 2) fd) else Some nc)"
  by pat_completeness auto
termination
  by (relation "measure (\<lambda>(nc, fd). Suc fd - nc)") auto

declare grow_cap.simps [simp del]

definition reg_ensure :: "'k evloop \<Rightarrow> nat \<Rightarrow> bool \<Rightarrow> (int \<times> 'k evloop) option" where
  "reg_ensure lp fd mem_ok =
     (if fd < lp_cap lp then Some (0, lp)
      else if lp_cap lp * 2 \<ge> 2 ^ 31 then None
      else
        (case grow_cap (if lp_cap lp \<noteq> 0 then lp_cap lp * 2 else 64) fd of
           None \<Rightarrow> None
         | Some nc \<Rightarrow>
             if \<not> mem_ok then Some (-1, lp)
             else Some (0, lp\<lparr>lp_regs := lp_regs lp @ replicate (nc - lp_cap lp) reg_zero\<rparr>)))"

text \<open>\<open>epoll_create1\<close> and the allocation give a kernel object or fail.\<close>

definition dyn_evloop_new :: "'k option \<Rightarrow> 'k evloop option" where
  "dyn_evloop_new created =
     (case created of None \<Rightarrow> None | Some k \<Rightarrow> Some \<lparr>lp_kernel = k, lp_regs = [], lp_nreg = 0\<rparr>)"

definition dyn_evloop_count :: "'k evloop \<Rightarrow> nat" where
  "dyn_evloop_count lp = lp_nreg lp"

definition ev_events :: "32 word \<Rightarrow> 32 word" where
  "ev_events neu =
     (if neu AND DYN_EV_READ \<noteq> 0 then EPOLLIN else 0) OR (if neu AND DYN_EV_WRITE \<noteq> 0 then EPOLLOUT else 0)"

definition backend_apply :: "'k epoll_ctl \<Rightarrow> 'k \<Rightarrow> int \<Rightarrow> 32 word \<Rightarrow> 32 word \<Rightarrow> int \<times> 'k" where
  "backend_apply ctl k fd old neu =
     (let op = (if old = 0 \<and> neu \<noteq> 0 then CtlAdd else if old \<noteq> 0 \<and> neu = 0 then CtlDel else CtlMod)
      in case ctl op fd (ev_events neu) k of
           (None, k') \<Rightarrow> (0, k')
         | (Some e, k') \<Rightarrow> if op = CtlDel \<and> e = ENOENT then (0, k') else (-1, k'))"

definition set_interest :: "nat \<Rightarrow> 32 word \<Rightarrow> ev_reg list \<Rightarrow> ev_reg list" where
  "set_interest fd i regs = regs[fd := (regs ! fd)\<lparr>reg_interest := i\<rparr>]"

definition count_change :: "32 word \<Rightarrow> 32 word \<Rightarrow> nat \<Rightarrow> nat" where
  "count_change old neu n =
     (if old = 0 \<and> neu \<noteq> 0 then u64 (n + 1) else if old \<noteq> 0 \<and> neu = 0 then u64 (n + 2 ^ 64 - 1) else n)"

text \<open>The part \<open>add\<close> and \<open>mod\<close> share: the new interest is entered, taken back when the backend
  refuses it, and counted otherwise.\<close>

definition ev_change :: "'k epoll_ctl \<Rightarrow> 'k evloop \<Rightarrow> nat \<Rightarrow> 32 word \<Rightarrow> int \<times> 'k evloop" where
  "ev_change ctl lp fd interest =
     (let old = reg_interest (lp_regs lp ! fd); regs = set_interest fd interest (lp_regs lp)
      in case backend_apply ctl (lp_kernel lp) (int fd) old interest of
           (rc, k) \<Rightarrow>
             if rc < 0 then (-1, lp\<lparr>lp_kernel := k, lp_regs := set_interest fd old regs\<rparr>)
             else (0, lp\<lparr>lp_kernel := k, lp_regs := regs, lp_nreg := count_change old interest (lp_nreg lp)\<rparr>))"

definition dyn_evloop_add :: "'k epoll_ctl \<Rightarrow> 'k evloop \<Rightarrow> int \<Rightarrow> 32 word \<Rightarrow> nat option \<Rightarrow> nat \<Rightarrow> bool \<Rightarrow>
    (int \<times> 'k evloop) option" where
  "dyn_evloop_add ctl lp fd interest cb udata mem_ok =
     (if fd < 0 then Some (-1, lp)
      else
        (case reg_ensure lp (nat fd) mem_ok of
           None \<Rightarrow> None
         | Some (rc, lp1) \<Rightarrow>
             if rc < 0 then Some (-1, lp1)
             else
               (let r = lp_regs lp1 ! nat fd
                in Some (ev_change ctl
                     (lp1\<lparr>lp_regs := (lp_regs lp1)[nat fd := r\<lparr>reg_cb := cb, reg_udata := udata\<rparr>]\<rparr>) (nat fd) interest))))"

definition dyn_evloop_mod :: "'k epoll_ctl \<Rightarrow> 'k evloop \<Rightarrow> int \<Rightarrow> 32 word \<Rightarrow> int \<times> 'k evloop" where
  "dyn_evloop_mod ctl lp fd interest =
     (if fd < 0 \<or> fd \<ge> int (lp_cap lp) then (-1, lp) else ev_change ctl lp (nat fd) interest)"

definition dyn_evloop_del :: "'k epoll_ctl \<Rightarrow> 'k evloop \<Rightarrow> int \<Rightarrow> int \<times> 'k evloop" where
  "dyn_evloop_del ctl lp fd =
     (if fd < 0 \<or> fd \<ge> int (lp_cap lp) \<or> reg_interest (lp_regs lp ! nat fd) = 0 then (0, lp)
      else dyn_evloop_mod ctl lp fd 0)"

section \<open>Callbacks\<close>

text \<open>A callback ends, or calls the reactor and goes on with the result. The Boolean of \<open>CbAdd\<close> is
  whether a growth of the table finds memory.\<close>

datatype 's cb_prog =
    CbDone 's
  | CbAdd int "32 word" "nat option" nat bool "int \<Rightarrow> 's cb_prog"
  | CbMod int "32 word" "int \<Rightarrow> 's cb_prog"
  | CbDel int "int \<Rightarrow> 's cb_prog"

primrec run_cb :: "'k epoll_ctl \<Rightarrow> 's cb_prog \<Rightarrow> 'k evloop \<Rightarrow> ('s \<times> 'k evloop) option" where
  "run_cb ctl (CbDone s) = (\<lambda>lp. Some (s, lp))"
| "run_cb ctl (CbAdd fd i cb ud ok k) =
     (\<lambda>lp. case dyn_evloop_add ctl lp fd i cb ud ok of None \<Rightarrow> None | Some (rc, lp') \<Rightarrow> run_cb ctl (k rc) lp')"
| "run_cb ctl (CbMod fd i k) = (\<lambda>lp. case dyn_evloop_mod ctl lp fd i of (rc, lp') \<Rightarrow> run_cb ctl (k rc) lp')"
| "run_cb ctl (CbDel fd k) = (\<lambda>lp. case dyn_evloop_del ctl lp fd of (rc, lp') \<Rightarrow> run_cb ctl (k rc) lp')"

text \<open>The code behind the function pointers: callback, descriptor, mask, user data, shared state.\<close>

type_synonym 's cb_table = "nat \<Rightarrow> int \<Rightarrow> 32 word \<Rightarrow> nat \<Rightarrow> 's \<Rightarrow> 's cb_prog"

section \<open>Waiting and dispatching\<close>

definition epoll_mask :: "32 word \<Rightarrow> 32 word" where
  "epoll_mask ev =
     (if ev AND (EPOLLIN OR EPOLLHUP) \<noteq> 0 then DYN_EV_READ else 0) OR
     (if ev AND EPOLLOUT \<noteq> 0 then DYN_EV_WRITE else 0) OR
     (if ev AND (EPOLLERR OR EPOLLHUP) \<noteq> 0 then DYN_EV_ERROR else 0)"

definition poll_mask :: "32 word \<Rightarrow> 32 word" where
  "poll_mask re =
     (if re AND (EPOLLIN OR EPOLLHUP) \<noteq> 0 then DYN_EV_READ else 0) OR
     (if re AND EPOLLOUT \<noteq> 0 then DYN_EV_WRITE else 0) OR
     (if re AND (EPOLLERR OR EPOLLHUP OR POLLNVAL) \<noteq> 0 then DYN_EV_ERROR else 0)"

text \<open>One event: the callback it runs, if its slot is in the table and registered.\<close>

definition ev_target :: "'k evloop \<Rightarrow> int \<Rightarrow> (nat \<times> nat) option" where
  "ev_target lp fd =
     (if fd < 0 \<or> fd \<ge> int (lp_cap lp) then None
      else
        (let r = lp_regs lp ! nat fd
         in if reg_interest r = 0 then None else map_option (\<lambda>cb. (cb, reg_udata r)) (reg_cb r)))"

text \<open>The dispatch loop. Besides the states it returns the callbacks it ran, in order.\<close>

type_synonym ev_call = "int \<times> 32 word \<times> nat \<times> nat"

fun ev_dispatch :: "'k epoll_ctl \<Rightarrow> (32 word \<Rightarrow> 32 word) \<Rightarrow> 's cb_table \<Rightarrow> (int \<times> 32 word) list \<Rightarrow> 's \<Rightarrow> 'k evloop \<Rightarrow>
    (ev_call list \<times> 's \<times> 'k evloop) option" where
  "ev_dispatch ctl mk cbs [] s lp = Some ([], s, lp)"
| "ev_dispatch ctl mk cbs ((fd, ev) # evs) s lp =
     (case ev_target lp fd of
        None \<Rightarrow> ev_dispatch ctl mk cbs evs s lp
      | Some (cb, ud) \<Rightarrow>
          (case run_cb ctl (cbs cb fd (mk ev) ud s) lp of
             None \<Rightarrow> None
           | Some (s', lp') \<Rightarrow>
               map_option (\<lambda>(calls, r). ((fd, mk ev, cb, ud) # calls, r)) (ev_dispatch ctl mk cbs evs s' lp')))"

text \<open>\<open>wait\<close> is what \<open>epoll_wait\<close> gives: its error or its events.\<close>

definition dyn_evloop_poll :: "'k epoll_ctl \<Rightarrow> 's cb_table \<Rightarrow> ev_errno + (int \<times> 32 word) list \<Rightarrow> 's \<Rightarrow> 'k evloop \<Rightarrow>
    (int \<times> ev_call list \<times> 's \<times> 'k evloop) option" where
  "dyn_evloop_poll ctl cbs wait s lp =
     (case wait of
        Inl e \<Rightarrow> Some (if e = EINTR then 0 else -1, [], s, lp)
      | Inr evs \<Rightarrow> map_option (\<lambda>(calls, s', lp'). (int (length calls), calls, s', lp')) (ev_dispatch ctl epoll_mask cbs evs s lp))"

section \<open>The poll(2) backend\<close>

text \<open>Its \<open>backend_apply\<close> mirrors nothing.\<close>

definition backend_apply_poll :: "unit epoll_ctl" where
  "backend_apply_poll op fd ev k = (None, k)"

text \<open>The set of descriptors handed to \<open>poll\<close>, with their events.\<close>

definition poll_fds :: "'k evloop \<Rightarrow> (int \<times> 32 word) list" where
  "poll_fds lp =
     map (\<lambda>i. (int i, ev_events (reg_interest (lp_regs lp ! i))))
       (filter (\<lambda>i. reg_interest (lp_regs lp ! i) \<noteq> 0) [0 ..< lp_cap lp])"

text \<open>The loop over the results, which also stops once \<open>n\<close> callbacks ran.\<close>

fun poll_loop :: "'s cb_table \<Rightarrow> nat \<Rightarrow> nat \<Rightarrow> (int \<times> 32 word) list \<Rightarrow> 's \<Rightarrow> unit evloop \<Rightarrow>
    (ev_call list \<times> 's \<times> unit evloop) option" where
  "poll_loop cbs n dispatched [] s lp = Some ([], s, lp)"
| "poll_loop cbs n dispatched ((fd, re) # res) s lp =
     (if dispatched < n then
        (if re = 0 then poll_loop cbs n dispatched res s lp
         else
           (case ev_target lp fd of
              None \<Rightarrow> poll_loop cbs n dispatched res s lp
            | Some (cb, ud) \<Rightarrow>
                (case run_cb backend_apply_poll (cbs cb fd (poll_mask re) ud s) lp of
                   None \<Rightarrow> None
                 | Some (s', lp') \<Rightarrow>
                     map_option (\<lambda>(calls, r). ((fd, poll_mask re, cb, ud) # calls, r))
                       (poll_loop cbs n (dispatched + 1) res s' lp'))))
      else Some ([], s, lp))"

text \<open>\<open>grown\<close>: whether the array of poll descriptors is, or can be made, large enough. \<open>wait\<close> is the
  error of \<open>poll\<close>, or its return value and the bits it reports for each descriptor.\<close>

definition dyn_evloop_poll_poll :: "'s cb_table \<Rightarrow> bool \<Rightarrow> ev_errno + nat \<times> 32 word list \<Rightarrow> 's \<Rightarrow> unit evloop \<Rightarrow>
    (int \<times> ev_call list \<times> 's \<times> unit evloop) option" where
  "dyn_evloop_poll_poll cbs grown wait s lp =
     (if \<not> grown then Some (-1, [], s, lp)
      else
        (case wait of
           Inl e \<Rightarrow> Some (if e = EINTR then 0 else -1, [], s, lp)
         | Inr (n, revents) \<Rightarrow>
             map_option (\<lambda>(calls, s', lp'). (int (length calls), calls, s', lp'))
               (poll_loop cbs n 0 (zip (map fst (poll_fds lp)) revents) s lp)))"

end
