(* ===== verification/Dyna_EvloopProps.thy ===== *)
theory Dyna_EvloopProps
  imports Dyna_Evloop
begin

text \<open>
  What the reactor promises: its counter and the kernel's interest list agree with the registration
  table in every reachable state, a registered descriptor that the kernel reports is dispatched and
  an unregistered one is not, and the poll(2) backend serves every ready descriptor.
\<close>

section \<open>Descriptors and slots\<close>

text \<open>The registration of a descriptor; one outside the table has none.\<close>

definition ev_slot :: "'k evloop \<Rightarrow> int \<Rightarrow> ev_reg" where
  "ev_slot lp fd = (if 0 \<le> fd \<and> fd < int (lp_cap lp) then lp_regs lp ! nat fd else reg_zero)"

lemma ev_slot_nth [simp]: "fd < lp_cap lp \<Longrightarrow> ev_slot lp (int fd) = lp_regs lp ! fd"
  by (simp add: ev_slot_def)

lemma ev_target_slot:
  "ev_target lp fd =
     (if reg_interest (ev_slot lp fd) = 0 then None
      else map_option (\<lambda>cb. (cb, reg_udata (ev_slot lp fd))) (reg_cb (ev_slot lp fd)))"
  by (auto simp: ev_target_def ev_slot_def reg_zero_def Let_def)

lemma set_interest_same [simp]:
  "fd < length regs \<Longrightarrow> set_interest fd (reg_interest (regs ! fd)) (set_interest fd i regs) = regs"
  by (simp add: set_interest_def)

lemma length_set_interest [simp]: "length (set_interest fd i regs) = length regs"
  by (simp add: set_interest_def)

lemma length_filter_update:
  assumes "i < length xs"
  shows "length (filter P (xs[i := x])) + (if P (xs ! i) then 1 else 0) = length (filter P xs) + (if P x then 1 else 0)"
proof -
  have "length (filter P (xs[i := x])) = length (filter P (take i xs)) + (if P x then 1 else 0) + length (filter P (drop (Suc i) xs))"
    using assms by (simp add: upd_conv_take_nth_drop)
  moreover have "length (filter P xs) = length (filter P (take i xs)) + (if P (xs ! i) then 1 else 0) + length (filter P (drop (Suc i) xs))"
    using assms by (subst id_take_nth_drop [OF assms]) (simp del: append_take_drop_id)
  ultimately show ?thesis by simp
qed

section \<open>The documented kernel\<close>

text \<open>
  The interest list of an epoll instance as \<open>epoll_ctl(2)\<close> documents it: \<open>armed k\<close> is the list of the
  kernel object \<open>k\<close>. A failing call changes nothing, \<open>ADD\<close> needs an absent and \<open>MOD\<close> a present
  descriptor, and \<open>ENOENT\<close> from \<open>DEL\<close> means that the descriptor is absent.
\<close>

definition epoll_documented :: "'k epoll_ctl \<Rightarrow> ('k \<Rightarrow> int \<rightharpoonup> 32 word) \<Rightarrow> bool" where
  "epoll_documented ctl armed \<longleftrightarrow>
     (\<forall>op fd ev k. case ctl op fd ev k of
        (Some e, k') \<Rightarrow> armed k' = armed k \<and> (op = CtlDel \<and> e = ENOENT \<longrightarrow> armed k fd = None)
      | (None, k') \<Rightarrow>
          (case op of
             CtlAdd \<Rightarrow> armed k fd = None \<and> armed k' = (armed k)(fd \<mapsto> ev)
           | CtlMod \<Rightarrow> armed k fd \<noteq> None \<and> armed k' = (armed k)(fd \<mapsto> ev)
           | CtlDel \<Rightarrow> armed k' = (armed k)(fd := None)))"

text \<open>The kernel holds exactly the registered descriptors, with the events of their interest.\<close>

definition ev_armed :: "32 word \<Rightarrow> 32 word option" where
  "ev_armed i = (if i = 0 then None else Some (ev_events i))"

lemma backend_apply_mirrors:
  assumes doc: "epoll_documented ctl armed" and old: "armed k fd = ev_armed old"
    and b: "backend_apply ctl k fd old neu = (rc, k')"
  shows "armed k' = (if rc < 0 then armed k else (armed k)(fd := ev_armed neu))"
proof -
  define op where "op = (if old = 0 \<and> neu \<noteq> 0 then CtlAdd else if old \<noteq> 0 \<and> neu = 0 then CtlDel else CtlMod)"
  obtain e k1 where c: "ctl op fd (ev_events neu) k = (e, k1)" by fastforce
  have d: "case e of
        Some e \<Rightarrow> armed k1 = armed k \<and> (op = CtlDel \<and> e = ENOENT \<longrightarrow> armed k fd = None)
      | None \<Rightarrow>
          (case op of
             CtlAdd \<Rightarrow> armed k fd = None \<and> armed k1 = (armed k)(fd \<mapsto> ev_events neu)
           | CtlMod \<Rightarrow> armed k fd \<noteq> None \<and> armed k1 = (armed k)(fd \<mapsto> ev_events neu)
           | CtlDel \<Rightarrow> armed k1 = (armed k)(fd := None))"
    using spec [OF spec [OF spec [OF spec [OF doc [unfolded epoll_documented_def], of op], of fd], of "ev_events neu"], of k] c
    by (cases e) simp_all
  show ?thesis
    using b c d old
    by (auto simp: backend_apply_def Let_def op_def [symmetric] ev_armed_def split: option.splits if_splits ctl_op.splits)
      (auto simp: op_def fun_upd_idem split: if_splits)
qed

section \<open>The registry invariant\<close>

abbreviation reg_used :: "ev_reg \<Rightarrow> bool" where
  "reg_used r \<equiv> reg_interest r \<noteq> 0"

definition ev_inv :: "('k \<Rightarrow> int \<rightharpoonup> 32 word) \<Rightarrow> 'k evloop \<Rightarrow> bool" where
  "ev_inv armed lp \<longleftrightarrow>
     lp_cap lp < 2 ^ 31 \<and> lp_nreg lp = length (filter reg_used (lp_regs lp)) \<and>
     (\<forall>fd. armed (lp_kernel lp) fd = ev_armed (reg_interest (ev_slot lp fd)))"

lemma grow_cap_less: "grow_cap nc fd = Some n \<Longrightarrow> nc < 2 ^ 31 \<Longrightarrow> fd < n \<and> nc \<le> n \<and> n < 2 ^ 31"
  by (induction nc fd rule: grow_cap.induct) (subst (asm) (2) grow_cap.simps, auto split: if_splits)

lemma reg_ensure_slots:
  assumes "reg_ensure lp fd ok = Some (rc, lp1)"
  shows "rc = 0 \<or> rc = -1" "rc \<ge> 0 \<longrightarrow> fd < lp_cap lp1" "ev_slot lp1 d = ev_slot lp d"
    "lp_kernel lp1 = lp_kernel lp" "lp_nreg lp1 = lp_nreg lp"
    "length (filter reg_used (lp_regs lp1)) = length (filter reg_used (lp_regs lp))"
    "lp_cap lp < 2 ^ 31 \<Longrightarrow> lp_cap lp1 < 2 ^ 31"
proof -
  consider "lp1 = lp" "rc = 0" "fd < lp_cap lp" | "lp1 = lp" "rc = -1"
    | n where "lp1 = lp\<lparr>lp_regs := lp_regs lp @ replicate (n - lp_cap lp) reg_zero\<rparr>" "rc = 0"
        "fd < n" "lp_cap lp \<le> n" "n < 2 ^ 31"
    using assms grow_cap_less [of "if lp_cap lp \<noteq> 0 then lp_cap lp * 2 else 64" fd]
    by (fastforce simp: reg_ensure_def split: if_splits option.splits)
  note cs = this
  show "rc = 0 \<or> rc = -1" by (cases rule: cs) simp_all
  show "rc \<ge> 0 \<longrightarrow> fd < lp_cap lp1" by (cases rule: cs) simp_all
  show "ev_slot lp1 d = ev_slot lp d" by (cases rule: cs) (auto simp: ev_slot_def nth_append)
  show "lp_kernel lp1 = lp_kernel lp" by (cases rule: cs) simp_all
  show "lp_nreg lp1 = lp_nreg lp" by (cases rule: cs) simp_all
  show "length (filter reg_used (lp_regs lp1)) = length (filter reg_used (lp_regs lp))"
    by (cases rule: cs) (simp_all add: reg_zero_def)
  show "lp_cap lp < 2 ^ 31 \<Longrightarrow> lp_cap lp1 < 2 ^ 31" by (cases rule: cs) simp_all
qed

lemma count_change_filter:
  assumes "fd < length regs" and "n = length (filter reg_used regs)" and "length regs < 2 ^ 31"
  shows "count_change (reg_interest (regs ! fd)) i n = length (filter reg_used (set_interest fd i regs))"
proof -
  have "n \<le> length regs" using assms(2) by simp
  then have n: "n < 2 ^ 31" using assms(3) by simp
  define m where "m = length (filter reg_used (set_interest fd i regs))"
  have "m + (if reg_used (regs ! fd) then 1 else 0) = n + (if i \<noteq> 0 then 1 else 0)"
    using length_filter_update [OF assms(1), of reg_used "(regs ! fd)\<lparr>reg_interest := i\<rparr>"] assms(2)
    by (simp add: m_def set_interest_def)
  then show ?thesis
    using n unfolding m_def [symmetric] by (auto simp: count_change_def u64_def mod_if split: if_splits)
qed

lemma ev_change_inv:
  assumes doc: "epoll_documented ctl armed" and inv: "ev_inv armed lp" and fd: "fd < lp_cap lp"
    and c: "ev_change ctl lp fd i = (rc, lp')"
  shows "ev_inv armed lp'"
proof -
  define old where "old = reg_interest (lp_regs lp ! fd)"
  obtain rc1 k where b: "backend_apply ctl (lp_kernel lp) (int fd) old i = (rc1, k)" by fastforce
  have "armed (lp_kernel lp) (int fd) = ev_armed old" using inv fd by (simp add: ev_inv_def old_def)
  note m = backend_apply_mirrors [OF doc this b]
  show ?thesis
  proof (cases "rc1 < 0")
    case True
    then have "lp' = lp\<lparr>lp_kernel := k\<rparr>"
      using c b fd by (simp add: ev_change_def old_def [symmetric] Let_def) (simp add: old_def)
    then show ?thesis using inv m True by (simp add: ev_inv_def ev_slot_def)
  next
    case False
    then have lp': "lp' = lp\<lparr>lp_kernel := k, lp_regs := set_interest fd i (lp_regs lp),
        lp_nreg := count_change old i (lp_nreg lp)\<rparr>"
      using c b by (simp add: ev_change_def old_def [symmetric] Let_def)
    have "reg_interest (ev_slot lp' d) = (if d = int fd then i else reg_interest (ev_slot lp d))" for d
      using fd by (auto simp: lp' ev_slot_def set_interest_def nth_list_update)
    then show ?thesis
      using inv m False count_change_filter [OF fd] by (simp add: ev_inv_def lp' old_def)
  qed
qed

lemma mod_inv:
  "epoll_documented ctl armed \<Longrightarrow> ev_inv armed lp \<Longrightarrow> dyn_evloop_mod ctl lp fd i = (rc, lp') \<Longrightarrow> ev_inv armed lp'"
  by (auto simp: dyn_evloop_mod_def split: if_splits intro: ev_change_inv [where fd = "nat fd"])

lemma del_inv:
  "epoll_documented ctl armed \<Longrightarrow> ev_inv armed lp \<Longrightarrow> dyn_evloop_del ctl lp fd = (rc, lp') \<Longrightarrow> ev_inv armed lp'"
  by (auto simp: dyn_evloop_del_def split: if_splits dest: mod_inv)

lemma cb_update_inv:
  "ev_inv armed lp \<Longrightarrow> fd < lp_cap lp \<Longrightarrow>
     ev_inv armed (lp\<lparr>lp_regs := (lp_regs lp)[fd := (lp_regs lp ! fd)\<lparr>reg_cb := cb, reg_udata := ud\<rparr>]\<rparr>)"
  using length_filter_update [of fd "lp_regs lp" reg_used "(lp_regs lp ! fd)\<lparr>reg_cb := cb, reg_udata := ud\<rparr>"]
  by (auto simp: ev_inv_def ev_slot_def nth_list_update split: if_splits)

lemma add_inv:
  assumes doc: "epoll_documented ctl armed" and inv: "ev_inv armed lp"
    and a: "dyn_evloop_add ctl lp fd i cb ud ok = Some (rc, lp')"
  shows "ev_inv armed lp'"
proof (cases "fd < 0")
  case False
  then obtain rc1 lp1 where e: "reg_ensure lp (nat fd) ok = Some (rc1, lp1)"
    using a by (auto simp: dyn_evloop_add_def split: option.splits)
  note s = reg_ensure_slots [OF e]
  have inv1: "ev_inv armed lp1" using inv s by (simp add: ev_inv_def)
  show ?thesis
  proof (cases "rc1 < 0")
    case False
    then have "nat fd < lp_cap lp1" using s(2) by simp
    from ev_change_inv [OF doc cb_update_inv [OF inv1 this]] show ?thesis
      using a e False \<open>\<not> fd < 0\<close> \<open>nat fd < lp_cap lp1\<close> by (auto simp: dyn_evloop_add_def Let_def)
  qed (use a e False inv1 in \<open>simp add: dyn_evloop_add_def\<close>)
qed (use a inv in \<open>simp add: dyn_evloop_add_def\<close>)

text \<open>What every call of the reactor preserves, every callback and every dispatch preserves.\<close>

lemma run_cb_preserves:
  assumes "\<And>fd i cb ud ok lp rc lp'. P lp \<Longrightarrow> dyn_evloop_add ctl lp fd i cb ud ok = Some (rc, lp') \<Longrightarrow> P lp'"
    and "\<And>fd i lp rc lp'. P lp \<Longrightarrow> dyn_evloop_mod ctl lp fd i = (rc, lp') \<Longrightarrow> P lp'"
    and "\<And>fd lp rc lp'. P lp \<Longrightarrow> dyn_evloop_del ctl lp fd = (rc, lp') \<Longrightarrow> P lp'"
  shows "P lp \<Longrightarrow> run_cb ctl p lp = Some (s, lp') \<Longrightarrow> P lp'"
proof (induction p arbitrary: lp)
  case (CbAdd fd i cb ud ok k)
  then obtain rc lp1 where "dyn_evloop_add ctl lp fd i cb ud ok = Some (rc, lp1)" "run_cb ctl (k rc) lp1 = Some (s, lp')"
    by (auto split: option.splits)
  with CbAdd.IH [of "k rc" lp1] assms(1) CbAdd.prems(1) show ?case by blast
next
  case (CbMod fd i k)
  then obtain rc lp1 where "dyn_evloop_mod ctl lp fd i = (rc, lp1)" "run_cb ctl (k rc) lp1 = Some (s, lp')"
    by (auto split: prod.splits)
  with CbMod.IH [of "k rc" lp1] assms(2) CbMod.prems(1) show ?case by blast
next
  case (CbDel fd k)
  then obtain rc lp1 where "dyn_evloop_del ctl lp fd = (rc, lp1)" "run_cb ctl (k rc) lp1 = Some (s, lp')"
    by (auto split: prod.splits)
  with CbDel.IH [of "k rc" lp1] assms(3) CbDel.prems(1) show ?case by blast
qed simp

lemma ev_dispatch_preserves:
  fixes cbs :: "'s cb_table"
  assumes "\<And>(p :: 's cb_prog) lp s lp'. P lp \<Longrightarrow> run_cb ctl p lp = Some (s, lp') \<Longrightarrow> P lp'"
  shows "P lp \<Longrightarrow> ev_dispatch ctl mk cbs evs s lp = Some (calls, s', lp') \<Longrightarrow> P lp'"
proof (induction evs arbitrary: s lp calls)
  case (Cons e evs)
  obtain fd ev where [simp]: "e = (fd, ev)" by fastforce
  show ?case
  proof (cases "ev_target lp fd")
    case None
    then show ?thesis using Cons by simp
  next
    case (Some t)
    then obtain s1 lp1 calls1 where "run_cb ctl (cbs (fst t) fd (mk ev) (snd t) s) lp = Some (s1, lp1)"
        "ev_dispatch ctl mk cbs evs s1 lp1 = Some (calls1, s', lp')"
      using Cons.prems(2) by (auto split: option.splits prod.splits)
    then show ?thesis using Cons.IH [of lp1 s1 calls1] assms Cons.prems(1) by blast
  qed
qed simp

lemma run_cb_inv:
  "epoll_documented ctl armed \<Longrightarrow> ev_inv armed lp \<Longrightarrow> run_cb ctl p lp = Some (s, lp') \<Longrightarrow> ev_inv armed lp'"
  by (rule run_cb_preserves [where P = "ev_inv armed"]) (auto intro: add_inv mod_inv del_inv)

lemma poll_inv:
  assumes doc: "epoll_documented ctl armed" and inv: "ev_inv armed lp"
    and p: "dyn_evloop_poll ctl cbs wait s lp = Some (n, calls, s', lp')"
  shows "ev_inv armed lp'"
proof (cases wait)
  case (Inr evs)
  then have "ev_dispatch ctl epoll_mask cbs evs s lp = Some (calls, s', lp')"
    using p by (auto simp: dyn_evloop_poll_def)
  with inv show ?thesis
    by (rule ev_dispatch_preserves [where P = "ev_inv armed", rotated 1]) (auto intro: run_cb_inv [OF doc])
qed (use p inv in \<open>simp add: dyn_evloop_poll_def\<close>)

section \<open>Reachable reactors\<close>

text \<open>A reactor starts on a fresh kernel object; its owner calls it and polls it, in any order.\<close>

inductive ev_reach :: "'k epoll_ctl \<Rightarrow> 'k \<Rightarrow> 'k evloop \<Rightarrow> bool" for ctl k0 where
  ev_start: "dyn_evloop_new (Some k0) = Some lp \<Longrightarrow> ev_reach ctl k0 lp"
| ev_calls: "ev_reach ctl k0 lp \<Longrightarrow> run_cb ctl (p :: unit cb_prog) lp = Some (u, lp') \<Longrightarrow> ev_reach ctl k0 lp'"
| ev_poll: "ev_reach ctl k0 lp \<Longrightarrow>
     dyn_evloop_poll ctl (cbs :: unit cb_table) wait u lp = Some (n, calls, u', lp') \<Longrightarrow> ev_reach ctl k0 lp'"

lemma ev_reach_inv:
  assumes doc: "epoll_documented ctl armed" and "armed k0 = Map.empty"
  shows "ev_reach ctl k0 lp \<Longrightarrow> ev_inv armed lp"
proof (induction rule: ev_reach.induct)
  case (ev_start lp)
  then show ?case using assms(2) by (auto simp: dyn_evloop_new_def ev_inv_def ev_slot_def reg_zero_def ev_armed_def)
qed (auto intro: run_cb_inv [OF doc] poll_inv [OF doc])

lemma ev_inv_count:
  assumes "ev_inv armed lp"
  shows "card {fd. armed (lp_kernel lp) fd \<noteq> None} = lp_nreg lp"
proof -
  have "{fd. armed (lp_kernel lp) fd \<noteq> None} = int ` {i. i < lp_cap lp \<and> reg_used (lp_regs lp ! i)}"
    using assms by (auto simp: ev_inv_def ev_armed_def ev_slot_def reg_zero_def image_iff split: if_splits)
      (metis nat_0_le nat_less_iff)+
  then show ?thesis
    using assms by (simp add: card_image ev_inv_def length_filter_conv_card)
qed

section \<open>Descriptors nobody touches\<close>

text \<open>A callback that makes no call on \<open>fd\<close> and none on a descriptor of \<open>2 ^ 30\<close> or more.\<close>

primrec cb_spares :: "int \<Rightarrow> 's cb_prog \<Rightarrow> bool" where
  "cb_spares fd (CbDone s) \<longleftrightarrow> True"
| "cb_spares fd (CbAdd d i cb ud ok k) \<longleftrightarrow> d \<noteq> fd \<and> d < 2 ^ 30 \<and> (\<forall>rc. cb_spares fd (k rc))"
| "cb_spares fd (CbMod d i k) \<longleftrightarrow> d \<noteq> fd \<and> (\<forall>rc. cb_spares fd (k rc))"
| "cb_spares fd (CbDel d k) \<longleftrightarrow> d \<noteq> fd \<and> (\<forall>rc. cb_spares fd (k rc))"

lemma ev_change_slot:
  "d < lp_cap lp \<Longrightarrow> int d \<noteq> fd \<Longrightarrow> ev_slot (snd (ev_change ctl lp d i)) fd = ev_slot lp fd"
  by (auto simp: ev_change_def ev_slot_def set_interest_def Let_def nth_list_update split: prod.splits)

lemma mod_slot: "d \<noteq> fd \<Longrightarrow> ev_slot (snd (dyn_evloop_mod ctl lp d i)) fd = ev_slot lp fd"
  using ev_change_slot [of "nat d" lp fd ctl i] by (auto simp: dyn_evloop_mod_def)

lemma del_slot: "d \<noteq> fd \<Longrightarrow> ev_slot (snd (dyn_evloop_del ctl lp d)) fd = ev_slot lp fd"
  by (simp add: dyn_evloop_del_def mod_slot)

lemma grow_cap_some: "0 < nc \<Longrightarrow> fd < 2 ^ 30 \<Longrightarrow> \<exists>n. grow_cap nc fd = Some n"
  by (induction nc fd rule: grow_cap.induct) (subst grow_cap.simps, auto)

lemma reg_ensure_some: "fd < 2 ^ 30 \<Longrightarrow> \<exists>rc lp1. reg_ensure lp fd ok = Some (rc, lp1)"
  using grow_cap_some [of "if lp_cap lp \<noteq> 0 then lp_cap lp * 2 else 64" fd]
  by (auto simp: reg_ensure_def)

lemma add_slot:
  assumes "d \<noteq> fd" and "d < 2 ^ 30"
  shows "\<exists>rc lp'. dyn_evloop_add ctl lp d i cb ud ok = Some (rc, lp') \<and> ev_slot lp' fd = ev_slot lp fd"
proof (cases "d < 0")
  case False
  have "nat d < 2 ^ 30" using assms(2) by (simp add: nat_less_iff)
  then obtain rc lp1 where e: "reg_ensure lp (nat d) ok = Some (rc, lp1)" using reg_ensure_some by blast
  note s = reg_ensure_slots [OF e]
  show ?thesis
  proof (cases "rc < 0")
    case False
    let ?lp2 = "lp1\<lparr>lp_regs := (lp_regs lp1)[nat d := (lp_regs lp1 ! nat d)\<lparr>reg_cb := cb, reg_udata := ud\<rparr>]\<rparr>"
    have "ev_slot (snd (ev_change ctl ?lp2 (nat d) i)) fd = ev_slot ?lp2 fd"
      using False s(2) assms(1) \<open>\<not> d < 0\<close> by (intro ev_change_slot) simp_all
    also have "\<dots> = ev_slot lp1 fd"
      using assms(1) \<open>\<not> d < 0\<close> by (auto simp: ev_slot_def nth_list_update)
    also have "\<dots> = ev_slot lp fd" by (rule s(3))
    finally show ?thesis
      using e False \<open>\<not> d < 0\<close> by (auto simp: dyn_evloop_add_def Let_def) (metis prod.collapse)
  qed (use e False s in \<open>simp add: dyn_evloop_add_def\<close>)
qed (simp add: dyn_evloop_add_def)

lemma run_cb_spares:
  "cb_spares fd p \<Longrightarrow> \<exists>s lp'. run_cb ctl p lp = Some (s, lp') \<and> ev_slot lp' fd = ev_slot lp fd"
proof (induction p arbitrary: lp)
  case (CbAdd d i cb ud ok k)
  then obtain rc lp1 where a: "dyn_evloop_add ctl lp d i cb ud ok = Some (rc, lp1)" "ev_slot lp1 fd = ev_slot lp fd"
    using add_slot [of d fd ctl lp i cb ud ok] by auto
  with CbAdd.IH [of "k rc" lp1] CbAdd.prems show ?case by auto
next
  case (CbMod d i k)
  obtain rc lp1 where a: "dyn_evloop_mod ctl lp d i = (rc, lp1)" by fastforce
  with CbMod.IH [of "k rc" lp1] CbMod.prems mod_slot [of d fd ctl lp i] show ?case by auto
next
  case (CbDel d k)
  obtain rc lp1 where a: "dyn_evloop_del ctl lp d = (rc, lp1)" by fastforce
  with CbDel.IH [of "k rc" lp1] CbDel.prems del_slot [of d fd ctl lp] show ?case by auto
qed simp

text \<open>The calls a registration gets for a list of events.\<close>

definition ev_served :: "(32 word \<Rightarrow> 32 word) \<Rightarrow> (nat \<times> nat) option \<Rightarrow> int \<Rightarrow> (int \<times> 32 word) list \<Rightarrow> ev_call list" where
  "ev_served mk target fd evs =
     (case target of
        None \<Rightarrow> []
      | Some (cb, ud) \<Rightarrow> map (\<lambda>e. (fd, mk (snd e), cb, ud)) (filter (\<lambda>e. fst e = fd) evs))"

lemma ev_served_append: "ev_served mk t fd (xs @ ys) = ev_served mk t fd xs @ ev_served mk t fd ys"
  by (auto simp: ev_served_def split: option.split)

lemma ev_dispatch_spares:
  assumes sp: "\<forall>cb d m ud s. cb_spares fd (cbs cb d m ud s)"
  shows "\<exists>calls s' lp'. ev_dispatch ctl mk cbs evs s lp = Some (calls, s', lp') \<and> ev_slot lp' fd = ev_slot lp fd \<and>
      filter (\<lambda>c. fst c = fd) calls = ev_served mk (ev_target lp fd) fd evs"
proof (induction evs arbitrary: s lp)
  case Nil
  then show ?case by (simp add: ev_served_def split: option.split)
next
  case (Cons e evs)
  obtain d ev where [simp]: "e = (d, ev)" by fastforce
  show ?case
  proof (cases "ev_target lp d")
    case None
    then show ?thesis using Cons [of s lp] by (auto simp: ev_served_def split: option.split)
  next
    case (Some t)
    obtain cb ud where [simp]: "t = (cb, ud)" by fastforce
    obtain s1 lp1 where r: "run_cb ctl (cbs cb d (mk ev) ud s) lp = Some (s1, lp1)" "ev_slot lp1 fd = ev_slot lp fd"
      using run_cb_spares [of fd "cbs cb d (mk ev) ud s"] sp by blast
    then have "ev_target lp1 fd = ev_target lp fd" by (simp add: ev_target_slot)
    then show ?thesis
      using Cons [of s1 lp1] r Some by (cases "d = fd") (auto simp: ev_served_def split: option.split)
  qed
qed

section \<open>Polling again and again\<close>

fun ev_polls :: "'k epoll_ctl \<Rightarrow> 's cb_table \<Rightarrow> (ev_errno + (int \<times> 32 word) list) list \<Rightarrow> 's \<Rightarrow> 'k evloop \<Rightarrow>
    (ev_call list \<times> 's \<times> 'k evloop) option" where
  "ev_polls ctl cbs [] s lp = Some ([], s, lp)"
| "ev_polls ctl cbs (w # ws) s lp =
     (case dyn_evloop_poll ctl cbs w s lp of
        None \<Rightarrow> None
      | Some (n, calls, s', lp') \<Rightarrow> map_option (\<lambda>(cs, r). (calls @ cs, r)) (ev_polls ctl cbs ws s' lp'))"

fun reported :: "ev_errno + (int \<times> 32 word) list \<Rightarrow> (int \<times> 32 word) list" where
  "reported (Inl e) = []"
| "reported (Inr evs) = evs"

lemma ev_polls_spares:
  assumes sp: "\<forall>cb d m ud s. cb_spares fd (cbs cb d m ud s)"
  shows "\<exists>calls s' lp'. ev_polls ctl cbs ws s lp = Some (calls, s', lp') \<and>
      filter (\<lambda>c. fst c = fd) calls = ev_served epoll_mask (ev_target lp fd) fd (concat (map reported ws))"
proof (induction ws arbitrary: s lp)
  case Nil
  then show ?case by (simp add: ev_served_def split: option.split)
next
  case (Cons w ws)
  obtain n calls s1 lp1 where p: "dyn_evloop_poll ctl cbs w s lp = Some (n, calls, s1, lp1)" "ev_slot lp1 fd = ev_slot lp fd"
      "filter (\<lambda>c. fst c = fd) calls = ev_served epoll_mask (ev_target lp fd) fd (reported w)"
    using ev_dispatch_spares [OF sp, of ctl epoll_mask "reported w" s lp]
    by (cases w) (auto simp: dyn_evloop_poll_def ev_served_def split: option.splits)
  then have "ev_target lp1 fd = ev_target lp fd" by (simp add: ev_target_slot)
  then show ?case using Cons [of s1 lp1] p by (auto simp: ev_served_append)
qed

section \<open>Properties\<close>

text \<open>C6. The reactor's books are right. On a kernel whose \<open>epoll_ctl\<close> behaves as documented, however its
  calls fail, in every state that calls of the reactor, callbacks and polls lead to, the interest
  list of the kernel holds exactly the descriptors with a nonzero interest, each with the events of
  that interest, and \<open>dyn_evloop_count\<close> is their number.\<close>

theorem registry_mirrors_kernel:
  assumes "epoll_documented ctl armed" and "armed k0 = Map.empty" and "ev_reach ctl k0 lp"
  shows "armed (lp_kernel lp) fd = ev_armed (reg_interest (ev_slot lp fd)) \<and>
    dyn_evloop_count lp = card {d. armed (lp_kernel lp) d \<noteq> None}"
  using ev_reach_inv [OF assms] ev_inv_count [OF ev_reach_inv [OF assms]]
  by (simp add: ev_inv_def dyn_evloop_count_def)

text \<open>A kernel that keeps its interest list as a map and refuses what the manual says it refuses.\<close>

theorem registry_mirrors_kernel_witness:
  "\<exists>lp. dyn_evloop_add
      (\<lambda>op fd ev k. case op of
         CtlAdd \<Rightarrow> if k fd = None then (None, k(fd \<mapsto> ev)) else (Some (OtherErrno 17), k)
       | CtlMod \<Rightarrow> if k fd = None then (Some ENOENT, k) else (None, k(fd \<mapsto> ev))
       | CtlDel \<Rightarrow> if k fd = None then (Some ENOENT, k) else (None, k(fd := None)))
      \<lparr>lp_kernel = Map.empty, lp_regs = [], lp_nreg = 0\<rparr> 5 3 (Some 0) 9 True = Some (0, lp) \<and>
    lp_kernel lp 5 = Some 5 \<and> card {d. lp_kernel lp d \<noteq> None} = 1"
proof -
  define ctl :: "(int \<rightharpoonup> 32 word) epoll_ctl" where
    "ctl = (\<lambda>op fd ev k. case op of
         CtlAdd \<Rightarrow> if k fd = None then (None, k(fd \<mapsto> ev)) else (Some (OtherErrno 17), k)
       | CtlMod \<Rightarrow> if k fd = None then (Some ENOENT, k) else (None, k(fd \<mapsto> ev))
       | CtlDel \<Rightarrow> if k fd = None then (Some ENOENT, k) else (None, k(fd := None)))"
  define lp0 :: "(int \<rightharpoonup> 32 word) evloop" where "lp0 = \<lparr>lp_kernel = Map.empty, lp_regs = [], lp_nreg = 0\<rparr>"
  have doc: "epoll_documented ctl (\<lambda>k. k)"
    by (auto simp: epoll_documented_def ctl_def split: ctl_op.splits)
  have ev: "ev_events 3 = 5" by (simp add: ev_events_def DYN_EV_READ_def DYN_EV_WRITE_def)
  define lp1 :: "(int \<rightharpoonup> 32 word) evloop" where "lp1 = \<lparr>lp_kernel = [5 \<mapsto> 5],
      lp_regs = (replicate 64 reg_zero)[5 := \<lparr>reg_cb = Some 0, reg_udata = 9, reg_interest = 3\<rparr>], lp_nreg = 1\<rparr>"
  have g: "grow_cap 64 5 = Some 64" by (simp add: grow_cap.simps)
  have a: "dyn_evloop_add ctl lp0 5 3 (Some 0) 9 True = Some (0, lp1)"
    by (simp add: dyn_evloop_add_def lp0_def reg_ensure_def g ev_change_def backend_apply_def ev ctl_def Let_def
        set_interest_def reg_zero_def count_change_def u64_def lp1_def)
  have "run_cb ctl (CbAdd 5 3 (Some 0) 9 True (\<lambda>rc. CbDone ())) lp0 = Some ((), lp1)" by (simp add: a)
  then have "ev_reach ctl Map.empty lp1"
    by (rule ev_calls [rotated]) (simp add: ev_start dyn_evloop_new_def lp0_def)
  from registry_mirrors_kernel [OF doc _ this, of 5] a show ?thesis
    unfolding ctl_def lp0_def by (auto simp: lp1_def dyn_evloop_count_def)
qed

text \<open>C11. Ready descriptors are served. When the callbacks make no call on a descriptor, any number of
  polls, some of them interrupted or failing, returns, and if the descriptor is registered then each
  event the kernel reported for it has run its callback, with its own user data and the mask of the
  event, once and in order; if it is not registered, no callback was run for it.\<close>

theorem ready_descriptors_served:
  assumes "\<forall>cb d m ud s. cb_spares fd (cbs cb d m ud s)"
  shows "\<exists>calls s' lp'. ev_polls ctl cbs waits s lp = Some (calls, s', lp') \<and>
    filter (\<lambda>c. fst c = fd) calls =
      (case ev_target lp fd of
         None \<Rightarrow> []
       | Some (cb, ud) \<Rightarrow> map (\<lambda>e. (fd, epoll_mask (snd e), cb, ud)) (filter (\<lambda>e. fst e = fd) (concat (map reported waits))))"
  using ev_polls_spares [OF assms, of ctl waits s lp] by (simp add: ev_served_def)

text \<open>Descriptor 1 is registered with callback 7; the first wait is interrupted, the second reports it.\<close>

theorem ready_descriptors_served_witness:
  "\<exists>calls s' lp'. ev_polls (\<lambda>op fd ev k. (None, k)) (\<lambda>cb d m ud s. CbDone s) [Inl EINTR, Inr [(1, 0x10)]] (0::nat)
      \<lparr>lp_kernel = (), lp_regs = [reg_zero, \<lparr>reg_cb = Some 7, reg_udata = 9, reg_interest = 1\<rparr>], lp_nreg = 1\<rparr>
      = Some (calls, s', lp') \<and> filter (\<lambda>c. fst c = 1) calls = [(1, 5, 7, 9)]"
  using ready_descriptors_served [of 1 "\<lambda>cb d m ud s. CbDone s" "\<lambda>op fd ev k. (None, k)" "[Inl EINTR, Inr [(1, 0x10)]]" "0::nat"
      "\<lparr>lp_kernel = (), lp_regs = [reg_zero, \<lparr>reg_cb = Some 7, reg_udata = 9, reg_interest = 1\<rparr>], lp_nreg = 1\<rparr>"]
  by (simp add: ev_target_def epoll_mask_def DYN_EV_READ_def DYN_EV_WRITE_def DYN_EV_ERROR_def)

lemma poll_loop_all:
  "dispatched + length (filter (\<lambda>e. snd e \<noteq> 0) res) \<le> n \<Longrightarrow>
     poll_loop cbs n dispatched res s lp =
       ev_dispatch backend_apply_poll poll_mask cbs (filter (\<lambda>e. snd e \<noteq> 0) res) s lp"
proof (induction res arbitrary: dispatched s lp)
  case (Cons e res)
  obtain fd re where [simp]: "e = (fd, re)" by fastforce
  show ?case
  proof (cases "re = 0")
    case True
    show ?thesis
    proof (cases "dispatched < n")
      case False
      then have "length (filter (\<lambda>e. snd e \<noteq> 0) res) = 0"
        using Cons.prems True by (simp del: length_0_conv)
      then have "filter (\<lambda>e. snd e \<noteq> 0) res = []" by simp
      then show ?thesis using False True by simp
    qed (use Cons True in simp)
  next
    case False
    then have "Suc dispatched + length (filter (\<lambda>e. snd e \<noteq> 0) res) \<le> n" using Cons.prems by simp
    then show ?thesis
      using False Cons.IH [of "Suc dispatched"] Cons.IH [of dispatched]
      by (auto split: option.split)
  qed
qed simp

lemma filter_snd_zip: "length xs = length ys \<Longrightarrow> length (filter (\<lambda>e. P (snd e)) (zip xs ys)) = length (filter P ys)"
  by (induction xs ys rule: list_induct2) auto

text \<open>C35. The poll(2) backend loses nothing by its early exit. Its loop stops as soon as it ran as many
  callbacks as \<open>poll\<close> reported ready descriptors, and it dispatches exactly as the plain loop over all
  descriptors with a nonzero result, whatever the callbacks add, change or delete.\<close>

theorem poll_backend_serves_all:
  assumes "length revents = length (poll_fds lp)" and "n = length (filter (\<lambda>re. re \<noteq> 0) revents)"
  shows "dyn_evloop_poll_poll cbs True (Inr (n, revents)) s lp =
    map_option (\<lambda>(calls, s', lp'). (int (length calls), calls, s', lp'))
      (ev_dispatch backend_apply_poll poll_mask cbs
         (filter (\<lambda>e. snd e \<noteq> 0) (zip (map fst (poll_fds lp)) revents)) s lp)"
  using assms filter_snd_zip [of "map fst (poll_fds lp)" revents "\<lambda>re. re \<noteq> 0"]
  by (simp add: dyn_evloop_poll_poll_def poll_loop_all)

text \<open>Two descriptors, one of them ready.\<close>

theorem poll_backend_serves_all_witness:
  "dyn_evloop_poll_poll (\<lambda>cb d m ud s. CbDone (Suc s)) True (Inr (1, [0, 0x20])) 0
      \<lparr>lp_kernel = (), lp_regs = replicate 2 \<lparr>reg_cb = Some 7, reg_udata = 9, reg_interest = 1\<rparr>, lp_nreg = 2\<rparr> =
    Some (1, [(1, 4, 7, 9)], 1,
      \<lparr>lp_kernel = (), lp_regs = replicate 2 \<lparr>reg_cb = Some 7, reg_udata = 9, reg_interest = 1\<rparr>, lp_nreg = 2\<rparr>)"
proof -
  have "poll_fds \<lparr>lp_kernel = (), lp_regs = replicate 2 \<lparr>reg_cb = Some 7, reg_udata = 9, reg_interest = 1\<rparr>, lp_nreg = 2\<rparr> =
      [(0, ev_events 1), (1, ev_events 1)]"
    by (simp add: poll_fds_def upt_rec numeral_2_eq_2)
  then show ?thesis
    using poll_backend_serves_all [of "[0, 0x20]"
        "\<lparr>lp_kernel = (), lp_regs = replicate 2 \<lparr>reg_cb = Some 7, reg_udata = 9, reg_interest = 1\<rparr>, lp_nreg = 2\<rparr>" 1
        "\<lambda>cb d m ud s. CbDone (Suc s)" 0]
    by (simp add: ev_target_def poll_mask_def DYN_EV_READ_def DYN_EV_WRITE_def DYN_EV_ERROR_def)
qed

text \<open>C37. A refused \<open>add\<close> is only half undone. When the backend refuses to change a registered
  descriptor, \<open>dyn_evloop_add\<close> returns \<open>-1\<close> and the interest and the count stay, but the callback and
  the user data of the refused call replace the registered ones: later events run them.\<close>

theorem refused_add_redirects:
  assumes "0 \<le> fd" and "fd < int (lp_cap lp)" and "reg_interest (ev_slot lp fd) \<noteq> 0"
    and "fst (backend_apply ctl (lp_kernel lp) fd (reg_interest (ev_slot lp fd)) interest) < 0"
  shows "\<exists>lp'. dyn_evloop_add ctl lp fd interest (Some cb) udata mem_ok = Some (-1, lp') \<and>
    dyn_evloop_count lp' = dyn_evloop_count lp \<and>
    reg_interest (ev_slot lp' fd) = reg_interest (ev_slot lp fd) \<and> ev_target lp' fd = Some (cb, udata)"
proof -
  have fd: "nat fd < lp_cap lp" using assms(1,2) by linarith
  have slot: "ev_slot lp fd = lp_regs lp ! nat fd" using assms(1,2) by (simp add: ev_slot_def)
  obtain rc k where b: "backend_apply ctl (lp_kernel lp) fd (reg_interest (lp_regs lp ! nat fd)) interest = (rc, k)" "rc < 0"
    using assms(4) slot by (metis prod.collapse)
  define lp' where "lp' = lp\<lparr>lp_kernel := k,
      lp_regs := (lp_regs lp)[nat fd := (lp_regs lp ! nat fd)\<lparr>reg_cb := Some cb, reg_udata := udata\<rparr>]\<rparr>"
  have "dyn_evloop_add ctl lp fd interest (Some cb) udata mem_ok = Some (-1, lp')"
    using assms(1) fd b by (simp add: dyn_evloop_add_def reg_ensure_def ev_change_def Let_def set_interest_def lp'_def)
  moreover have "ev_slot lp' fd = (lp_regs lp ! nat fd)\<lparr>reg_cb := Some cb, reg_udata := udata\<rparr>"
    using assms(1,2) fd by (simp add: ev_slot_def lp'_def)
  ultimately show ?thesis
    using assms(3) slot by (auto simp: ev_target_slot dyn_evloop_count_def lp'_def)
qed

text \<open>The kernel refuses every call; descriptor 0 was registered with callback 7.\<close>

theorem refused_add_redirects_witness:
  "\<exists>lp'. dyn_evloop_add (\<lambda>op fd ev k. (Some (OtherErrno 12), k))
      \<lparr>lp_kernel = (), lp_regs = [\<lparr>reg_cb = Some 7, reg_udata = 9, reg_interest = 1\<rparr>], lp_nreg = 1\<rparr> 0 3 (Some 8) 10 True =
        Some (-1, lp') \<and> ev_target lp' 0 = Some (8, 10)"
  using refused_add_redirects [of 0 "\<lparr>lp_kernel = (), lp_regs = [\<lparr>reg_cb = Some 7, reg_udata = 9, reg_interest = 1\<rparr>], lp_nreg = 1\<rparr>"
      "\<lambda>op fd ev k. (Some (OtherErrno 12), k)" 3 8 10 True]
  by (auto simp: ev_slot_def backend_apply_def)

end
