(* ===== verification/Dyna_Time.thy ===== *)
theory Dyna_Time
  imports Dyna_Prelude
begin

text \<open>
  The module \<^verbatim>\<open>dyna:time\<close> of \<^verbatim>\<open>src/src/dyna-time.c\<close>: the civil calendar, durations, RFC 3339 timestamps,
  layouts and the clock readers.

  An \<open>int64_t\<close> is an \<^typ>\<open>int\<close>; a signed operation that can leave the 64-bit range goes through
  \<open>i64\<close>, and undefined behaviour (a signed overflow, a write past a stack buffer) is the outer
  \<^term>\<open>None\<close>. What the engine coerces an argument to, the local offset of the system and the clock are
  arguments. The one floating-point step, the fraction of a duration, is the argument \<open>fadd\<close>.
\<close>

section \<open>C integers\<close>

definition i64 :: "int \<Rightarrow> int option" where
  "i64 x = (if - (2 ^ 63) \<le> x \<and> x < 2 ^ 63 then Some x else None)"

text \<open>Division and remainder truncate towards zero.\<close>

definition c_div :: "int \<Rightarrow> int \<Rightarrow> int" where
  "c_div a b = (if (a < 0) = (b < 0) then \<bar>a\<bar> div \<bar>b\<bar> else - (\<bar>a\<bar> div \<bar>b\<bar>))"

definition c_mod :: "int \<Rightarrow> int \<Rightarrow> int" where
  "c_mod a b = a - b * c_div a b"

text \<open>The double nearest to an integer, ties to even, and the JavaScript number of an \<open>int64_t\<close>.\<close>

fun bit_len :: "nat \<Rightarrow> nat" where
  "bit_len n = (if n = 0 then 0 else Suc (bit_len (n div 2)))"

declare bit_len.simps [simp del]

definition round53 :: "nat \<Rightarrow> nat" where
  "round53 n =
     (let e = bit_len n - 53; q = n div 2 ^ e; r = n mod 2 ^ e
      in (if 2 * r < 2 ^ e \<or> (2 * r = 2 ^ e \<and> even q) then q else q + 1) * 2 ^ e)"

definition JS_NewInt64 :: "int \<Rightarrow> jsval" where
  "JS_NewInt64 val = js_int (sgn val * int (round53 (nat \<bar>val\<bar>)))"

section \<open>The civil calendar\<close>

definition dyn_time_floor_div :: "int \<Rightarrow> int \<Rightarrow> int" where
  "dyn_time_floor_div a b =
     (let q = c_div a b; r = c_mod a b in if r \<noteq> 0 \<and> (r < 0) \<noteq> (b < 0) then q - 1 else q)"

definition dyn_time_floor_mod :: "int \<Rightarrow> int \<Rightarrow> int" where
  "dyn_time_floor_mod a b = (let r = c_mod a b in if r \<noteq> 0 \<and> (r < 0) \<noteq> (b < 0) then r + b else r)"

definition dyn_days_from_civil :: "int \<Rightarrow> int \<Rightarrow> int \<Rightarrow> int option" where
  "dyn_days_from_civil y0 m d = do {
     y \<leftarrow> i64 (y0 - (if m \<le> 2 then 1 else 0));
     n \<leftarrow> (if y \<ge> 0 then Some y else i64 (y - 399));
     let era = c_div n 400;
     let yoe = y - era * 400;
     s \<leftarrow> i64 (c_div (153 * (m + (if m > 2 then -3 else 9)) + 2) 5 + d);
     doy \<leftarrow> i64 (s - 1);
     doe \<leftarrow> i64 (yoe * 365 + c_div yoe 4 - c_div yoe 100 + doy);
     e \<leftarrow> i64 (era * 146097);
     t \<leftarrow> i64 (e + doe);
     i64 (t - 719468)
   }"

text \<open>Its callers pass day counts of 64-bit second counts, far from the ends of the range.\<close>

definition dyn_civil_from_days :: "int \<Rightarrow> int \<times> int \<times> int" where
  "dyn_civil_from_days z0 =
     (let z = z0 + 719468;
          era = c_div (if z \<ge> 0 then z else z - 146096) 146097;
          doe = z - era * 146097;
          yoe = c_div (doe - c_div doe 1460 + c_div doe 36524 - c_div doe 146096) 365;
          y = yoe + era * 400;
          doy = doe - (365 * yoe + c_div yoe 4 - c_div yoe 100);
          mp = c_div (5 * doy + 2) 153;
          d = doy - c_div (153 * mp + 2) 5 + 1;
          m = mp + (if mp < 10 then 3 else -9)
      in (y + (if m \<le> 2 then 1 else 0), m, d))"

definition dyn_weekday_from_days :: "int \<Rightarrow> int" where
  "dyn_weekday_from_days z = (if z \<ge> -4 then c_mod (z + 4) 7 else c_mod (z + 5) 7 + 6)"

definition dyn_time_days_in_month :: "int \<Rightarrow> int \<Rightarrow> int option" where
  "dyn_time_days_in_month y m = do {
     (y2, m2) \<leftarrow> (if m + 1 > 12 then map_option (\<lambda>y2. (y2, 1)) (i64 (y + 1)) else Some (y, m + 1));
     a \<leftarrow> dyn_days_from_civil y2 m2 1;
     b \<leftarrow> dyn_days_from_civil y m 1;
     i64 (a - b)
   }"

definition dyn_time_norm_month :: "int \<Rightarrow> int \<Rightarrow> (int \<times> int) option" where
  "dyn_time_norm_month y mo = do {
     m0 \<leftarrow> i64 (mo - 1);
     y' \<leftarrow> i64 (y + dyn_time_floor_div m0 12);
     Some (y', dyn_time_floor_mod m0 12 + 1)
   }"

section \<open>Decimal helpers\<close>

text \<open>The digits of a number, least significant first.\<close>

fun time_digits :: "nat \<Rightarrow> string" where
  "time_digits v = (if v = 0 then [] else dig_chr (v mod 10) # time_digits (v div 10))"

declare time_digits.simps [simp del]

definition dyn_time_utoa :: "nat \<Rightarrow> string" where
  "dyn_time_utoa v = (if v = 0 then ''0'' else rev (time_digits v))"

definition dyn_time_utoa_pad :: "nat \<Rightarrow> nat \<Rightarrow> string" where
  "dyn_time_utoa_pad v width =
     (let tmp = dyn_time_utoa v
      in if length tmp \<ge> width then tmp else replicate (width - length tmp) (CHR ''0'') @ tmp)"

definition dyn_time_fmt_frac :: "nat \<Rightarrow> nat \<Rightarrow> string" where
  "dyn_time_fmt_frac fr width =
     (let digits = rev (dropWhile (\<lambda>c. c = CHR ''0'') (rev (dyn_time_utoa_pad fr width)))
      in if length digits = 0 then [] else CHR ''.'' # digits)"

section \<open>Durations\<close>

definition DYN_MAX_SAFE_INT :: int where "DYN_MAX_SAFE_INT = 9007199254740991"

abbreviation NS_US :: nat where "NS_US \<equiv> 1000"
abbreviation NS_MS :: nat where "NS_MS \<equiv> 1000000"
abbreviation NS_SEC :: nat where "NS_SEC \<equiv> 1000000000"
abbreviation NS_MIN :: nat where "NS_MIN \<equiv> 60000000000"
abbreviation NS_HOUR :: nat where "NS_HOUR \<equiv> 3600000000000"

definition dyn_time_ns_to_jsvalue :: "int \<Rightarrow> jsval" where
  "dyn_time_ns_to_jsvalue ns =
     (if ns \<ge> - DYN_MAX_SAFE_INT \<and> ns \<le> DYN_MAX_SAFE_INT then JS_NewInt64 ns else JBigInt ns)"

definition micro_s :: string where "micro_s = [CHR 0xC2, CHR 0xB5, CHR ''s'']"

definition duration_text :: "int \<Rightarrow> string" where
  "duration_text ns =
     (let u = nat \<bar>ns\<bar>; sign = (if ns < 0 then ''-'' else [])
      in if u = 0 then ''0s''
         else if u < NS_SEC then
           (if u < NS_US then sign @ dyn_time_utoa u @ ''ns''
            else if u < NS_MS then
              sign @ dyn_time_utoa (u div NS_US) @ dyn_time_fmt_frac (u mod NS_US) 3 @ micro_s
            else sign @ dyn_time_utoa (u div NS_MS) @ dyn_time_fmt_frac (u mod NS_MS) 6 @ ''ms'')
         else
           (let total_sec = u div NS_SEC; frac_ns = u mod NS_SEC; secs = total_sec mod 60;
                total_min = total_sec div 60; mins = total_min mod 60; total_hr = total_min div 60
            in sign @
               (if total_min > 0
                then (if total_hr > 0 then dyn_time_utoa total_hr @ ''h'' else []) @ dyn_time_utoa mins @ ''m''
                else []) @
               dyn_time_utoa secs @ dyn_time_fmt_frac frac_ns 9 @ ''s''))"

definition dyn_time_duration_string :: "int res \<Rightarrow> jsval res" where
  "dyn_time_duration_string arg = map_sum id (\<lambda>ns. JStr (duration_text ns)) arg"

definition dyn_time_units :: "(string \<times> nat) list" where
  "dyn_time_units =
     [(''ns'', 1), (''us'', NS_US), (micro_s, NS_US), ([CHR 0xCE, CHR 0xBC, CHR ''s''], NS_US), (''ms'', NS_MS),
      (''s'', NS_SEC), (''m'', NS_MIN), (''h'', NS_HOUR)]"

definition dyn_time_lookup_unit :: "string \<Rightarrow> nat option" where
  "dyn_time_lookup_unit s = map_of dyn_time_units s"

text \<open>The digits after a point: the value kept, the number of digits it has, and the rest. Digits
  after an overflow are skipped.\<close>

fun leading_fraction_loop :: "nat \<Rightarrow> nat \<Rightarrow> bool \<Rightarrow> string \<Rightarrow> nat \<times> nat \<times> string" where
  "leading_fraction_loop x k ovf [] = (x, k, [])"
| "leading_fraction_loop x k ovf (c # s) =
     (if is_dig c then
        (if ovf then leading_fraction_loop x k True s
         else if x > (2 ^ 63 - 1) div 10 then leading_fraction_loop x k True s
         else
           (let y = x * 10 + dig_val c
            in if y > 2 ^ 63 then leading_fraction_loop x k True s else leading_fraction_loop y (k + 1) False s))
      else (x, k, c # s))"

definition dyn_time_leading_fraction :: "string \<Rightarrow> nat \<times> nat \<times> string" where
  "dyn_time_leading_fraction s = leading_fraction_loop 0 0 False s"

text \<open>The digits of a whole part; \<^term>\<open>None\<close> when the value exceeds \<open>2 ^ 63\<close>.\<close>

fun duration_int :: "nat \<Rightarrow> string \<Rightarrow> (nat \<times> string) option" where
  "duration_int v [] = Some (v, [])"
| "duration_int v (c # s) =
     (if is_dig c then
        (if v > 2 ^ 63 div 10 then None
         else (let v' = v * 10 + dig_val c in if v' > 2 ^ 63 then None else duration_int v' s))
      else Some (v, c # s))"

text \<open>One number with its unit: its nanoseconds and the rest. \<open>fadd f unit k\<close> is the C expression
  \<open>(uint64_t)((double)f * ((double)unit / scale))\<close> with \<open>scale\<close> the \<open>k\<close>-th power of ten.\<close>

definition duration_term :: "(nat \<Rightarrow> nat \<Rightarrow> nat \<Rightarrow> nat) \<Rightarrow> string \<Rightarrow> (nat \<times> string) option" where
  "duration_term fadd s =
     (if \<not> (hd s = CHR ''.'' \<or> is_dig (hd s)) then None
      else
        (case duration_int 0 s of
           None \<Rightarrow> None
         | Some (v, r) \<Rightarrow>
             (let have_int = (length r \<noteq> length s);
                  point = (r \<noteq> [] \<and> hd r = CHR ''.'');
                  (f, k, r2) = (if point then dyn_time_leading_fraction (tl r) else (0, 0, r));
                  have_frac = (point \<and> length r2 \<noteq> length (tl r));
                  unit = takeWhile (\<lambda>c. c \<noteq> CHR ''.'' \<and> \<not> is_dig c) r2;
                  rest = dropWhile (\<lambda>c. c \<noteq> CHR ''.'' \<and> \<not> is_dig c) r2
              in if \<not> have_int \<and> \<not> have_frac then None
                 else if unit = [] then None
                 else
                   (case dyn_time_lookup_unit unit of
                      None \<Rightarrow> None
                    | Some unit_ns \<Rightarrow>
                        if v > 2 ^ 63 div unit_ns then None
                        else
                          (let w = (if f > 0 then u64 (v * unit_ns + fadd f unit_ns k) else v * unit_ns)
                           in if w > 2 ^ 63 then None else Some (w, rest))))))"

lemma duration_int_length: "duration_int v s = Some (w, r) \<Longrightarrow> length r \<le> length s"
  by (induction v s rule: duration_int.induct) (auto simp: Let_def split: if_splits)

lemma leading_fraction_length: "leading_fraction_loop x k ovf s = (y, j, r) \<Longrightarrow> length r \<le> length s"
  by (induction x k ovf s rule: leading_fraction_loop.induct) (auto simp: Let_def split: if_splits)

lemma dropWhile_less: "takeWhile P s \<noteq> [] \<Longrightarrow> length (dropWhile P s) < length s"
  by (metis add_less_same_cancel2 length_append length_greater_0_conv linorder_not_less not_add_less2
      order_le_less_trans takeWhile_dropWhile_id less_add_same_cancel2)

lemma duration_term_length: "duration_term fadd s = Some (w, r) \<Longrightarrow> length r < length s"
  by (auto simp: duration_term_def dyn_time_leading_fraction_def Let_def
      split: if_splits option.splits prod.splits
      dest!: duration_int_length leading_fraction_length dropWhile_less)

function duration_loop :: "(nat \<Rightarrow> nat \<Rightarrow> nat \<Rightarrow> nat) \<Rightarrow> nat \<Rightarrow> string \<Rightarrow> nat option" where
  "duration_loop fadd d s =
     (if s = [] then Some d
      else
        (case duration_term fadd s of
           None \<Rightarrow> None
         | Some (v, r) \<Rightarrow> (let d' = u64 (d + v) in if d' > 2 ^ 63 then None else duration_loop fadd d' r)))"
  by pat_completeness auto
termination
  by (relation "measure (\<lambda>(fadd, d, s). length s)") (auto dest: duration_term_length)

declare duration_loop.simps [simp del]

definition parse_duration_text :: "(nat \<Rightarrow> nat \<Rightarrow> nat \<Rightarrow> nat) \<Rightarrow> string \<Rightarrow> jsval option" where
  "parse_duration_text fadd orig =
     (let signed = (orig \<noteq> [] \<and> (hd orig = CHR ''-'' \<or> hd orig = CHR ''+''));
          neg = (signed \<and> hd orig = CHR ''-'');
          s = (if signed then tl orig else orig)
      in if s = ''0'' then Some (js_int 0)
         else if s = [] then None
         else
           (case duration_loop fadd 0 s of
              None \<Rightarrow> None
            | Some d \<Rightarrow>
                if neg then Some (dyn_time_ns_to_jsvalue (- int d))
                else if d > 2 ^ 63 - 1 then None
                else Some (dyn_time_ns_to_jsvalue (int d))))"

definition dyn_time_parse_duration :: "(nat \<Rightarrow> nat \<Rightarrow> nat \<Rightarrow> nat) \<Rightarrow> string res \<Rightarrow> jsval res" where
  "dyn_time_parse_duration fadd arg =
     (case arg of
        Inl e \<Rightarrow> Inl e
      | Inr orig \<Rightarrow>
          (case parse_duration_text fadd orig of
             None \<Rightarrow> Inl (SyntaxError ''dyna:time: invalid duration'')
           | Some v \<Rightarrow> Inr v))"

section \<open>Clocks\<close>

text \<open>\<open>ts\<close> is what \<open>clock_gettime\<close> gives, if it succeeds; nanoseconds are below one second.\<close>

definition clock_error :: jserr where
  "clock_error = InternalError ''dyna:time: clock_gettime failed''"

definition dyn_time_now :: "(int \<times> int) option \<Rightarrow> jsval res" where
  "dyn_time_now ts =
     (case ts of
        None \<Rightarrow> Inl clock_error
      | Some (sec, nsec) \<Rightarrow> Inr (JObj [(''sec'', JS_NewInt64 sec), (''nsec'', js_int nsec)]))"

definition dyn_time_now_unix_nano :: "(int \<times> int) option \<Rightarrow> jsval res option" where
  "dyn_time_now_unix_nano ts =
     (case ts of
        None \<Rightarrow> Some (Inl clock_error)
      | Some (sec, nsec) \<Rightarrow> do {
          a \<leftarrow> i64 (sec * 1000000000);
          ns \<leftarrow> i64 (a + nsec);
          Some (Inr (JBigInt ns))
        })"

definition dyn_time_now_millis :: "(int \<times> int) option \<Rightarrow> jsval res option" where
  "dyn_time_now_millis ts =
     (case ts of
        None \<Rightarrow> Some (Inl clock_error)
      | Some (sec, nsec) \<Rightarrow> do {
          a \<leftarrow> i64 (sec * 1000);
          ms \<leftarrow> i64 (a + c_div nsec 1000000);
          Some (Inr (JS_NewInt64 ms))
        })"

definition dyn_time_monotonic_nano :: "(int \<times> int) option \<Rightarrow> jsval res option" where
  "dyn_time_monotonic_nano ts =
     (case ts of
        None \<Rightarrow> Some (Inl clock_error)
      | Some (sec, nsec) \<Rightarrow> do {
          a \<leftarrow> i64 (sec * 1000000000);
          ns \<leftarrow> i64 (a + nsec);
          Some (Inr (JBigInt ns))
        })"

section \<open>Formatting\<close>

definition dyn_time_month_abbr :: "string list" where
  "dyn_time_month_abbr =
     [''Jan'', ''Feb'', ''Mar'', ''Apr'', ''May'', ''Jun'', ''Jul'', ''Aug'', ''Sep'', ''Oct'', ''Nov'', ''Dec'']"

definition dyn_time_weekday_abbr :: "string list" where
  "dyn_time_weekday_abbr = [''Sun'', ''Mon'', ''Tue'', ''Wed'', ''Thu'', ''Fri'', ''Sat'']"

text \<open>Hour, minute and second of a second of the day.\<close>

definition time_of_day :: "int \<Rightarrow> int \<times> int \<times> int" where
  "time_of_day tod = (c_div tod 3600, c_mod (c_div tod 60) 60, c_mod tod 60)"

definition year_text :: "int \<Rightarrow> string" where
  "year_text y = (if y < 0 then ''-'' @ dyn_time_utoa_pad (nat (- y)) 4 else dyn_time_utoa_pad (nat y) 4)"

abbreviation two_digits :: "int \<Rightarrow> string" where
  "two_digits n \<equiv> dyn_time_utoa_pad (nat n) 2"

definition offset_text :: "int \<Rightarrow> string" where
  "offset_text off =
     (if off = 0 then ''Z''
      else (let o' = \<bar>off\<bar>
            in (if off < 0 then ''-'' else ''+'') @ two_digits (c_div o' 3600) @ '':'' @
               two_digits (c_mod (c_div o' 60) 60)))"

text \<open>The text of an instant \<open>t\<close> of the local clock that runs \<open>off\<close> seconds ahead.\<close>

definition rfc3339_text :: "int \<Rightarrow> int \<Rightarrow> int \<Rightarrow> string" where
  "rfc3339_text t nsec off =
     (case dyn_civil_from_days (dyn_time_floor_div t 86400) of
        (y, mo, d) \<Rightarrow>
          (case time_of_day (dyn_time_floor_mod t 86400) of
             (h, mi, s) \<Rightarrow>
               year_text y @ ''-'' @ two_digits mo @ ''-'' @ two_digits d @ ''T'' @
               two_digits h @ '':'' @ two_digits mi @ '':'' @ two_digits s @
               (if nsec > 0 then dyn_time_fmt_frac (nat nsec) 9 else []) @ offset_text off))"

text \<open>\<open>nsec\<close> and \<open>utc\<close> are the optional arguments, \<^term>\<open>None\<close> when absent or undefined; \<open>gmtoff\<close> is the
  offset the system reports for the instant.\<close>

definition dyn_time_format_rfc3339 :: "int res \<Rightarrow> int res option \<Rightarrow> bool option \<Rightarrow> int \<Rightarrow> jsval res option" where
  "dyn_time_format_rfc3339 sec nsec utc gmtoff =
     (case sec of
        Inl e \<Rightarrow> Some (Inl e)
      | Inr sec' \<Rightarrow>
          (case (case nsec of None \<Rightarrow> Inr 0 | Some r \<Rightarrow> r) of
             Inl e \<Rightarrow> Some (Inl e)
           | Inr nsec' \<Rightarrow>
               if nsec' < 0 \<or> nsec' > 999999999
               then Some (Inl (RangeError ''dyna:time: nsec must be in [0, 999999999]''))
               else
                 (let off = (if utc = Some False then gmtoff else 0)
                  in map_option (\<lambda>t. Inr (JStr (rfc3339_text t nsec' off))) (i64 (sec' + off)))))"

text \<open>The year token goes through an eight-byte buffer, sign excluded: \<^term>\<open>None\<close> when it needs more.\<close>

type_synonym layout_fields = "int \<times> int \<times> int \<times> int \<times> int \<times> int \<times> int"

definition layout_token :: "layout_fields \<Rightarrow> string \<Rightarrow> (string \<times> string) option" where
  "layout_token flds p =
     (case flds of
        (y, mo, d, h, mi, s, wd) \<Rightarrow>
          if take 4 p = ''2006'' then
            (if length (dyn_time_utoa_pad (nat \<bar>y\<bar>) 4) > 8 then None else Some (year_text y, drop 4 p))
          else if take 3 p = ''Jan'' then Some (dyn_time_month_abbr ! nat (mo - 1), drop 3 p)
          else if take 3 p = ''Mon'' then Some (dyn_time_weekday_abbr ! nat wd, drop 3 p)
          else if take 2 p = ''01'' then Some (two_digits mo, drop 2 p)
          else if take 2 p = ''02'' then Some (two_digits d, drop 2 p)
          else if take 2 p = ''15'' then Some (two_digits h, drop 2 p)
          else if take 2 p = ''04'' then Some (two_digits mi, drop 2 p)
          else if take 2 p = ''05'' then Some (two_digits s, drop 2 p)
          else Some (take 1 p, drop 1 p))"

lemma layout_token_length: "layout_token flds p = Some (t, r) \<Longrightarrow> p \<noteq> [] \<Longrightarrow> length r < length p"
  by (cases p) (auto simp: layout_token_def split: if_splits prod.splits)

function layout_loop :: "layout_fields \<Rightarrow> string \<Rightarrow> string option" where
  "layout_loop flds p =
     (if p = [] then Some []
      else
        (case layout_token flds p of
           None \<Rightarrow> None
         | Some (t, r) \<Rightarrow> map_option ((@) t) (layout_loop flds r)))"
  by pat_completeness auto
termination
  by (relation "measure (\<lambda>(flds, p). length p)") (auto dest: layout_token_length)

declare layout_loop.simps [simp del]

definition dyn_time_format_unix :: "int res \<Rightarrow> string res \<Rightarrow> jsval res option" where
  "dyn_time_format_unix sec layout =
     (case sec of
        Inl e \<Rightarrow> Some (Inl e)
      | Inr t \<Rightarrow>
          (case layout of
             Inl e \<Rightarrow> Some (Inl e)
           | Inr l \<Rightarrow>
               (let days = dyn_time_floor_div t 86400; (y, mo, d) = dyn_civil_from_days days;
                    (h, mi, s) = time_of_day (dyn_time_floor_mod t 86400)
                in map_option (\<lambda>out. Inr (JStr out)) (layout_loop (y, mo, d, h, mi, s, dyn_weekday_from_days days) l))))"

section \<open>Parsing\<close>

definition dyn_time_expect_digits :: "nat \<Rightarrow> string \<Rightarrow> (int \<times> string) option" where
  "dyn_time_expect_digits n s =
     (if n > length s then None
      else if \<not> list_all is_dig (take n s) then None
      else Some (int (dec_val (take n s)), drop n s))"

fun scan_year_loop :: "nat \<Rightarrow> nat \<Rightarrow> string \<Rightarrow> (nat \<times> nat \<times> string) option" where
  "scan_year_loop v n [] = Some (v, n, [])"
| "scan_year_loop v n (c # s) =
     (if is_dig c then
        (if v > (2 ^ 63 - 1 - 9) div 10 then None else scan_year_loop (v * 10 + dig_val c) (n + 1) s)
      else Some (v, n, c # s))"

definition dyn_time_scan_year :: "string \<Rightarrow> (int \<times> string) option" where
  "dyn_time_scan_year s =
     (let neg = (s \<noteq> [] \<and> hd s = CHR ''-'')
      in case scan_year_loop 0 0 (if neg then tl s else s) of
           None \<Rightarrow> None
         | Some (v, n, r) \<Rightarrow> if n < 4 then None else Some (if neg then - int v else int v, r))"

definition expect_char :: "string \<Rightarrow> string \<Rightarrow> string option" where
  "expect_char cs s = (if s \<noteq> [] \<and> hd s \<in> set cs then Some (tl s) else None)"

definition scan_fraction :: "string \<Rightarrow> (int \<times> string) option" where
  "scan_fraction s =
     (if s \<noteq> [] \<and> hd s = CHR ''.'' then
        (let ds = takeWhile is_dig (tl s); ndig = length ds; n = (if ndig < 9 then ndig else 9)
         in if ndig = 0 then None
            else Some (int (dec_val (take n ds)) * 10 ^ (9 - n), dropWhile is_dig (tl s)))
      else Some (0, s))"

definition scan_offset :: "string \<Rightarrow> (int \<times> string) option" where
  "scan_offset s =
     (if s = [] then None
      else if hd s = CHR ''Z'' \<or> hd s = CHR ''z'' then Some (0, tl s)
      else if hd s = CHR ''+'' \<or> hd s = CHR ''-'' then do {
        (oh, s1) \<leftarrow> dyn_time_expect_digits 2 (tl s);
        s2 \<leftarrow> expect_char '':'' s1;
        (om, s3) \<leftarrow> dyn_time_expect_digits 2 s2;
        if oh > 23 \<or> om > 59 then None
        else Some ((if hd s = CHR ''-'' then -1 else 1) * (oh * 3600 + om * 60), s3)
      }
      else None)"

text \<open>The fields in the order of the text, before the calendar checks.\<close>

definition scan_rfc3339 :: "string \<Rightarrow> (int \<times> int \<times> int \<times> int \<times> int \<times> int \<times> int \<times> int) option" where
  "scan_rfc3339 s = do {
     (y, s) \<leftarrow> dyn_time_scan_year s;
     s \<leftarrow> expect_char ''-'' s;
     (mo, s) \<leftarrow> dyn_time_expect_digits 2 s;
     s \<leftarrow> expect_char ''-'' s;
     (d, s) \<leftarrow> dyn_time_expect_digits 2 s;
     s \<leftarrow> expect_char ''Tt'' s;
     (h, s) \<leftarrow> dyn_time_expect_digits 2 s;
     s \<leftarrow> expect_char '':'' s;
     (mi, s) \<leftarrow> dyn_time_expect_digits 2 s;
     s \<leftarrow> expect_char '':'' s;
     (se, s) \<leftarrow> dyn_time_expect_digits 2 s;
     (nsec, s) \<leftarrow> scan_fraction s;
     (off_sec, s) \<leftarrow> scan_offset s;
     if s = [] then Some (y, mo, d, h, mi, se, nsec, off_sec) else None
   }"

definition seconds_of :: "int \<Rightarrow> int \<Rightarrow> int \<Rightarrow> int \<Rightarrow> int \<Rightarrow> int option" where
  "seconds_of days h mi s off = do {
     a \<leftarrow> i64 (days * 86400);
     hs \<leftarrow> i64 (h * 3600);
     b \<leftarrow> i64 (a + hs);
     ms \<leftarrow> i64 (mi * 60);
     c \<leftarrow> i64 (b + ms);
     e \<leftarrow> i64 (c + s);
     i64 (e - off)
   }"

definition dyn_time_parse_rfc3339 :: "string res \<Rightarrow> jsval res option" where
  "dyn_time_parse_rfc3339 arg =
     (let fail = Some (Inl (SyntaxError ''dyna:time: invalid RFC3339 timestamp''))
      in case arg of
           Inl e \<Rightarrow> Some (Inl e)
         | Inr s \<Rightarrow>
             (case scan_rfc3339 s of
                None \<Rightarrow> fail
              | Some (y, mo, d, h, mi, se, nsec, off_sec) \<Rightarrow>
                  if mo < 1 \<or> mo > 12 then fail
                  else if d < 1 then fail
                  else do {
                    dim \<leftarrow> dyn_time_days_in_month y mo;
                    if d > dim then fail
                    else if h > 23 \<or> mi > 59 \<or> se > 60 then fail
                    else do {
                      days \<leftarrow> dyn_days_from_civil y mo d;
                      sec \<leftarrow> seconds_of days h mi se off_sec;
                      Some (Inr (JObj [(''sec'', JS_NewInt64 sec), (''nsec'', js_int nsec)]))
                    }
                  }))"

section \<open>Civil date functions\<close>

text \<open>\<open>h\<close>, \<open>mi\<close> and \<open>s\<close> are optional; arguments are coerced in order and the first error counts.\<close>

fun first_error :: "int res list \<Rightarrow> int list res" where
  "first_error [] = Inr []"
| "first_error (r # rs) = (case r of Inl e \<Rightarrow> Inl e | Inr v \<Rightarrow> map_sum id (Cons v) (first_error rs))"

definition opt_zero :: "int res option \<Rightarrow> int res" where
  "opt_zero a = (case a of None \<Rightarrow> Inr 0 | Some r \<Rightarrow> r)"

definition date_seconds :: "int \<Rightarrow> int \<Rightarrow> int \<Rightarrow> int \<Rightarrow> int \<Rightarrow> int \<Rightarrow> int option" where
  "date_seconds y mo d h mi s = do {
     (y', mo') \<leftarrow> dyn_time_norm_month y mo;
     days \<leftarrow> dyn_days_from_civil y' mo' d;
     seconds_of days h mi s 0
   }"

definition dyn_time_date :: "int res \<Rightarrow> int res \<Rightarrow> int res \<Rightarrow> int res option \<Rightarrow> int res option \<Rightarrow> int res option \<Rightarrow> jsval res option" where
  "dyn_time_date y mo d h mi s =
     (case first_error [y, mo, d, opt_zero h, opt_zero mi, opt_zero s] of
        Inl e \<Rightarrow> Some (Inl e)
      | Inr vs \<Rightarrow>
          map_option (\<lambda>t. Inr (JS_NewInt64 t)) (date_seconds (vs ! 0) (vs ! 1) (vs ! 2) (vs ! 3) (vs ! 4) (vs ! 5)))"

definition dyn_time_from_unix :: "int res \<Rightarrow> jsval res option" where
  "dyn_time_from_unix arg =
     (case arg of
        Inl e \<Rightarrow> Some (Inl e)
      | Inr sec \<Rightarrow>
          (let days = dyn_time_floor_div sec 86400; (h, mi, s) = time_of_day (dyn_time_floor_mod sec 86400);
               (y, mo, d) = dyn_civil_from_days days; wd = dyn_weekday_from_days days
           in do {
                yday_start \<leftarrow> dyn_days_from_civil y 1 1;
                Some (Inr (JObj
                  [(''year'', JS_NewInt64 y), (''month'', js_int mo), (''day'', js_int d), (''hour'', js_int h),
                   (''min'', js_int mi), (''sec'', js_int s), (''weekday'', js_int wd),
                   (''yday'', js_int (days - yday_start + 1))]))
              }))"

end
