(* ===== verification/Dyna_Calendar.thy ===== *)
theory Dyna_Calendar
  imports Dyna_Time
begin

text \<open>
  The civil calendar of \<^verbatim>\<open>dyna:time\<close> against the Gregorian rules: leap years, month lengths and the next
  day. Both conversions of the source are shown to walk that calendar, day by day, from 1970-01-01.
\<close>

section \<open>The Gregorian calendar\<close>

definition leap_year :: "int \<Rightarrow> bool" where
  "leap_year y \<longleftrightarrow> (4 dvd y \<and> \<not> 100 dvd y) \<or> 400 dvd y"

definition month_days :: "int \<Rightarrow> int \<Rightarrow> int" where
  "month_days y m = (if m = 2 then (if leap_year y then 29 else 28) else if m \<in> {4, 6, 9, 11} then 30 else 31)"

fun valid_date :: "int \<times> int \<times> int \<Rightarrow> bool" where
  "valid_date (y, m, d) \<longleftrightarrow> 1 \<le> m \<and> m \<le> 12 \<and> 1 \<le> d \<and> d \<le> month_days y m"

fun next_day :: "int \<times> int \<times> int \<Rightarrow> int \<times> int \<times> int" where
  "next_day (y, m, d) =
     (if d < month_days y m then (y, m, d + 1) else if m < 12 then (y, m + 1, 1) else (y + 1, 1, 1))"

lemma next_day_valid: "valid_date p \<Longrightarrow> valid_date (next_day p)"
  by (cases p) (auto simp: month_days_def)

section \<open>C division\<close>

lemma c_div_nonneg [simp]: "0 \<le> a \<Longrightarrow> 0 < b \<Longrightarrow> c_div a b = a div b"
  by (simp add: c_div_def)

lemma c_mod_nonneg [simp]: "0 \<le> a \<Longrightarrow> 0 < b \<Longrightarrow> c_mod a b = a mod b"
  by (simp add: c_mod_def minus_mult_div_eq_mod)

lemma c_div_neg: "a < 0 \<Longrightarrow> 0 < b \<Longrightarrow> c_div a b = - ((- a) div b)"
  by (simp add: c_div_def)

lemma c_mod_neg: "a < 0 \<Longrightarrow> 0 < b \<Longrightarrow> c_mod a b = - ((- a) mod b)"
  by (simp add: c_mod_def c_div_neg minus_mult_div_eq_mod [symmetric])

lemma mod_pos_iff: "0 < b \<Longrightarrow> 0 < a mod b \<longleftrightarrow> a mod b \<noteq> 0" for a b :: int
  using pos_mod_sign [of b a] by linarith

lemma floor_div [simp]: "0 < b \<Longrightarrow> dyn_time_floor_div a b = a div b"
proof (cases "0 \<le> a")
  case False
  moreover assume "0 < b"
  ultimately show ?thesis
    using zdiv_zminus1_eq_if [of b "- a"]
    by (simp add: dyn_time_floor_div_def c_div_neg c_mod_neg Let_def mod_pos_iff)
next
  case True
  moreover assume "0 < b"
  ultimately show ?thesis
    using pos_mod_sign [of b a] by (simp add: dyn_time_floor_div_def Let_def not_less)
qed

lemma floor_mod [simp]: "0 < b \<Longrightarrow> dyn_time_floor_mod a b = a mod b"
proof (cases "0 \<le> a")
  case False
  moreover assume "0 < b"
  ultimately show ?thesis
    using zmod_zminus1_eq_if [of "- a" b]
    by (simp add: dyn_time_floor_mod_def c_mod_neg Let_def mod_pos_iff)
next
  case True
  moreover assume "0 < b"
  ultimately show ?thesis
    using pos_mod_sign [of b a] by (simp add: dyn_time_floor_mod_def Let_def not_less)
qed

lemma era_div: "0 < b \<Longrightarrow> c_div (if y \<ge> 0 then y else y - (b - 1)) b = y div b"
proof (cases "0 \<le> y")
  case False
  assume b: "0 < b"
  have "b - 1 - y = (b - 1 - y mod b) + (- (y div b)) * b"
    using mult_div_mod_eq [of b y] by (simp add: algebra_simps)
  then have "(b - 1 - y) div b = (b - 1 - y mod b) div b + - (y div b)"
    using b by (metis add.commute div_mult_self1 less_irrefl)
  moreover have "(b - 1 - y mod b) div b = 0"
    using b pos_mod_bound [OF b, of y] pos_mod_sign [OF b, of y] by (intro div_pos_pos_trivial) linarith+
  ultimately show ?thesis
    using False b by (simp add: c_div_neg)
qed simp

lemma weekday_mod: "dyn_weekday_from_days z = (z + 4) mod 7"
proof (cases "z \<ge> -4")
  case False
  then have "dyn_weekday_from_days z = 6 - (- (z + 5)) mod 7"
    by (cases "z + 5 = 0") (simp_all add: dyn_weekday_from_days_def c_mod_neg)
  then show ?thesis by presburger
qed (simp add: dyn_weekday_from_days_def)

section \<open>The day number\<close>

definition year_start :: "int \<Rightarrow> int" where
  "year_start y = 365 * y + y div 4 - y div 100 + y div 400"

definition month_start :: "int \<Rightarrow> int" where
  "month_start mp = (153 * mp + 2) div 5"

text \<open>Years start in March: the month counted from March, and the year it belongs to.\<close>

abbreviation march :: "int \<Rightarrow> int" where
  "march m \<equiv> m + (if m > 2 then -3 else 9)"

abbreviation march_year :: "int \<Rightarrow> int \<Rightarrow> int" where
  "march_year y m \<equiv> y - (if m \<le> 2 then 1 else 0)"

definition civil_days :: "int \<Rightarrow> int \<Rightarrow> int \<Rightarrow> int" where
  "civil_days y m d = year_start (march_year y m) + month_start (march m) + d - 1 - 719468"

lemma div_split: "0 < k \<Longrightarrow> 0 \<le> r \<Longrightarrow> (k * c * q + r) div k = c * q + r div k" for k c q r :: int
  by (simp add: mult.assoc)

lemma year_start_era: "year_start (y mod 400) + 146097 * (y div 400) = year_start y"
proof -
  define q r where "q = y div 400" and "r = y mod 400"
  have y: "y = 4 * 100 * q + r" "y = 100 * 4 * q + r" and r: "0 \<le> r" "r < 400" by (simp_all add: q_def r_def)
  have "y div 4 = 100 * q + r div 4" unfolding y(1) using r by (intro div_split) simp_all
  moreover have "y div 100 = 4 * q + r div 100" unfolding y(2) using r by (intro div_split) simp_all
  moreover have "r div 400 = 0" using r by simp
  ultimately show ?thesis
    using y r unfolding year_start_def q_def [symmetric] r_def [symmetric] by linarith
qed

lemma div_pred: "0 < k \<Longrightarrow> (y - 1) div k = y div k - (if k dvd y then 1 else 0)" for y k :: int
proof (cases "k dvd y")
  case True
  assume k: "0 < k"
  from True obtain q where y: "y = k * q" by blast
  have "y - 1 = k * (q - 1) + (k - 1)" by (simp add: y algebra_simps)
  then have "(y - 1) div k = q - 1" using k by (intro int_div_pos_eq [where r = "k - 1"]) simp_all
  then show ?thesis using True k by (simp add: y)
next
  case False
  assume k: "0 < k"
  have "y - 1 = k * (y div k) + (y mod k - 1)" using mult_div_mod_eq [of k y] by linarith
  moreover have "1 \<le> y mod k" using False k mod_pos_iff [OF k, of y] by (simp add: dvd_eq_mod_eq_0)
  moreover have "y mod k < k" using k by simp
  ultimately have "(y - 1) div k = y div k" by (intro int_div_pos_eq [where r = "y mod k - 1"]) linarith+
  then show ?thesis using False by simp
qed

lemma year_start_next: "year_start y = year_start (y - 1) + (if leap_year y then 366 else 365)"
proof -
  have "(400 :: int) dvd y \<Longrightarrow> 100 dvd y" "(100 :: int) dvd y \<Longrightarrow> 4 dvd y"
    by (auto elim!: dvd_trans [rotated])
  then show ?thesis
    by (auto simp: year_start_def leap_year_def div_pred)
qed

lemma month_start_simps [simp]:
  "month_start 0 = 0" "month_start 1 = 31" "month_start 2 = 61" "month_start 3 = 92" "month_start 4 = 122"
  "month_start 5 = 153" "month_start 6 = 184" "month_start 7 = 214" "month_start 8 = 245" "month_start 9 = 275"
  "month_start 10 = 306" "month_start 11 = 337"
  by (simp_all add: month_start_def)

lemma month_cases:
  assumes "1 \<le> m" and "m \<le> (12 :: int)"
  shows "m = 1 \<or> m = 2 \<or> m = 3 \<or> m = 4 \<or> m = 5 \<or> m = 6 \<or> m = 7 \<or> m = 8 \<or> m = 9 \<or> m = 10 \<or> m = 11 \<or> m = 12"
  using assms by presburger

text \<open>The next day of the calendar has the next number.\<close>

lemma civil_days_next:
  assumes "valid_date (y, m, d)" and "next_day (y, m, d) = (y', m', d')"
  shows "civil_days y' m' d' = civil_days y m d + 1"
proof -
  have m: "1 \<le> m" "m \<le> 12" and d: "d \<le> month_days y m" using assms(1) by simp_all
  show ?thesis
    using month_cases [OF m] d assms(2) year_start_next [of y]
    by (elim disjE) (auto simp: civil_days_def month_days_def split: if_splits)
qed

section \<open>From a day number to a date\<close>

text \<open>The year of the era that a day of the era falls into. A day is written with its century, its
  four-year cycle, its year of the cycle and its day of the year.\<close>

lemma era_day_split:
  assumes "0 \<le> doe" and "doe \<le> (146096 :: int)"
  obtains c q t v where "doe = 36524 * c + 1461 * q + 365 * t + v" "0 \<le> c" "c \<le> 3" "0 \<le> q" "q \<le> 24" "0 \<le> t" "t \<le> 3"
    "0 \<le> v" "v \<le> 365" "v = 365 \<longrightarrow> t = 3 \<and> (q < 24 \<or> c = 3)"
proof -
  define c where "c = min 3 (doe div 36524)"
  define r where "r = doe - 36524 * c"
  define q u where "q = r div 1461" and "u = r mod 1461"
  define t where "t = min 3 (u div 365)"
  define v where "v = u - 365 * t"
  have dc: "36524 * (doe div 36524) \<le> doe" "doe < 36524 * (doe div 36524) + 36524"
    using mult_div_mod_eq [of 36524 doe] pos_mod_bound [of 36524 doe] pos_mod_sign [of 36524 doe] by linarith+
  have c: "0 \<le> c" "c \<le> 3" using assms by (simp_all add: c_def pos_imp_zdiv_nonneg_iff)
  have r: "0 \<le> r" "r \<le> 36524" "c < 3 \<longrightarrow> r \<le> 36523"
    using dc assms by (auto simp: r_def c_def min_def split: if_splits)
  have u: "r = 1461 * q + u" "0 \<le> u" "u < 1461" by (simp_all add: q_def u_def)
  have q: "0 \<le> q" "q \<le> 24" using r u by linarith+
  have du: "365 * (u div 365) \<le> u" "u < 365 * (u div 365) + 365"
    using mult_div_mod_eq [of 365 u] pos_mod_bound [of 365 u] pos_mod_sign [of 365 u] by linarith+
  have t: "0 \<le> t" "t \<le> 3" using u by (simp_all add: t_def pos_imp_zdiv_nonneg_iff)
  have v: "0 \<le> v" "v \<le> 365" "v = 365 \<longrightarrow> t = 3 \<and> u = 1460"
    using du u by (auto simp: v_def t_def min_def split: if_splits)
  have "v = 365 \<longrightarrow> q < 24 \<or> c = 3" using v(3) u(1) r(3) q c by linarith
  then show thesis
    using that [of c q t v] c q t v u r_def v_def by linarith
qed

definition era_year :: "int \<Rightarrow> int" where
  "era_year doe = (doe - doe div 1460 + doe div 36524 - doe div 146096) div 365"

lemma era_year_bounds:
  assumes "0 \<le> doe" and "doe \<le> 146096"
  shows "0 \<le> era_year doe" "era_year doe \<le> 399" "year_start (era_year doe) \<le> doe"
    "doe \<le> year_start (era_year doe) + 364 + (if leap_year (era_year doe + 1) then 1 else 0)"
proof -
  obtain c q t v where d: "doe = 36524 * c + 1461 * q + 365 * t + v" and c: "0 \<le> c" "c \<le> 3" and q: "0 \<le> q" "q \<le> 24"
    and t: "0 \<le> t" "t \<le> 3" and v: "0 \<le> v" "v \<le> 365" "v = 365 \<longrightarrow> t = 3 \<and> (q < 24 \<or> c = 3)"
    using era_day_split [OF assms] .
  define w where "w = 24 * c + q + 365 * t + v"
  define k :: int where "k = (if w \<ge> 1460 then 1 else 0)"
  have w: "0 \<le> w" "w < 2920" using c q t v by (simp_all add: w_def)
  have a: "doe div 1460 = 25 * c + q + k"
    by (rule int_div_pos_eq [where r = "w - 1460 * k"]) (use w in \<open>auto simp: d w_def k_def\<close>)
  have e: "doe div 146096 = (if doe = 146096 then 1 else 0)" using assms by auto
  have b: "doe div 36524 = c + doe div 146096"
  proof (cases "doe = 146096")
    case True
    then have "c = 3" using d c q t v by linarith
    then show ?thesis using True by simp
  next
    case False
    have "1461 * q + 365 * t + v < 36524" using d c q t v False assms by linarith
    then have "doe div 36524 = c" using q t v by (intro int_div_pos_eq [where r = "1461 * q + 365 * t + v"]) (simp_all add: d)
    then show ?thesis using False e by simp
  qed
  have "era_year doe = 100 * c + 4 * q + t"
    unfolding era_year_def a b
    by (rule int_div_pos_eq [where r = "v - k"]) (use v w t c q in \<open>auto simp: d w_def k_def\<close>)
  note y = this
  have "(4 * (25 * c + q) + t) div 4 = 25 * c + q"
    by (rule int_div_pos_eq [where r = t]) (use t in linarith)+
  moreover have "(100 * c + (4 * q + t)) div 100 = c"
    by (rule int_div_pos_eq [where r = "4 * q + t"]) (use q t in linarith)+
  moreover have "(100 * c + 4 * q + t) div 400 = 0" using c q t by simp
  ultimately have s: "year_start (era_year doe) = doe - v"
    unfolding y year_start_def using d by (simp add: algebra_simps)
  have "leap_year (era_year doe + 1)" if "v = 365"
  proof -
    have "t = 3" "q < 24 \<or> c = 3" using that v(3) by simp_all
    then have Y: "era_year doe + 1 = 4 * (25 * c + q + 1)" by (simp add: y)
    show ?thesis
    proof (cases "q < 24")
      case True
      have "\<not> 100 dvd 4 * (25 * c + q + 1)"
      proof
        assume "100 dvd 4 * (25 * c + q + 1)"
        then have "25 dvd 25 * c + q + 1" by presburger
        then have "25 dvd q + 1" by presburger
        then show False using True q(1) by (auto dest: zdvd_imp_le)
      qed
      then show ?thesis unfolding leap_year_def Y by simp
    next
      case False
      then have "era_year doe + 1 = 400" using \<open>q < 24 \<or> c = 3\<close> q Y by simp
      then show ?thesis by (simp add: leap_year_def)
    qed
  qed
  then have v': "v \<le> 364 + (if leap_year (era_year doe + 1) then 1 else 0)"
    using v(2) by (cases "v = 365") simp_all
  show "0 \<le> era_year doe" "era_year doe \<le> 399" using y c q t by linarith+
  show "year_start (era_year doe) \<le> doe" using s v by simp
  show "doe \<le> year_start (era_year doe) + 364 + (if leap_year (era_year doe + 1) then 1 else 0)" using s v' by simp
qed

lemma march_month:
  assumes "0 \<le> doy" and "doy \<le> (365 :: int)"
  defines "mp \<equiv> (5 * doy + 2) div 153"
  shows "0 \<le> mp" "mp \<le> 11" "month_start mp \<le> doy" "mp < 11 \<longrightarrow> doy < month_start (mp + 1)"
proof -
  have m: "153 * mp \<le> 5 * doy + 2" "5 * doy + 2 < 153 * mp + 153"
    using mult_div_mod_eq [of 153 "5 * doy + 2"] pos_mod_bound [of 153 "5 * doy + 2"] pos_mod_sign [of 153 "5 * doy + 2"]
    unfolding mp_def by linarith+
  then show mp: "0 \<le> mp" "mp \<le> 11" using assms(1,2) by linarith+
  have cases: "mp = 0 \<or> mp = 1 \<or> mp = 2 \<or> mp = 3 \<or> mp = 4 \<or> mp = 5 \<or> mp = 6 \<or> mp = 7 \<or> mp = 8 \<or> mp = 9 \<or> mp = 10 \<or> mp = 11"
    using mp by presburger
  show "month_start mp \<le> doy" "mp < 11 \<longrightarrow> doy < month_start (mp + 1)"
    using cases m by (elim disjE; simp)+
qed

text \<open>The conversion on the day number, with C division replaced by division.\<close>

lemma civil_from_days_eq:
  fixes z0 :: int
  defines "z \<equiv> z0 + 719468"
  defines "era \<equiv> z div 146097" and "doe \<equiv> z mod 146097"
  defines "yoe \<equiv> era_year doe"
  defines "doy \<equiv> doe - year_start yoe"
  defines "mp \<equiv> (5 * doy + 2) div 153"
  shows "dyn_civil_from_days z0 =
    (yoe + era * 400 + (if mp < 10 then 0 else 1), mp + (if mp < 10 then 3 else -9), doy - month_start mp + 1)"
    "0 \<le> yoe" "yoe \<le> 399" "0 \<le> doy" "doy \<le> 364 + (if leap_year (yoe + 1) then 1 else 0)"
    "0 \<le> mp" "mp \<le> 11" "month_start mp \<le> doy" "mp < 11 \<longrightarrow> doy < month_start (mp + 1)"
    "z0 = 146097 * era + year_start yoe + doy - 719468"
proof -
  have doe: "0 \<le> doe" "doe \<le> 146096"
    using pos_mod_sign [of 146097 z] pos_mod_bound [of 146097 z] unfolding doe_def by linarith+
  have ed: "c_div (if z \<ge> 0 then z else z - 146096) 146097 = era"
    using era_div [of 146097 z] unfolding era_def by (cases "0 \<le> z") simp_all
  have zd: "z - era * 146097 = doe" by (simp add: doe_def era_def minus_div_mult_eq_mod)
  note y = era_year_bounds [OF doe, folded yoe_def]
  show yy: "0 \<le> yoe" "yoe \<le> 399" using y by simp_all
  show dd: "0 \<le> doy" "doy \<le> 364 + (if leap_year (yoe + 1) then 1 else 0)" using y(3,4) by (simp_all add: doy_def)
  then have d365: "doy \<le> 365" by (simp split: if_splits)
  note m = march_month [OF dd(1) d365, folded mp_def]
  show mm: "0 \<le> mp" "mp \<le> 11" "month_start mp \<le> doy" "mp < 11 \<longrightarrow> doy < month_start (mp + 1)" using m by simp_all
  have "1460 * (doe div 1460) \<le> doe" "0 \<le> doe div 1460"
    using mult_div_mod_eq [of 1460 doe] pos_mod_sign [of 1460 doe] doe by (linarith, simp add: pos_imp_zdiv_nonneg_iff)
  moreover have "doe div 146096 \<le> doe div 36524" using doe by (intro zdiv_mono2) simp_all
  ultimately have g: "0 \<le> doe - doe div 1460 + doe div 36524 - doe div 146096" by linarith
  have ye: "c_div (doe - c_div doe 1460 + c_div doe 36524 - c_div doe 146096) 365 = yoe"
    using doe g by (simp add: yoe_def era_year_def)
  have y400: "yoe div 400 = 0" using yy by simp
  have de: "doe - (365 * yoe + c_div yoe 4 - c_div yoe 100) = doy"
    using yy y400 by (simp add: doy_def year_start_def)
  show "z0 = 146097 * era + year_start yoe + doy - 719468"
    using zd by (simp add: doy_def z_def)
  show "dyn_civil_from_days z0 =
    (yoe + era * 400 + (if mp < 10 then 0 else 1), mp + (if mp < 10 then 3 else -9), doy - month_start mp + 1)"
    unfolding dyn_civil_from_days_def z_def [symmetric] Let_def ed zd ye de
    using dd(1) mm(1,2) by (simp add: mp_def [symmetric] month_start_def)
qed

lemma leap_year_400: "leap_year (y + 400 * k) \<longleftrightarrow> leap_year y"
proof -
  have "(4 :: int) dvd y + 400 * k \<longleftrightarrow> 4 dvd y" "(100 :: int) dvd y + 400 * k \<longleftrightarrow> 100 dvd y"
      "(400 :: int) dvd y + 400 * k \<longleftrightarrow> 400 dvd y"
    by (simp_all add: dvd_add_left_iff)
  then show ?thesis by (simp add: leap_year_def)
qed

lemma civil_from_days_inverse:
  assumes "dyn_civil_from_days z = (y, m, d)"
  shows "valid_date (y, m, d)" "civil_days y m d = z"
proof -
  define era where "era = (z + 719468) div 146097"
  define yoe where "yoe = era_year ((z + 719468) mod 146097)"
  define doy where "doy = (z + 719468) mod 146097 - year_start yoe"
  define mp where "mp = (5 * doy + 2) div 153"
  note e = civil_from_days_eq [of z, folded era_def yoe_def, folded doy_def, folded mp_def]
  have y: "y = yoe + era * 400 + (if mp < 10 then 0 else 1)" "m = mp + (if mp < 10 then 3 else -9)"
      "d = doy - month_start mp + 1"
    using assms e(1) by simp_all
  have my: "march m = mp" "march_year y m = yoe + 400 * era" using y e(6,7) by (auto split: if_splits)
  have "year_start (yoe + 400 * era) = year_start yoe + 146097 * era"
    using year_start_era [of "yoe + 400 * era"] e(2,3) by simp
  then show "civil_days y m d = z"
    unfolding civil_days_def my using e(10) y(3) by simp
  have cases: "mp = 0 \<or> mp = 1 \<or> mp = 2 \<or> mp = 3 \<or> mp = 4 \<or> mp = 5 \<or> mp = 6 \<or> mp = 7 \<or> mp = 8 \<or> mp = 9 \<or> mp = 10 \<or> mp = 11"
    using e(6,7) by presburger
  have "leap_year (yoe + era * 400 + 1) \<longleftrightarrow> leap_year (yoe + 1)"
    using leap_year_400 [of "yoe + 1" era] by (simp add: algebra_simps)
  then show "valid_date (y, m, d)"
    using cases e(4,5,8,9) unfolding y valid_date.simps by (elim disjE) (auto simp: month_days_def)
qed

section \<open>The day number is one-to-one\<close>

lemma day_of_year:
  assumes "valid_date (y, m, d)"
  shows "civil_days y 1 1 \<le> civil_days y m d" "civil_days y m d < civil_days (y + 1) 1 1"
proof -
  have m: "1 \<le> m" "m \<le> 12" and d: "1 \<le> d" "d \<le> month_days y m" using assms by simp_all
  show "civil_days y 1 1 \<le> civil_days y m d" "civil_days y m d < civil_days (y + 1) 1 1"
    using month_cases [OF m] d year_start_next [of y]
    by (elim disjE; auto simp: civil_days_def month_days_def split: if_splits)+
qed

lemma january_mono: "y \<le> y' \<Longrightarrow> civil_days y 1 1 \<le> civil_days y' 1 1"
proof (induction y' rule: int_ge_induct)
  case (step i)
  then show ?case using year_start_next [of i] by (simp add: civil_days_def split: if_splits)
qed simp

lemma civil_days_day: "civil_days y m d = civil_days y m 1 + (d - 1)"
  by (simp add: civil_days_def)

lemma month_next: "1 \<le> m \<Longrightarrow> m < 12 \<Longrightarrow> civil_days y (m + 1) 1 = civil_days y m 1 + month_days y m"
  using civil_days_next [of y m "month_days y m" y "m + 1" 1] civil_days_day [of y m "month_days y m"]
  by (auto simp: month_days_def)

lemma month_mono: "m \<le> m' \<Longrightarrow> 1 \<le> m \<Longrightarrow> m' \<le> 12 \<Longrightarrow> civil_days y m 1 \<le> civil_days y m' 1"
proof (induction m' rule: int_ge_induct)
  case (step i)
  then show ?case using month_next [of i y] by (auto simp: month_days_def split: if_splits)
qed simp

text \<open>Dates are numbered in the order of the calendar.\<close>

lemma civil_days_less:
  assumes "valid_date (y, m, d)" and "valid_date (y', m', d')" and "y < y' \<or> y = y' \<and> m < m'"
  shows "civil_days y m d < civil_days y' m' d'"
proof (cases "y < y'")
  case True
  then have "civil_days (y + 1) 1 1 \<le> civil_days y' 1 1" by (intro january_mono) simp
  with day_of_year(2) [OF assms(1)] day_of_year(1) [OF assms(2)] show ?thesis by linarith
next
  case False
  then have m: "y' = y" "m < m'" using assms(3) by simp_all
  have "civil_days y (m + 1) 1 = civil_days y m 1 + month_days y m" using assms m by (intro month_next) simp_all
  moreover have "civil_days y (m + 1) 1 \<le> civil_days y m' 1" using assms m by (intro month_mono) simp_all
  ultimately show ?thesis
    using civil_days_day [of y m d] civil_days_day [of y m' d'] assms(1,2) m by simp
qed

lemma civil_days_inj:
  assumes "valid_date (y, m, d)" and "valid_date (y', m', d')" and "civil_days y m d = civil_days y' m' d'"
  shows "y = y' \<and> m = m' \<and> d = d'"
proof -
  have "y = y' \<and> m = m'"
    using civil_days_less [OF assms(1,2)] civil_days_less [OF assms(2,1)] assms(3)
    by (cases y y' rule: linorder_cases; cases m m' rule: linorder_cases) auto
  then show ?thesis using assms(3) civil_days_day [of y m d] civil_days_day [of y' m' d'] by simp
qed

lemma civil_days_from:
  assumes "valid_date (y, m, d)"
  shows "dyn_civil_from_days (civil_days y m d) = (y, m, d)"
proof -
  obtain y' m' d' where e: "dyn_civil_from_days (civil_days y m d) = (y', m', d')" by (metis prod_cases3)
  from civil_days_inj [OF civil_from_days_inverse(1) [OF e] assms civil_from_days_inverse(2) [OF e]] show ?thesis
    by (simp add: e)
qed

section \<open>From a date to a day number\<close>

lemma i64_id: "\<bar>x\<bar> < 2 ^ 63 \<Longrightarrow> i64 x = Some x"
  by (auto simp: i64_def)

lemma days_from_civil_eq:
  assumes "\<bar>y\<bar> \<le> 10 ^ 13" and "1 \<le> m" and "m \<le> 12" and "\<bar>d\<bar> \<le> 10 ^ 13"
  shows "dyn_days_from_civil y m d = Some (civil_days y m d)"
proof -
  define Y where "Y = march_year y m"
  define era where "era = Y div 400"
  define yoe where "yoe = Y mod 400"
  have Y: "Y = 400 * era + yoe" "0 \<le> yoe" "yoe < 400" by (simp_all add: era_def yoe_def)
  have Yb: "\<bar>Y\<bar> \<le> 10 ^ 13 + 1" using assms(1) by (auto simp: Y_def)
  then have eb: "\<bar>era\<bar> \<le> 10 ^ 12" using Y by auto
  have e: "c_div (if Y \<ge> 0 then Y else Y - 399) 400 = era"
    using era_div [of 400 Y] unfolding era_def by (cases "0 \<le> Y") simp_all
  have ms: "month_start (march m) = c_div (153 * march m + 2) 5" "0 \<le> month_start (march m)" "month_start (march m) \<le> 337"
    using month_cases [OF assms(2,3)] by (auto simp: month_start_def)
  have ys: "yoe * 365 + c_div yoe 4 - c_div yoe 100 = year_start yoe"
    using Y(2,3) by (simp add: year_start_def)
  have yb: "0 \<le> year_start yoe" "year_start yoe \<le> 146097"
  proof -
    have "0 \<le> yoe div 4 \<and> yoe div 4 \<le> 99" "0 \<le> yoe div 100 \<and> yoe div 100 \<le> 3"
      using Y(2,3) zdiv_mono1 [of yoe 399 4] zdiv_mono1 [of yoe 399 100] by (simp_all add: pos_imp_zdiv_nonneg_iff)
    then show "0 \<le> year_start yoe" "year_start yoe \<le> 146097"
      using Y(2,3) unfolding year_start_def by simp_all
  qed
  have tot: "civil_days y m d = era * 146097 + (year_start yoe + (month_start (march m) + d - 1)) - 719468"
    using year_start_era [of Y] by (simp add: civil_days_def Y_def [symmetric] era_def yoe_def)
  define M where "M = c_div (153 * march m + 2) 5"
  have M: "0 \<le> M" "M \<le> 337" "month_start (march m) = M" using ms by (simp_all add: M_def)
  have i: "i64 Y = Some Y" "i64 (Y - 399) = Some (Y - 399)" "i64 (M + d) = Some (M + d)"
      "i64 (M + d - 1) = Some (M + d - 1)" "i64 (year_start yoe + (M + d - 1)) = Some (year_start yoe + (M + d - 1))"
      "i64 (era * 146097) = Some (era * 146097)"
      "i64 (era * 146097 + (year_start yoe + (M + d - 1))) = Some (era * 146097 + (year_start yoe + (M + d - 1)))"
      "i64 (era * 146097 + (year_start yoe + (M + d - 1)) - 719468) =
         Some (era * 146097 + (year_start yoe + (M + d - 1)) - 719468)"
    using assms(4) Yb eb yb M(1,2) by (intro i64_id; simp; linarith)+
  have yoe': "Y - era * 400 = yoe" using Y(1) by simp
  have n: "(if 0 \<le> Y then Some Y else Some (Y - 399)) = Some (if Y \<ge> 0 then Y else Y - 399)" by simp
  show ?thesis
    unfolding dyn_days_from_civil_def Y_def [symmetric] M_def [symmetric] tot M(3)
    by (simp only: i n bind.bind_lunit Let_def e yoe' ys)
qed

lemma days_in_month_eq:
  assumes "\<bar>y\<bar> \<le> 10 ^ 12" and "1 \<le> m" and "m \<le> 12"
  shows "dyn_time_days_in_month y m = Some (month_days y m)"
proof -
  have "civil_days (y + 1) 1 1 - civil_days y 12 1 = 31" by (simp add: civil_days_def)
  moreover have "m < 12 \<Longrightarrow> civil_days y (m + 1) 1 - civil_days y m 1 = month_days y m"
    using month_next [of m y] assms(2) by simp
  moreover have "0 \<le> month_days y m" "month_days y m \<le> 31" by (simp_all add: month_days_def)
  ultimately show ?thesis
    using assms by (cases "m = 12") (simp_all add: dyn_time_days_in_month_def days_from_civil_eq i64_id month_days_def)
qed

section \<open>Instants\<close>

text \<open>The year of a day of a 64-bit second count.\<close>

lemma civil_year_bound:
  assumes "dyn_civil_from_days z = (y, m, d)" and "\<bar>z\<bar> \<le> 2 * 10 ^ 14"
  shows "\<bar>y\<bar> \<le> 10 ^ 12"
proof -
  define era where "era = (z + 719468) div 146097"
  define yoe where "yoe = era_year ((z + 719468) mod 146097)"
  define doy where "doy = (z + 719468) mod 146097 - year_start yoe"
  define mp where "mp = (5 * doy + 2) div 153"
  note e = civil_from_days_eq [of z, folded era_def yoe_def, folded doy_def, folded mp_def]
  have "146097 * era \<le> z + 719468" "z + 719468 < 146097 * era + 146097"
    using mult_div_mod_eq [of 146097 "z + 719468"] pos_mod_sign [of 146097 "z + 719468"] pos_mod_bound [of 146097 "z + 719468"]
    unfolding era_def by linarith+
  moreover have "y = yoe + era * 400 + (if mp < 10 then 0 else 1)" using assms(1) e(1) by simp
  then have "400 * era \<le> y" "y \<le> 400 * era + 400" using e(2,3) by (simp_all split: if_splits)
  ultimately show ?thesis using assms(2) by (simp add: abs_le_iff)
qed

lemma day_bound: "\<bar>t\<bar> \<le> 2 ^ 63 \<Longrightarrow> \<bar>t div 86400\<bar> \<le> 2 * 10 ^ 14" for t :: int
  using mult_div_mod_eq [of 86400 t] pos_mod_sign [of 86400 t] pos_mod_bound [of 86400 t] by auto

lemma time_of_day_eq:
  "time_of_day (t mod 86400) = (t mod 86400 div 3600, t mod 86400 div 60 mod 60, t mod 60)"
  by (simp add: time_of_day_def pos_imp_zdiv_nonneg_iff mod_mod_cancel)

lemma clock_fields:
  fixes t :: int
  defines "h \<equiv> t mod 86400 div 3600" and "mi \<equiv> t mod 86400 div 60 mod 60" and "s \<equiv> t mod 60"
  shows "0 \<le> h" "h \<le> 23" "0 \<le> mi" "mi \<le> 59" "0 \<le> s" "s \<le> 59" "t = t div 86400 * 86400 + h * 3600 + mi * 60 + s"
proof -
  define a where "a = t mod 86400"
  have a: "0 \<le> a" "a < 86400" by (simp_all add: a_def)
  have m: "a div 60 = 60 * (a div 60 div 60) + a div 60 mod 60" "a = 60 * (a div 60) + a mod 60" "a div 60 div 60 = h"
    using zdiv_zmult2_eq [of 60 a 60] by (simp_all add: h_def a_def)
  have s: "s = a mod 60" by (simp add: s_def a_def mod_mod_cancel)
  have t: "t = t div 86400 * 86400 + a" by (simp add: a_def)
  show mi: "0 \<le> mi" "mi \<le> 59" "0 \<le> s" "s \<le> 59"
    using pos_mod_bound [of 60 "a div 60"] pos_mod_bound [of 60 t] by (simp_all add: mi_def s_def a_def)
  show "t = t div 86400 * 86400 + h * 3600 + mi * 60 + s"
    using t m s unfolding mi_def a_def [symmetric] by linarith
  show "0 \<le> h" using a by (simp add: h_def a_def pos_imp_zdiv_nonneg_iff)
  show "h \<le> 23" using a m mi s unfolding mi_def a_def [symmetric] by linarith
qed

lemma bit_len_le: "n < 2 ^ k \<Longrightarrow> bit_len n \<le> k"
proof (induction k arbitrary: n)
  case (Suc k)
  then show ?case by (subst bit_len.simps) (auto simp: less_mult_imp_div_less)
qed (simp add: bit_len.simps)

lemma NewInt64_exact: "\<bar>v\<bar> < 2 ^ 53 \<Longrightarrow> JS_NewInt64 v = js_int v"
proof -
  assume "\<bar>v\<bar> < 2 ^ 53"
  then have "bit_len (nat \<bar>v\<bar>) \<le> 53" by (intro bit_len_le) (simp add: nat_less_iff)
  then have "round53 (nat \<bar>v\<bar>) = nat \<bar>v\<bar>" by (simp add: round53_def Let_def)
  then show ?thesis by (simp add: JS_NewInt64_def sgn_if)
qed

lemma seconds_of_eq:
  assumes "0 \<le> h" "h \<le> 23" "0 \<le> mi" "mi \<le> 59" "0 \<le> s" "s \<le> 60" and "\<bar>off\<bar> \<le> 86400"
    and "\<bar>days * 86400\<bar> < 2 ^ 63 - 200000"
  shows "seconds_of days h mi s off = Some (days * 86400 + h * 3600 + mi * 60 + s - off)"
proof -
  have i: "i64 (days * 86400) = Some (days * 86400)" "i64 (h * 3600) = Some (h * 3600)"
      "i64 (days * 86400 + h * 3600) = Some (days * 86400 + h * 3600)" "i64 (mi * 60) = Some (mi * 60)"
      "i64 (days * 86400 + h * 3600 + mi * 60) = Some (days * 86400 + h * 3600 + mi * 60)"
      "i64 (days * 86400 + h * 3600 + mi * 60 + s) = Some (days * 86400 + h * 3600 + mi * 60 + s)"
      "i64 (days * 86400 + h * 3600 + mi * 60 + s - off) = Some (days * 86400 + h * 3600 + mi * 60 + s - off)"
    using assms by (intro i64_id; simp; linarith)+
  show ?thesis unfolding seconds_of_def by (simp only: i bind.bind_lunit)
qed

section \<open>Properties\<close>


text \<open>C28. \<open>fromUnix\<close> and \<open>date\<close> are inverse. For every instant more than a few days away from the ends of
  the 64-bit range, \<open>fromUnix\<close> returns the fields of an existing date and of a time of day, with the
  weekday and the day of the year, and \<open>date\<close> of these fields is the instant again.\<close>

theorem from_unix_date:
  assumes "\<bar>sec\<bar> < 2 ^ 63 - 300000"
  shows "\<exists>y mo d h mi s.
    dyn_time_from_unix (Inr sec) = Some (Inr (JObj
      [(''year'', js_int y), (''month'', js_int mo), (''day'', js_int d), (''hour'', js_int h), (''min'', js_int mi),
       (''sec'', js_int s), (''weekday'', js_int ((sec div 86400 + 4) mod 7)),
       (''yday'', js_int (civil_days y mo d - civil_days y 1 1 + 1))])) \<and>
    valid_date (y, mo, d) \<and> 0 \<le> h \<and> h < 24 \<and> 0 \<le> mi \<and> mi < 60 \<and> 0 \<le> s \<and> s < 60 \<and>
    date_seconds y mo d h mi s = Some sec"
proof -
  define days where "days = sec div 86400"
  obtain y mo d where e: "dyn_civil_from_days days = (y, mo, d)" by (metis prod_cases3)
  note v = civil_from_days_inverse [OF e]
  have db: "\<bar>days\<bar> \<le> 2 * 10 ^ 14" using assms by (auto simp: days_def intro: day_bound)
  note yb = civil_year_bound [OF e this]
  define h mi s where "h = sec mod 86400 div 3600" and "mi = sec mod 86400 div 60 mod 60" and "s = sec mod 60"
  note c = clock_fields [of sec, folded h_def mi_def s_def days_def]
  have mo: "1 \<le> mo" "mo \<le> 12" and d: "1 \<le> d" "d \<le> 31" using v(1) by (auto simp: month_days_def split: if_splits)
  have jan: "dyn_days_from_civil y 1 1 = Some (civil_days y 1 1)" and dd: "dyn_days_from_civil y mo d = Some days"
    using yb mo d v(2) by (simp_all add: days_from_civil_eq)
  have "dyn_time_from_unix (Inr sec) = Some (Inr (JObj
      [(''year'', js_int y), (''month'', js_int mo), (''day'', js_int d), (''hour'', js_int h), (''min'', js_int mi),
       (''sec'', js_int s), (''weekday'', js_int ((sec div 86400 + 4) mod 7)),
       (''yday'', js_int (civil_days y mo d - civil_days y 1 1 + 1))]))"
    using yb v(2) by (simp add: dyn_time_from_unix_def Let_def days_def [symmetric] e time_of_day_eq h_def mi_def s_def
        jan weekday_mod NewInt64_exact)
  moreover have "dyn_time_norm_month y mo = Some (y, mo)"
    using mo yb by (simp add: dyn_time_norm_month_def i64_id)
  moreover have "\<bar>days * 86400\<bar> < 2 ^ 63 - 200000"
    using c assms unfolding abs_less_iff by linarith
  then have "seconds_of days h mi s 0 = Some sec"
    using seconds_of_eq [of h mi s 0 days] c(1-6) unfolding c(7) [symmetric] by simp
  with dd have "date_seconds y mo d h mi s = Some sec" if "dyn_time_norm_month y mo = Some (y, mo)"
    using that by (simp add: date_seconds_def)
  ultimately have "dyn_time_from_unix (Inr sec) = Some (Inr (JObj
      [(''year'', js_int y), (''month'', js_int mo), (''day'', js_int d), (''hour'', js_int h), (''min'', js_int mi),
       (''sec'', js_int s), (''weekday'', js_int ((sec div 86400 + 4) mod 7)),
       (''yday'', js_int (civil_days y mo d - civil_days y 1 1 + 1))])) \<and>
    valid_date (y, mo, d) \<and> 0 \<le> h \<and> h < 24 \<and> 0 \<le> mi \<and> mi < 60 \<and> 0 \<le> s \<and> s < 60 \<and>
    date_seconds y mo d h mi s = Some sec"
    using v(1) c(1-6) by (intro conjI) (assumption | linarith | blast)+
  then show ?thesis by blast
qed

text \<open>The first second of the year 2001.\<close>

theorem from_unix_date_witness:
  "\<exists>y mo d h mi s.
    dyn_time_from_unix (Inr 978307200) = Some (Inr (JObj
      [(''year'', js_int y), (''month'', js_int mo), (''day'', js_int d), (''hour'', js_int h), (''min'', js_int mi),
       (''sec'', js_int s), (''weekday'', js_int 1), (''yday'', js_int (civil_days y mo d - civil_days y 1 1 + 1))])) \<and>
    date_seconds y mo d h mi s = Some 978307200"
  using from_unix_date [of 978307200] by auto

end
