(* ===== verification/Dyna_TimeText.thy ===== *)
theory Dyna_TimeText
  imports Dyna_Calendar
begin

text \<open>
  The texts of \<^verbatim>\<open>dyna:time\<close>: decimal fields, RFC 3339 timestamps and layouts. What the formatter writes
  fits its buffer and is read back by the parser; the year token of a layout does not fit its own.
\<close>

section \<open>Decimal fields\<close>

lemma time_digits_dec_str: "0 < v \<Longrightarrow> rev (time_digits v) = dec_str v"
proof (induction v rule: time_digits.induct)
  case (1 v)
  then show ?case
    by (cases "v < 10") (simp_all add: time_digits.simps [of v] dec_str.simps [of v] time_digits.simps [of 0])
qed

lemma utoa_dec_str: "dyn_time_utoa v = dec_str v"
  by (cases "v = 0") (simp_all add: dyn_time_utoa_def time_digits_dec_str dec_str.simps [of 0])

lemma length_dec_str_le: "0 < k \<Longrightarrow> length (dec_str n) \<le> k \<longleftrightarrow> n < 10 ^ k"
proof (induction n arbitrary: k rule: dec_str.induct)
  case (1 n)
  show ?case
  proof (cases "n < 10")
    case True
    moreover have "(10 :: nat) ^ 1 \<le> 10 ^ k" using 1(2) by (intro power_increasing) simp_all
    ultimately show ?thesis using 1(2) by (simp add: dec_str.simps [of n])
  next
    case False
    then have l: "length (dec_str n) = Suc (length (dec_str (n div 10)))" by (simp add: dec_str.simps [of n])
    show ?thesis
    proof (cases k)
      case (Suc j)
      show ?thesis
      proof (cases "j = 0")
        case True
        have "0 < length (dec_str (n div 10))" by simp
        then show ?thesis using False l Suc True by simp
      next
        case j: False
        then show ?thesis
          using 1(1) [OF False, of j] l Suc by (simp add: div_less_iff_less_mult mult.commute)
      qed
    qed (use 1(2) in simp)
  qed
qed

lemma dec_val_zeros [simp]: "dec_val (replicate n (CHR ''0'') @ s) = dec_val s"
proof -
  have "dig_val (CHR ''0'') = 0" by (simp add: dig_val_def)
  then show ?thesis by (induction n) (simp_all add: dec_val_Cons)
qed

lemma utoa_pad:
  shows "list_all is_dig (dyn_time_utoa_pad v w)" "dec_val (dyn_time_utoa_pad v w) = v" "w \<le> length (dyn_time_utoa_pad v w)"
    "length (dyn_time_utoa_pad v w) = max w (length (dec_str v))"
proof -
  have "is_dig (CHR ''0'')" by (simp add: is_dig_iff)
  then show "list_all is_dig (dyn_time_utoa_pad v w)"
    using dec_str_digits [of v] by (simp add: dyn_time_utoa_pad_def Let_def utoa_dec_str list_all_iff)
qed (auto simp: dyn_time_utoa_pad_def Let_def utoa_dec_str max_def)

lemma utoa_pad_length: "0 < w \<Longrightarrow> v < 10 ^ w \<Longrightarrow> length (dyn_time_utoa_pad v w) = w"
  using length_dec_str_le [of w v] by (simp add: utoa_pad(4))

lemma two_digits_scan:
  assumes "0 \<le> n" and "n < 100"
  shows "dyn_time_expect_digits 2 (two_digits n @ s) = Some (n, s)"
proof -
  have "length (two_digits n) = 2" using assms by (intro utoa_pad_length) (simp_all add: nat_less_iff)
  then show ?thesis
    using utoa_pad(1,2) [of "nat n" 2] assms(1) by (simp add: dyn_time_expect_digits_def)
qed

lemma expect_char_hit [simp]: "c \<in> set cs \<Longrightarrow> expect_char cs (c # s) = Some s"
  by (simp add: expect_char_def)

section \<open>The year\<close>

lemma scan_year_run:
  assumes "list_all is_dig ds" and "v * 10 ^ length ds + dec_val ds < 10 ^ 17"
  shows "scan_year_loop v n (ds @ t) = scan_year_loop (v * 10 ^ length ds + dec_val ds) (n + length ds) t"
  using assms
proof (induction ds arbitrary: v n)
  case (Cons c ds)
  have e: "v * 10 ^ length (c # ds) + dec_val (c # ds) = (v * 10 + dig_val c) * 10 ^ length ds + dec_val ds"
    by (simp add: dec_val_Cons algebra_simps)
  have "v \<le> v * 10 ^ length (c # ds)" by simp
  then have "v < 10 ^ 17" using Cons.prems(2) by linarith
  then show ?case using Cons.IH [of "v * 10 + dig_val c" "Suc n"] Cons.prems e by simp
qed simp

lemma scan_year_text:
  assumes "\<bar>y\<bar> < 10 ^ 17"
  shows "dyn_time_scan_year (year_text y @ CHR ''-'' # s) = Some (y, CHR ''-'' # s)"
proof -
  define ds where "ds = dyn_time_utoa_pad (nat \<bar>y\<bar>) 4"
  have d: "list_all is_dig ds" "dec_val ds = nat \<bar>y\<bar>" "4 \<le> length ds" using utoa_pad [of "nat \<bar>y\<bar>" 4] by (simp_all add: ds_def)
  have nd: "\<not> is_dig (CHR ''-'')" by (simp add: is_dig_iff)
  have l: "scan_year_loop 0 0 (ds @ CHR ''-'' # s) = Some (nat \<bar>y\<bar>, length ds, CHR ''-'' # s)"
    using scan_year_run [of ds 0 0 "CHR ''-'' # s"] d assms nd by (simp add: nat_less_iff)
  have "hd ds \<noteq> CHR ''-''" "ds \<noteq> []" using d nd by (cases ds; auto)+
  moreover have "year_text y = (if y < 0 then ''-'' else []) @ ds" by (simp add: year_text_def ds_def)
  ultimately show ?thesis
    using l d(3) by (simp add: dyn_time_scan_year_def Let_def)
qed

section \<open>Fraction and offset\<close>

lemma strip_zeros:
  assumes "list_all is_dig ds"
  defines "r \<equiv> rev (dropWhile (\<lambda>c. c = CHR ''0'') (rev ds))"
  shows "list_all is_dig r" "dec_val r * 10 ^ (length ds - length r) = dec_val ds" "length r \<le> length ds"
proof -
  have s: "ds = r @ rev (takeWhile (\<lambda>c. c = CHR ''0'') (rev ds))"
    unfolding r_def by (metis rev_append rev_rev_ident takeWhile_dropWhile_id)
  define z where "z = rev (takeWhile (\<lambda>c. c = CHR ''0'') (rev ds))"
  have z: "dec_val z = 0"
  proof -
    have "z = replicate (length z) (CHR ''0'')"
      by (rule replicate_eqI) (auto simp: z_def dest: set_takeWhileD)
    then show ?thesis by (metis append_Nil2 dec_val_Nil dec_val_zeros)
  qed
  have dz: "ds = r @ z" using s by (simp add: z_def)
  show "list_all is_dig r" using assms(1) by (simp add: dz)
  show "dec_val r * 10 ^ (length ds - length r) = dec_val ds" by (simp add: dz dec_val_append z)
  show "length r \<le> length ds" by (simp add: dz)
qed

lemma fmt_frac:
  assumes "0 < f" and "f < 10 ^ w" and "0 < w"
  obtains ds where "dyn_time_fmt_frac f w = CHR ''.'' # ds" "list_all is_dig ds" "ds \<noteq> []" "length ds \<le> w"
    "dec_val ds * 10 ^ (w - length ds) = f"
proof -
  define r where "r = rev (dropWhile (\<lambda>c. c = CHR ''0'') (rev (dyn_time_utoa_pad f w)))"
  note s = strip_zeros [OF utoa_pad(1) [of f w], folded r_def]
  have l: "length (dyn_time_utoa_pad f w) = w" using assms by (simp add: utoa_pad_length)
  have "r \<noteq> []" using s(2) assms(1) by (auto simp: utoa_pad(2))
  then have "dyn_time_fmt_frac f w = CHR ''.'' # r"
    by (simp add: dyn_time_fmt_frac_def r_def [symmetric] Let_def)
  with \<open>r \<noteq> []\<close> show thesis using that [of r] s l by (simp add: utoa_pad(2))
qed

lemma fmt_frac_zero [simp]: "0 < w \<Longrightarrow> dyn_time_fmt_frac 0 w = []"
proof -
  assume "0 < w"
  then have "length (dyn_time_utoa_pad 0 w) = w" by (simp add: utoa_pad_length)
  then have "dyn_time_utoa_pad 0 w = replicate w (CHR ''0'')"
    by (intro replicate_eqI) (auto simp: dyn_time_utoa_pad_def dyn_time_utoa_def Let_def split: if_splits)
  then show ?thesis by (simp add: dyn_time_fmt_frac_def Let_def dropWhile_eq_Nil_conv)
qed

text \<open>What may follow the seconds: an offset, which starts with a letter or a sign.\<close>

lemma scan_fraction_text:
  assumes "0 \<le> nsec" and "nsec < 10 ^ 9" and "t \<noteq> []" and "\<not> is_dig (hd t)" and "hd t \<noteq> CHR ''.''"
  shows "scan_fraction ((if nsec > 0 then dyn_time_fmt_frac (nat nsec) 9 else []) @ t) = Some (nsec, t)"
proof (cases "nsec > 0")
  case True
  then obtain ds where ds: "dyn_time_fmt_frac (nat nsec) 9 = CHR ''.'' # ds" "list_all is_dig ds" "ds \<noteq> []" "length ds \<le> 9"
      "dec_val ds * 10 ^ (9 - length ds) = nat nsec"
    using fmt_frac [of "nat nsec" 9] assms(2) by (auto simp: nat_less_iff)
  have "takeWhile is_dig (ds @ t) = ds" "dropWhile is_dig (ds @ t) = t"
    using ds(2) assms(4) by (simp_all add: takeWhile_append_stop dropWhile_append_stop)
  moreover have "int (dec_val ds) * 10 ^ (9 - length ds) = nsec" using ds(5) assms(1) by (metis int_nat_eq of_nat_mult of_nat_numeral of_nat_power)
  moreover have "(if length ds < 9 then length ds else 9) = length ds" using ds(4) by simp
  ultimately show ?thesis using True ds by (simp add: scan_fraction_def Let_def)
next
  case False
  then show ?thesis using assms by (simp add: scan_fraction_def)
qed

lemma offset_fields:
  assumes "60 dvd o'" and "0 \<le> o'" and "o' < (86400 :: int)"
  obtains H M where "o' div 3600 = H" "o' div 60 mod 60 = M" "0 \<le> H" "H \<le> 23" "0 \<le> M" "M \<le> 59" "H * 3600 + M * 60 = o'"
proof -
  have "o' div 3600 = o' div 60 div 60" using zdiv_zmult2_eq [of 60 o' 60] by simp
  moreover have "o' div 60 * 60 = o'" using assms(1) by simp
  moreover have "o' div 60 = o' div 60 div 60 * 60 + o' div 60 mod 60" by simp
  ultimately have "o' div 3600 * 3600 + o' div 60 mod 60 * 60 = o'" by linarith
  moreover have "0 \<le> o' div 3600" using assms by (simp add: pos_imp_zdiv_nonneg_iff)
  moreover have "o' div 3600 \<le> 23" using zdiv_mono1 [of o' 86399 3600] assms by simp
  moreover have "0 \<le> o' div 60 mod 60" "o' div 60 mod 60 \<le> 59" using pos_mod_bound [of 60 "o' div 60"] by simp_all
  ultimately show thesis using that by blast
qed

lemma scan_offset_text:
  assumes "60 dvd off" and "\<bar>off\<bar> < 86400"
  shows "scan_offset (offset_text off) = Some (off, [])" "length (offset_text off) \<le> 6"
proof -
  obtain H M where f: "\<bar>off\<bar> div 3600 = H" "\<bar>off\<bar> div 60 mod 60 = M" and b: "0 \<le> H" "H \<le> 23" "0 \<le> M" "M \<le> 59"
    and v: "H * 3600 + M * 60 = \<bar>off\<bar>"
    using offset_fields [of "\<bar>off\<bar>"] assms by auto
  have l: "length (two_digits H) = 2" "length (two_digits M) = 2"
    using b by (auto intro!: utoa_pad_length simp: nat_less_iff)
  have "c_div \<bar>off\<bar> 3600 = H" "c_mod (c_div \<bar>off\<bar> 60) 60 = M"
    using f by (simp_all add: pos_imp_zdiv_nonneg_iff)
  then have e: "offset_text off = (if off = 0 then ''Z''
      else (if off < 0 then CHR ''-'' else CHR ''+'') # two_digits H @ CHR '':'' # two_digits M)"
    by (simp add: offset_text_def Let_def)
  show "length (offset_text off) \<le> 6" unfolding e using l by simp
  have t: "dyn_time_expect_digits 2 (two_digits H @ CHR '':'' # two_digits M) = Some (H, CHR '':'' # two_digits M)"
    "dyn_time_expect_digits 2 (two_digits M) = Some (M, [])"
    using two_digits_scan [of H] two_digits_scan [of M "[]"] b by simp_all
  have "off < 0 \<Longrightarrow> - (H * 3600) - M * 60 = off" "\<not> off < 0 \<Longrightarrow> H * 3600 + M * 60 = off" using v by linarith+
  then show "scan_offset (offset_text off) = Some (off, [])"
    unfolding e using t b by (simp add: scan_offset_def)
qed

lemma offset_text_hd: "offset_text off \<noteq> []" "\<not> is_dig (hd (offset_text off))" "hd (offset_text off) \<noteq> CHR ''.''"
  by (simp_all add: offset_text_def Let_def is_dig_iff)

section \<open>Timestamps\<close>

lemma scan_rfc3339_text:
  assumes "\<bar>y\<bar> < 10 ^ 17" and "0 \<le> mo" "mo < 100" "0 \<le> d" "d < 100" "0 \<le> h" "h < 100" "0 \<le> mi" "mi < 100"
    "0 \<le> s" "s < 100" and "0 \<le> nsec" "nsec < 10 ^ 9" and "60 dvd off" "\<bar>off\<bar> < 86400"
  shows "scan_rfc3339 (year_text y @ ''-'' @ two_digits mo @ ''-'' @ two_digits d @ ''T'' @
      two_digits h @ '':'' @ two_digits mi @ '':'' @ two_digits s @
      (if nsec > 0 then dyn_time_fmt_frac (nat nsec) 9 else []) @ offset_text off) =
    Some (y, mo, d, h, mi, s, nsec, off)"
proof -
  have sep: "c # r = [c] @ r" for c :: char and r by simp
  have f: "scan_fraction ((if nsec > 0 then dyn_time_fmt_frac (nat nsec) 9 else []) @ offset_text off) =
      Some (nsec, offset_text off)"
    using assms by (intro scan_fraction_text offset_text_hd) simp_all
  note o = scan_offset_text(1) [OF assms(14,15)]
  show ?thesis
    unfolding scan_rfc3339_def append_Cons append_Nil
    using assms(1-11) by (simp add: scan_year_text two_digits_scan f o del: append_assoc if_split)
qed

lemma rfc3339_parses:
  assumes t: "\<bar>t\<bar> < 2 ^ 63 - 300000" and n: "0 \<le> nsec" "nsec < 10 ^ 9" and off: "60 dvd off" "\<bar>off\<bar> < 86400"
  shows "dyn_time_parse_rfc3339 (Inr (rfc3339_text t nsec off)) =
    Some (Inr (JObj [(''sec'', JS_NewInt64 (t - off)), (''nsec'', js_int nsec)]))"
proof -
  define days where "days = t div 86400"
  obtain y mo d where e: "dyn_civil_from_days days = (y, mo, d)" by (metis prod_cases3)
  note v = civil_from_days_inverse [OF e]
  have "\<bar>days\<bar> \<le> 2 * 10 ^ 14" unfolding days_def using t by (intro day_bound) linarith
  note yb = civil_year_bound [OF e this]
  define h mi s where "h = t mod 86400 div 3600" and "mi = t mod 86400 div 60 mod 60" and "s = t mod 60"
  note c = clock_fields [of t, folded h_def mi_def s_def days_def]
  have mo: "1 \<le> mo" "mo \<le> 12" and d: "1 \<le> d" "d \<le> month_days y mo" using v(1) by simp_all
  have d31: "d \<le> 31" using d by (simp add: month_days_def split: if_splits)
  have tod: "time_of_day (t mod 86400) = (h, mi, s)" by (simp add: time_of_day_eq h_def mi_def s_def)
  have x: "rfc3339_text t nsec off = year_text y @ ''-'' @ two_digits mo @ ''-'' @ two_digits d @ ''T'' @
      two_digits h @ '':'' @ two_digits mi @ '':'' @ two_digits s @
      (if nsec > 0 then dyn_time_fmt_frac (nat nsec) 9 else []) @ offset_text off"
    by (simp add: rfc3339_text_def days_def [symmetric] e tod)
  have sc: "scan_rfc3339 (rfc3339_text t nsec off) = Some (y, mo, d, h, mi, s, nsec, off)"
  proof -
    have "\<bar>y\<bar> < 10 ^ 17" using yb by simp
    then show ?thesis
      unfolding x using mo d d31 c(1-6) n off by (intro scan_rfc3339_text) linarith+
  qed
  have dim: "dyn_time_days_in_month y mo = Some (month_days y mo)" using yb mo by (intro days_in_month_eq)
  have dd: "dyn_days_from_civil y mo d = Some days"
    using days_from_civil_eq [of y mo d] yb mo d d31 v(2) by simp
  have "\<bar>days * 86400\<bar> < 2 ^ 63 - 200000" using c t unfolding abs_less_iff by linarith
  then have so: "seconds_of days h mi s off = Some (t - off)"
    using seconds_of_eq [of h mi s off days] c(1-6) off(2) unfolding c(7) [symmetric] by simp
  have "\<not> (mo < 1 \<or> mo > 12)" "\<not> d < 1" "\<not> d > month_days y mo" "\<not> (h > 23 \<or> mi > 59 \<or> s > 60)"
    using mo d c by linarith+
  then show ?thesis
    by (simp only: dyn_time_parse_rfc3339_def Let_def sum.case sc option.case split_conv if_False dim dd so bind.bind_lunit)
qed

text \<open>The longest text: a signed year of twelve digits, nine digits of fraction, an offset.\<close>

lemma rfc3339_length:
  assumes "\<bar>t\<bar> \<le> 2 ^ 63" and "0 \<le> nsec" "nsec < 10 ^ 9" and "60 dvd off" "\<bar>off\<bar> < 86400"
  shows "length (rfc3339_text t nsec off) \<le> 45"
proof -
  obtain y mo d where e: "dyn_civil_from_days (t div 86400) = (y, mo, d)" by (metis prod_cases3)
  note v = civil_from_days_inverse [OF e] and yb = civil_year_bound [OF e day_bound [OF assms(1)]]
  obtain h mi s where tod: "time_of_day (t mod 86400) = (h, mi, s)" "0 \<le> h" "h \<le> 23" "0 \<le> mi" "mi \<le> 59" "0 \<le> s" "s \<le> 59"
    by (rule that [OF time_of_day_eq clock_fields(1-6)])
  have two: "length (two_digits k) = 2" if "0 \<le> k" "k < 100" for k using that by (auto intro!: utoa_pad_length simp: nat_less_iff)
  have "length (dec_str (nat \<bar>y\<bar>)) \<le> 13" using yb by (subst length_dec_str_le) (simp_all add: nat_less_iff)
  then have "length (year_text y) \<le> 14" by (auto simp: year_text_def utoa_pad(4))
  moreover have "length (if nsec > 0 then dyn_time_fmt_frac (nat nsec) 9 else []) \<le> 10"
  proof (cases "nsec > 0")
    case True
    then obtain ds where "dyn_time_fmt_frac (nat nsec) 9 = CHR ''.'' # ds" "length ds \<le> 9"
      using fmt_frac [of "nat nsec" 9] assms(3) by (auto simp: nat_less_iff)
    then show ?thesis by simp
  qed simp
  moreover have "length (offset_text off) \<le> 6" using scan_offset_text(2) assms by blast
  moreover have "mo \<le> 12" "1 \<le> mo" "1 \<le> d" "d \<le> 31" using v(1) by (auto simp: month_days_def split: if_splits)
  ultimately show ?thesis
    using tod by (simp add: rfc3339_text_def e two)
qed

section \<open>Properties\<close>

text \<open>C17. Timestamps survive the round trip. For every instant more than a few days away from the ends of the
  64-bit range, every nanosecond count and every local offset of whole minutes below a day,
  \<open>formatRFC3339\<close> returns a text that fits its 96-byte buffer, negative years and years of any width
  included, and \<open>parseRFC3339\<close> reads the same instant and the same nanoseconds from it.\<close>

theorem rfc3339_round_trip:
  assumes "\<bar>sec\<bar> < 2 ^ 63 - 400000" and "0 \<le> nsec" and "nsec \<le> 999999999" and "60 dvd gmtoff" and "\<bar>gmtoff\<bar> < 86400"
  shows "\<exists>s. dyn_time_format_rfc3339 (Inr sec) (Some (Inr nsec)) utc gmtoff = Some (Inr (JStr s)) \<and> length s \<le> 96 \<and>
    dyn_time_parse_rfc3339 (Inr s) = Some (Inr (JObj [(''sec'', JS_NewInt64 sec), (''nsec'', js_int nsec)]))"
proof -
  define off where "off = (if utc = Some False then gmtoff else 0)"
  have off: "60 dvd off" "\<bar>off\<bar> < 86400" using assms(4,5) by (simp_all add: off_def)
  have n: "nsec < 10 ^ 9" using assms(3) by simp
  have t: "\<bar>sec + off\<bar> < 2 ^ 63 - 300000" using assms(1) off(2) by linarith
  have i: "i64 (sec + off) = Some (sec + off)" using t by (intro i64_id) linarith
  have "dyn_time_format_rfc3339 (Inr sec) (Some (Inr nsec)) utc gmtoff = Some (Inr (JStr (rfc3339_text (sec + off) nsec off)))"
    using assms(2,3) by (simp add: dyn_time_format_rfc3339_def off_def [symmetric] i Let_def)
  moreover have "length (rfc3339_text (sec + off) nsec off) \<le> 96"
    using rfc3339_length [of "sec + off" nsec off] t n assms(2) off by simp
  moreover have "dyn_time_parse_rfc3339 (Inr (rfc3339_text (sec + off) nsec off)) =
      Some (Inr (JObj [(''sec'', JS_NewInt64 sec), (''nsec'', js_int nsec)]))"
    using rfc3339_parses [OF t assms(2) n off] by simp
  ultimately show ?thesis by blast
qed

text \<open>Half a second after the epoch, on a clock five and a half hours ahead.\<close>

theorem rfc3339_round_trip_witness:
  "\<exists>s. dyn_time_format_rfc3339 (Inr 0) (Some (Inr 500000000)) (Some False) 19800 = Some (Inr (JStr s)) \<and>
    dyn_time_parse_rfc3339 (Inr s) = Some (Inr (JObj [(''sec'', JS_NewInt64 0), (''nsec'', js_int 500000000)]))"
  using rfc3339_round_trip [of 0 500000000 19800 "Some False"] by auto

text \<open>C38. The year token of a layout overruns its buffer. \<open>formatUnix\<close> writes the digits of the year into
  eight bytes on the stack: with the layout \<open>2006\<close> it is undefined exactly when the year has more than
  eight digits, and such years are within the range of its argument.\<close>

theorem format_unix_year_overflow:
  "(dyn_time_format_unix (Inr sec) (Inr ''2006'') = None \<longleftrightarrow> 10 ^ 8 \<le> \<bar>fst (dyn_civil_from_days (sec div 86400))\<bar>) \<and>
   (\<exists>t. \<bar>t\<bar> < 2 ^ 53 \<and> dyn_time_format_unix (Inr t) (Inr ''2006'') = None)"
proof -
  have n: "dyn_time_format_unix (Inr sec) (Inr ''2006'') = None \<longleftrightarrow> 10 ^ 8 \<le> \<bar>fst (dyn_civil_from_days (sec div 86400))\<bar>" for sec
  proof -
    obtain y mo d where e: "dyn_civil_from_days (sec div 86400) = (y, mo, d)" by (metis prod_cases3)
    have "8 < length (dyn_time_utoa_pad (nat \<bar>y\<bar>) 4) \<longleftrightarrow> \<not> length (dec_str (nat \<bar>y\<bar>)) \<le> 8" by (auto simp: utoa_pad(4))
    also have "\<dots> \<longleftrightarrow> 10 ^ 8 \<le> \<bar>y\<bar>" by (subst length_dec_str_le) (simp_all add: nat_less_iff not_less)
    finally show ?thesis
      by (simp add: dyn_time_format_unix_def Let_def e layout_loop.simps layout_token_def split: prod.split)
  qed
  have "civil_days 100000000 1 1 = 36523530472"
    by (simp add: civil_days_def year_start_def)
  then have "dyn_civil_from_days (3155633032780800 div 86400) = (100000000, 1, 1)"
    using civil_days_from [of 100000000 1 1] by (simp add: month_days_def)
  then have "dyn_time_format_unix (Inr 3155633032780800) (Inr ''2006'') = None" by (simp add: n)
  with n show ?thesis by (intro conjI exI [of _ 3155633032780800]) simp_all
qed

end
