(* ===== verification/Dyna_Duration.thy ===== *)
theory Dyna_Duration
  imports Dyna_TimeText
begin

text \<open>
  Durations of \<^verbatim>\<open>dyna:time\<close>: what \<open>durationString\<close> prints for a 64-bit count of nanoseconds is read back by
  \<open>parseDuration\<close>, and where the sum of its terms wraps around.
\<close>

section \<open>Scanning numbers\<close>

lemma duration_int_run:
  assumes "list_all is_dig ds" and "v * 10 ^ length ds + dec_val ds < 10 ^ 18" and "t \<noteq> []" and "\<not> is_dig (hd t)"
  shows "duration_int v (ds @ t) = Some (v * 10 ^ length ds + dec_val ds, t)"
  using assms(1,2)
proof (induction ds arbitrary: v)
  case Nil
  then show ?case using assms(3,4) by (cases t) simp_all
next
  case (Cons c ds)
  define w where "w = v * 10 + dig_val c"
  have lo: "v * 10 \<le> w" by (simp add: w_def)
  have e: "v * 10 ^ length (c # ds) + dec_val (c # ds) = w * 10 ^ length ds + dec_val ds"
    by (simp add: w_def dec_val_Cons algebra_simps)
  have "w \<le> w * 10 ^ length ds" by simp
  then have "w < 10 ^ 18" using Cons.prems(2) unfolding e by linarith
  then show ?case using Cons.IH [of w] Cons.prems lo unfolding e by (simp add: Let_def w_def [symmetric])
qed

lemma duration_int_dec_str:
  assumes "n < 10 ^ 18" and "t \<noteq> []" and "\<not> is_dig (hd t)"
  shows "duration_int 0 (dec_str n @ t) = Some (n, t)"
  using duration_int_run [of "dec_str n" 0 t] dec_str_digits [of n] assms by simp

lemma leading_fraction_run:
  assumes "list_all is_dig ds" and "x * 10 ^ length ds + dec_val ds < 10 ^ 18" and "t \<noteq> []" and "\<not> is_dig (hd t)"
  shows "leading_fraction_loop x k False (ds @ t) = (x * 10 ^ length ds + dec_val ds, k + length ds, t)"
  using assms(1,2)
proof (induction ds arbitrary: x k)
  case Nil
  then show ?case using assms(3,4) by (cases t) simp_all
next
  case (Cons c ds)
  define w where "w = x * 10 + dig_val c"
  have lo: "x * 10 \<le> w" by (simp add: w_def)
  have e: "x * 10 ^ length (c # ds) + dec_val (c # ds) = w * 10 ^ length ds + dec_val ds"
    by (simp add: w_def dec_val_Cons algebra_simps)
  have "w \<le> w * 10 ^ length ds" by simp
  then have "w < 10 ^ 18" using Cons.prems(2) unfolding e by linarith
  then show ?case using Cons.IH [of w "Suc k"] Cons.prems lo unfolding e by (simp add: Let_def w_def [symmetric])
qed

section \<open>One term\<close>

text \<open>The unit names that \<open>durationString\<close> writes, and the rest of the text after them.\<close>

definition unit_ok :: "string \<Rightarrow> nat \<Rightarrow> bool" where
  "unit_ok u ns \<longleftrightarrow> (u, ns) \<in> {(''ns'', 1), (micro_s, NS_US), (''ms'', NS_MS), (''s'', NS_SEC), (''m'', NS_MIN), (''h'', NS_HOUR)}"

abbreviation unit_char :: "char \<Rightarrow> bool" where
  "unit_char c \<equiv> c \<noteq> CHR ''.'' \<and> \<not> is_dig c"

lemma unit_ok_props:
  assumes "unit_ok u ns"
  shows "dyn_time_lookup_unit u = Some ns" "u \<noteq> []" "list_all unit_char u" "0 < ns"
proof -
  show "list_all unit_char u"
    using assms by (auto simp: unit_ok_def micro_s_def is_dig_iff)
  show "dyn_time_lookup_unit u = Some ns" "u \<noteq> []" "0 < ns"
    using assms by (auto simp: unit_ok_def dyn_time_lookup_unit_def dyn_time_units_def micro_s_def)
qed

text \<open>What the floating-point step gives when the scale divides the unit: the product is an integer
  below \<open>2 ^ 53\<close>, which a double holds exactly.\<close>

definition exact_fraction :: "(nat \<Rightarrow> nat \<Rightarrow> nat \<Rightarrow> nat) \<Rightarrow> bool" where
  "exact_fraction fadd \<longleftrightarrow>
     (\<forall>f unit k. 10 ^ k dvd unit \<longrightarrow> f * (unit div 10 ^ k) < 2 ^ 53 \<longrightarrow> fadd f unit k = f * (unit div 10 ^ k))"

lemma duration_term_whole:
  assumes u: "unit_ok u ns" and n: "n * ns \<le> 2 ^ 63" "n < 10 ^ 18" and r: "r = [] \<or> \<not> unit_char (hd r)"
  shows "duration_term fadd (dec_str n @ u @ r) = Some (n * ns, r)"
proof -
  note p = unit_ok_props [OF u]
  have hd: "unit_char (hd u)" using p(2,3) by (cases u) auto
  have i: "duration_int 0 (dec_str n @ u @ r) = Some (n, u @ r)"
    using n(2) p(2) hd by (intro duration_int_dec_str) simp_all
  have w: "takeWhile unit_char (u @ r) = u" "dropWhile unit_char (u @ r) = r"
    using p(3) r by (simp_all add: takeWhile_append_stop dropWhile_append_stop)
  have d: "is_dig (hd (dec_str n @ u @ r))" using dec_str_digits [of n] by (cases "dec_str n") auto
  have v: "n \<le> 2 ^ 63 div ns" using n(1) p(4) by (simp add: less_eq_div_iff_mult_less_eq)
  show ?thesis
    using d i p(1,2) hd v n(1) w by (simp add: duration_term_def Let_def)
qed

lemma duration_term_fraction:
  assumes ex: "exact_fraction fadd" and u: "unit_ok u (10 ^ w)" and w: "0 < w" "w \<le> 9"
    and n: "(n + 1) * 10 ^ w \<le> 2 ^ 63" "n < 10 ^ 18" and f: "f < 10 ^ w" and r: "r = [] \<or> \<not> unit_char (hd r)"
  shows "duration_term fadd (dec_str n @ dyn_time_fmt_frac f w @ u @ r) = Some (n * 10 ^ w + f, r)"
proof (cases "f = 0")
  case True
  then show ?thesis using duration_term_whole [OF u _ n(2) r] n(1) w by simp
next
  case False
  then obtain ds where ds: "dyn_time_fmt_frac f w = CHR ''.'' # ds" "list_all is_dig ds" "ds \<noteq> []" "length ds \<le> w"
      "dec_val ds * 10 ^ (w - length ds) = f"
    using fmt_frac [of f w] f w by auto
  note p = unit_ok_props [OF u]
  have hd: "unit_char (hd u)" using p(2,3) by (cases u) auto
  have i: "duration_int 0 (dec_str n @ CHR ''.'' # ds @ u @ r) = Some (n, CHR ''.'' # ds @ u @ r)"
    using n(2) by (intro duration_int_dec_str) (simp_all add: is_dig_iff)
  have "dec_val ds < 10 ^ length ds" using ds(2) by (rule dec_val_bound)
  also have "\<dots> \<le> (10 :: nat) ^ 9" using ds(4) w by (intro power_increasing) simp_all
  finally have db: "dec_val ds < 10 ^ 18" by simp
  have l: "dyn_time_leading_fraction (ds @ u @ r) = (dec_val ds, length ds, u @ r)"
    using leading_fraction_run [of ds 0 "u @ r" 0] ds(2) db p(2) hd by (simp add: dyn_time_leading_fraction_def)
  have tw: "takeWhile unit_char (u @ r) = u" "dropWhile unit_char (u @ r) = r"
    using p(3) r by (simp_all add: takeWhile_append_stop dropWhile_append_stop)
  have d: "is_dig (hd (dec_str n @ CHR ''.'' # ds @ u @ r))" using dec_str_digits [of n] by (cases "dec_str n") auto
  have q: "(10 :: nat) ^ w div 10 ^ length ds = 10 ^ (w - length ds)" using ds(4) by (simp add: power_diff)
  have "f < 10 ^ 9" using f w power_increasing [of w 9 "10 :: nat"] by linarith
  then have fa: "fadd (dec_val ds) (10 ^ w) (length ds) = f"
    using ex ds(4,5) q unfolding exact_fraction_def by (simp add: le_imp_power_dvd)
  have pos: "0 < dec_val ds" using ds(5) False by (cases "dec_val ds = 0") auto
  have v: "n \<le> 2 ^ 63 div 10 ^ w" using n(1) by (simp add: less_eq_div_iff_mult_less_eq)
  have s: "n * 10 ^ w + f \<le> 2 ^ 63" using n(1) f by (simp add: algebra_simps)
  then have "u64 (n * 10 ^ w + f) = n * 10 ^ w + f" by (intro u64_id) simp
  then show ?thesis
    using d i l p(1,2) hd v s tw fa pos ds(1,3) by (simp add: duration_term_def Let_def)
qed

section \<open>Whole texts\<close>

lemma duration_loop_Nil [simp]: "duration_loop fadd d [] = Some d"
  by (simp add: duration_loop.simps)

lemma duration_loop_step:
  "duration_term fadd s = Some (v, r) \<Longrightarrow> d + v \<le> 2 ^ 63 \<Longrightarrow> s \<noteq> [] \<Longrightarrow> duration_loop fadd d s = duration_loop fadd (d + v) r"
  by (subst duration_loop.simps) (simp add: u64_id)

lemma unit_ok_simps [simp]:
  "unit_ok ''ns'' (Suc 0)" "unit_ok micro_s NS_US" "unit_ok ''ms'' NS_MS" "unit_ok ''s'' NS_SEC" "unit_ok ''m'' NS_MIN"
  "unit_ok ''h'' NS_HOUR"
  by (simp_all add: unit_ok_def)

lemma hd_dec_str_append: "\<not> unit_char (hd (dec_str n @ s))" "dec_str n @ s \<noteq> []"
  using dec_str_digits [of n] by (cases "dec_str n"; auto)+

lemma hours_minutes_seconds:
  fixes u :: nat
  obtains hr mins secs fr where "u div NS_SEC div 60 div 60 = hr" "u div NS_SEC div 60 mod 60 = mins"
    "u div NS_SEC mod 60 = secs" "u mod NS_SEC = fr" "mins < 60" "secs < 60" "fr < 10 ^ 9"
    "u = hr * NS_HOUR + (mins * NS_MIN + (secs * 10 ^ 9 + fr))" "u div NS_SEC div 60 = hr * 60 + mins"
proof -
  define ts fr tm secs hr mins where "ts = u div NS_SEC" and "fr = u mod NS_SEC" and "tm = ts div 60" and "secs = ts mod 60"
    and "hr = tm div 60" and "mins = tm mod 60"
  note defs = ts_def fr_def tm_def secs_def hr_def mins_def
  have e: "u = ts * NS_SEC + fr" "ts = tm * 60 + secs" "tm = hr * 60 + mins" by (simp_all add: defs)
  then have "u = hr * NS_HOUR + (mins * NS_MIN + (secs * 10 ^ 9 + fr))" by simp
  moreover have "secs < 60" "mins < 60" "fr < 10 ^ 9" by (simp_all add: defs)
  moreover have "u div NS_SEC div 60 div 60 = hr" "u div NS_SEC div 60 mod 60 = mins" "u div NS_SEC mod 60 = secs"
      "u mod NS_SEC = fr" "u div NS_SEC div 60 = tm"
    by (simp_all add: defs)
  ultimately show thesis using that e(3) by metis
qed

lemma duration_text_loop:
  assumes ex: "exact_fraction fadd" and u: "u \<le> 2 ^ 63"
  shows "duration_loop fadd 0 (duration_text (int u)) = Some u"
proof -
  note step = duration_loop_step [OF _ _ hd_dec_str_append(2)]
  consider "u = 0" | "0 < u" "u < NS_US" | "NS_US \<le> u" "u < NS_MS" | "NS_MS \<le> u" "u < NS_SEC" | "NS_SEC \<le> u" by linarith
  then show ?thesis
  proof cases
    case 1
    have "duration_term fadd (dec_str 0 @ ''s'' @ []) = Some (0 * 10 ^ 9, [])" by (rule duration_term_whole) simp_all
    from step [OF this, of 0] show ?thesis by (simp add: 1 duration_text_def dec_str.simps [of 0])
  next
    case 2
    then have "duration_term fadd (dec_str u @ ''ns'' @ []) = Some (u * 1, [])" by (intro duration_term_whole) simp_all
    from step [OF this, of 0] 2 u show ?thesis by (simp add: duration_text_def Let_def utoa_dec_str)
  next
    case 3
    have "duration_term fadd (dec_str (u div NS_US) @ dyn_time_fmt_frac (u mod NS_US) 3 @ micro_s @ []) =
        Some (u div NS_US * 10 ^ 3 + u mod NS_US, [])"
      using 3 by (intro duration_term_fraction [OF ex]) simp_all
    from step [OF this, of 0] 3 u show ?thesis by (simp add: duration_text_def Let_def utoa_dec_str)
  next
    case 4
    have "duration_term fadd (dec_str (u div NS_MS) @ dyn_time_fmt_frac (u mod NS_MS) 6 @ ''ms'' @ []) =
        Some (u div NS_MS * 10 ^ 6 + u mod NS_MS, [])"
      using 4 by (intro duration_term_fraction [OF ex]) simp_all
    from step [OF this, of 0] 4 u show ?thesis by (simp add: duration_text_def Let_def utoa_dec_str)
  next
    case 5
    obtain hr mins secs fr where e: "u div NS_SEC div 60 div 60 = hr" "u div NS_SEC div 60 mod 60 = mins"
        "u div NS_SEC mod 60 = secs" "u mod NS_SEC = fr" and b: "mins < 60" "secs < 60" "fr < 10 ^ 9"
      and v: "u = hr * NS_HOUR + (mins * NS_MIN + (secs * 10 ^ 9 + fr))" "u div NS_SEC div 60 = hr * 60 + mins"
      by (rule hours_minutes_seconds)
    define tl where "tl = dec_str secs @ dyn_time_fmt_frac fr 9 @ ''s''"
    define ml where "ml = dec_str mins @ ''m'' @ tl"
    have hb: "hr * NS_HOUR \<le> 2 ^ 63" "hr < 10 ^ 18" using v(1) u by simp_all
    have "duration_term fadd (dec_str secs @ dyn_time_fmt_frac fr 9 @ ''s'' @ []) = Some (secs * 10 ^ 9 + fr, [])"
      using b by (intro duration_term_fraction [OF ex]) simp_all
    then have s: "duration_loop fadd d tl = Some (d + (secs * 10 ^ 9 + fr))" if "d + (secs * 10 ^ 9 + fr) \<le> 2 ^ 63" for d
      using step that by (simp add: tl_def)
    have "duration_term fadd (dec_str mins @ ''m'' @ tl) = Some (mins * NS_MIN, tl)"
      using b hd_dec_str_append(1) unfolding tl_def by (intro duration_term_whole) simp_all
    then have m: "duration_loop fadd d ml = Some (d + (mins * NS_MIN + (secs * 10 ^ 9 + fr)))"
      if "d + (mins * NS_MIN + (secs * 10 ^ 9 + fr)) \<le> 2 ^ 63" for d
      using step [of fadd mins "''m'' @ tl" "mins * NS_MIN" tl d] s [of "d + mins * NS_MIN"] that by (simp add: ml_def)
    have "duration_term fadd (dec_str hr @ ''h'' @ ml) = Some (hr * NS_HOUR, ml)"
      using hb hd_dec_str_append(1) unfolding ml_def by (intro duration_term_whole) simp_all
    then have h: "duration_loop fadd 0 (dec_str hr @ ''h'' @ ml) = Some u"
      using step [of fadd hr "''h'' @ ml" "hr * NS_HOUR" ml 0] m [of "hr * NS_HOUR"] u v(1) hb by simp
    have "duration_text (int u) = (if hr * 60 + mins > 0 then (if hr > 0 then dec_str hr @ ''h'' else []) @ dec_str mins @ ''m'' else []) @ tl"
      unfolding duration_text_def Let_def abs_of_nat nat_int e using 5 by (simp add: v(2) tl_def utoa_dec_str)
    then show ?thesis
      using h m [of 0] s [of 0] u v(1) by (cases "hr = 0"; cases "mins = 0") (simp_all add: ml_def)
  qed
qed

lemma duration_text_shape: "\<exists>n t. duration_text (int u) = dec_str n @ t @ ''s''"
proof -
  have z: "''0s'' = dec_str 0 @ [] @ ''s''" by (simp add: dec_str.simps [of 0])
  have a: "\<exists>n' t'. dec_str n @ t @ ''s'' = dec_str n' @ t' @ ''s''" for n t by blast
  have l: "''ns'' = ''n'' @ ''s''" "''ms'' = ''m'' @ ''s''" "micro_s = [CHR 0xC2, CHR 0xB5] @ ''s''"
    by (simp_all add: micro_s_def)
  show ?thesis
    unfolding duration_text_def Let_def l utoa_dec_str abs_of_nat nat_int
    using z by (simp del: append_assoc add: append_assoc [symmetric] split del: if_split)
      (simp split: if_split, blast)
qed

lemma duration_text_neg: "ns < 0 \<Longrightarrow> duration_text ns = CHR ''-'' # duration_text (- ns)"
  by (simp add: duration_text_def Let_def)

lemma parse_duration_text_printed:
  assumes ex: "exact_fraction fadd" and ns: "- (2 ^ 63) \<le> ns" "ns < 2 ^ 63"
  shows "parse_duration_text fadd (duration_text ns) = Some (dyn_time_ns_to_jsvalue ns)"
proof -
  define u where "u = nat \<bar>ns\<bar>"
  define s where "s = duration_text (int u)"
  have ub: "u \<le> 2 ^ 63" using ns by (simp add: u_def)
  obtain n t where t: "s = dec_str n @ t @ ''s''" using duration_text_shape unfolding s_def by blast
  have d: "is_dig (hd s)" "s \<noteq> []" using dec_str_digits [of n] by (cases "dec_str n"; simp add: t)+
  have z: "s \<noteq> ''0''"
  proof
    assume "s = ''0''"
    then have "last s = CHR ''0''" by simp
    then show False by (simp add: t)
  qed
  have h: "hd s \<noteq> CHR ''-''" "hd s \<noteq> CHR ''+''" using d(1) by (auto simp: is_dig_iff)
  have l: "duration_loop fadd 0 s = Some u" unfolding s_def by (rule duration_text_loop [OF ex ub])
  show ?thesis
  proof (cases "ns < 0")
    case True
    then have "duration_text ns = CHR ''-'' # s" "ns = - int u" by (simp_all add: duration_text_neg s_def u_def)
    then show ?thesis using z d(2) l by (simp add: parse_duration_text_def)
  next
    case False
    then have "duration_text ns = s" "ns = int u" "u \<le> 2 ^ 63 - 1" using ns by (simp_all add: s_def u_def nat_le_iff)
    then show ?thesis using z d(2) h l by (simp add: parse_duration_text_def)
  qed
qed



end
